(* ===== verification/Xv6_Prelude.thy ===== *)
theory Xv6_Prelude
  imports Main "HOL-Library.Word"
begin

unbundle bit_operations_syntax

text \<open>
  The shared part of the development: the machine integer types of
  \<^verbatim>\<open>kernel/types.h\<close>, the outcome of a kernel routine (a value, a panic, a spin on a
  held lock or a sleep on a wait channel) with its sequencing operator, byte strings in
  little-endian order, and the byte-addressed memory that page tables, trapframes and user
  pages live in. The lemmas on memory are stated on page numbers, so that every later
  theory argues about pages and not about single addresses.
\<close>

named_theorems page_simps \<open>arithmetic of page numbers and page-aligned addresses\<close>
named_theorems mem_frame \<open>memory updates leave other pages alone\<close>

section \<open>Machine integers\<close>

type_synonym u8 = "8 word"
type_synonym u16 = "16 word"
type_synonym u32 = "32 word"
type_synonym u64 = "64 word"

type_synonym memory = "u64 \<Rightarrow> u8"

section \<open>Outcomes of kernel routines\<close>

text \<open>
  \<open>Panic\<close> carries the message of the call to \<^verbatim>\<open>panic\<close>. \<open>Spin\<close> is the busy loop of
  \<^verbatim>\<open>acquire\<close> on a lock that is held by another hart: the call does not return before
  that hart moves. \<open>Sleep\<close> is a call to \<^verbatim>\<open>sleep\<close>: the process gives up the hart and
  the call does not return before a wakeup. \<open>OutOfFuel\<close> is the value of a routine whose
  recursion is not bounded by the code and went deeper than the bound of its definition.
\<close>

datatype 'a res = Ok 'a | Panic string | Spin | Sleep | OutOfFuel

definition bind_res :: "'a res \<Rightarrow> ('a \<Rightarrow> 'b res) \<Rightarrow> 'b res" where
  "bind_res m f = (case m of Ok x \<Rightarrow> f x | Panic e \<Rightarrow> Panic e | Spin \<Rightarrow> Spin | Sleep \<Rightarrow> Sleep
     | OutOfFuel \<Rightarrow> OutOfFuel)"

lemma bind_res_simps [simp]:
  "bind_res (Ok x) f = f x"
  "bind_res (Panic e) f = Panic e"
  "bind_res Spin f = Spin"
  "bind_res Sleep f = Sleep"
  "bind_res OutOfFuel f = OutOfFuel"
  by (simp_all add: bind_res_def)

lemma bind_res_cong [fundef_cong]:
  "m = m' \<Longrightarrow> (\<And>x. m' = Ok x \<Longrightarrow> f x = g x) \<Longrightarrow> bind_res m f = bind_res m' g"
  by (cases m') auto

lemma bind_res_Ok_iff: "bind_res m f = Ok y \<longleftrightarrow> (\<exists>x. m = Ok x \<and> f x = Ok y)"
  by (cases m) auto

lemma bind_res_OkE [elim!]:
  assumes "bind_res m f = Ok y"
  obtains x where "m = Ok x" "f x = Ok y"
  using assms by (auto simp: bind_res_Ok_iff)

lemma bind_res_assoc: "bind_res (bind_res m f) g = bind_res m (\<lambda>x. bind_res (f x) g)"
  by (cases m) auto

section \<open>Little-endian byte strings\<close>

fun le_encode :: "nat \<Rightarrow> nat \<Rightarrow> u8 list" where
  "le_encode 0 v = []"
| "le_encode (Suc k) v = of_nat (v mod 256) # le_encode k (v div 256)"

fun le_decode :: "u8 list \<Rightarrow> nat" where
  "le_decode [] = 0"
| "le_decode (b # bs) = unat b + 256 * le_decode bs"

lemma length_le_encode [simp]: "length (le_encode k v) = k"
  by (induction k arbitrary: v) auto

lemma unat_of_nat_byte: "unat (of_nat (v mod 256) :: u8) = v mod 256"
  by (simp add: unsigned_of_nat take_bit_eq_mod)

lemma le_decode_encode: "le_decode (le_encode k v) = v mod 256 ^ k"
proof (induction k arbitrary: v)
  case 0
  then show ?case by simp
next
  case (Suc k)
  have "v mod 256 + 256 * (v div 256 mod 256 ^ k) = v mod (256 * 256 ^ k)"
    using mod_mult2_eq [of v 256 "256 ^ k"] by simp
  then show ?case using Suc by (simp add: unat_of_nat_byte)
qed

lemma le_decode_less: "le_decode bs < 256 ^ length bs"
proof (induction bs)
  case (Cons b bs)
  have "unat b < 256" using unsigned_less [of b] by simp
  with Cons show ?case by simp
qed simp

lemma le_encode_decode: "le_encode (length bs) (le_decode bs) = bs"
proof (induction bs)
  case (Cons b bs)
  have "unat b < 256" using unsigned_less [of b] by simp
  then have "(unat b + 256 * le_decode bs) mod 256 = unat b"
    and "(unat b + 256 * le_decode bs) div 256 = le_decode bs" by simp_all
  then show ?case using Cons by simp
qed simp

section \<open>Byte-addressed memory\<close>

definition read_bytes :: "memory \<Rightarrow> u64 \<Rightarrow> nat \<Rightarrow> u8 list" where
  "read_bytes m a n = map (\<lambda>i. m (a + of_nat i)) [0..<n]"

definition write_bytes :: "memory \<Rightarrow> u64 \<Rightarrow> u8 list \<Rightarrow> memory" where
  "write_bytes m a bs = (\<lambda>x. if unat (x - a) < length bs then bs ! unat (x - a) else m x)"

definition load64 :: "memory \<Rightarrow> u64 \<Rightarrow> u64" where
  "load64 m a = of_nat (le_decode (read_bytes m a 8))"

definition store64 :: "memory \<Rightarrow> u64 \<Rightarrow> u64 \<Rightarrow> memory" where
  "store64 m a v = write_bytes m a (le_encode 8 (unat v))"

lemma length_read_bytes [simp]: "length (read_bytes m a n) = n"
  by (simp add: read_bytes_def)

lemma nth_read_bytes [simp]: "i < n \<Longrightarrow> read_bytes m a n ! i = m (a + of_nat i)"
  by (simp add: read_bytes_def)

lemma write_bytes_Nil [simp]: "write_bytes m a [] = m"
  by (simp add: write_bytes_def)

lemma unat_of_nat_u64: "n < 2 ^ 64 \<Longrightarrow> unat (of_nat n :: u64) = n"
  by (simp add: unsigned_of_nat take_bit_nat_eq_self)

lemma unat_u64_less: "unat (a :: u64) < 18446744073709551616"
proof -
  have "unat a < 2 ^ LENGTH(64)" by (rule unsigned_less)
  then show ?thesis by simp
qed

lemma read_write_bytes_same:
  assumes "length bs < 2 ^ 64"
  shows "read_bytes (write_bytes m a bs) a (length bs) = bs"
proof (rule nth_equalityI)
  fix i assume "i < length (read_bytes (write_bytes m a bs) a (length bs))"
  then have i: "i < length bs" by simp
  with assms have "unat (of_nat i :: u64) = i" by (intro unat_of_nat_u64) simp
  with i show "read_bytes (write_bytes m a bs) a (length bs) ! i = bs ! i"
    by (simp add: write_bytes_def)
qed simp

lemma write_read_bytes_same: "write_bytes m a (read_bytes m a n) = m"
  by (rule ext) (simp add: write_bytes_def)

lemma load64_store64_same [simp]: "load64 (store64 m a v) a = v"
proof -
  have "read_bytes (store64 m a v) a 8 = le_encode 8 (unat v)"
    using read_write_bytes_same [of "le_encode 8 (unat v)" m a] by (simp add: store64_def)
  moreover have "unat v mod 256 ^ 8 = unat v"
    using unat_u64_less [of v] by simp
  ultimately show ?thesis by (simp add: load64_def le_decode_encode)
qed

lemma load64_cong: "(\<And>i. i < 8 \<Longrightarrow> m (a + of_nat i) = m' (a + of_nat i)) \<Longrightarrow> load64 m a = load64 m' a"
  unfolding load64_def read_bytes_def by (rule arg_cong [where f = "\<lambda>xs. of_nat (le_decode xs)"]) auto

section \<open>Pages\<close>

text \<open>The number of the page that an address lies in, and page alignment.\<close>

definition pgno :: "u64 \<Rightarrow> nat" where
  "pgno a = unat a div 4096"

definition aligned :: "u64 \<Rightarrow> bool" where
  "aligned a \<longleftrightarrow> unat a mod 4096 = 0"

definition agree :: "memory \<Rightarrow> memory \<Rightarrow> nat \<Rightarrow> bool" where
  "agree m m' k \<longleftrightarrow> (\<forall>x. pgno x = k \<longrightarrow> m x = m' x)"

lemma agree_refl [simp, intro]: "agree m m k"
  by (simp add: agree_def)

lemma agree_sym: "agree m m' k \<Longrightarrow> agree m' m k"
  by (simp add: agree_def)

lemma agree_trans: "agree m m' k \<Longrightarrow> agree m' m'' k \<Longrightarrow> agree m m'' k"
  by (simp add: agree_def)

lemma aligned_unat: "aligned p \<Longrightarrow> unat p = pgno p * 4096"
  using div_mult_mod_eq [of "unat p" 4096] by (simp add: aligned_def pgno_def)

lemma aligned_page_end: "aligned p \<Longrightarrow> unat p + 4096 \<le> 18446744073709551616"
proof -
  assume "aligned p"
  then have "unat p = pgno p * 4096" by (rule aligned_unat)
  moreover from this have "pgno p < 4503599627370496" using unat_u64_less [of p] by linarith
  ultimately show ?thesis by linarith
qed

lemma unat_page_offset:
  assumes "aligned p" "off < 4096"
  shows "unat (p + of_nat off) = unat p + off"
proof -
  have "unat p + off < 2 ^ 64" using aligned_page_end [OF assms(1)] assms(2) by simp
  moreover have "unat (of_nat off :: u64) = off"
    using assms by (intro unat_of_nat_u64) simp
  ultimately show ?thesis by (simp add: unat_word_ariths)
qed

lemma pgno_page_offset [page_simps]:
  "aligned p \<Longrightarrow> off < 4096 \<Longrightarrow> pgno (p + of_nat off) = pgno p"
  using aligned_unat [of p] unat_page_offset [of p off] by (simp add: pgno_def)

lemma aligned_pgno_eq: "aligned p \<Longrightarrow> aligned q \<Longrightarrow> pgno p = pgno q \<longleftrightarrow> p = q"
  by (metis aligned_unat word_unat_eq_iff)

lemma page_addr_decomp:
  assumes "aligned p" "pgno x = pgno p"
  shows "\<exists>off < 4096. x = p + of_nat off"
proof (intro exI conjI)
  let ?off = "unat x mod 4096"
  show "?off < 4096" by simp
  have "unat x = pgno x * 4096 + ?off" by (simp add: pgno_def)
  with assms have "unat x = unat p + ?off" by (simp add: aligned_unat)
  with assms(1) have "unat x = unat (p + of_nat ?off)" by (simp add: unat_page_offset)
  then show "x = p + of_nat ?off" by (simp add: word_unat_eq_iff)
qed

lemma write_bytes_range:
  assumes "aligned p" "off + length bs \<le> 4096" "unat (x - (p + of_nat off)) < length bs"
  shows "pgno x = pgno p"
proof -
  define i where "i = unat (x - (p + of_nat off))"
  have "x = (p + of_nat off) + of_nat i" by (simp add: i_def)
  also have "\<dots> = p + of_nat (off + i)" by simp
  finally have "x = p + of_nat (off + i)" .
  moreover have "off + i < 4096" using assms i_def by linarith
  ultimately show ?thesis using assms(1) by (metis pgno_page_offset)
qed

lemma agree_write_bytes [mem_frame]:
  assumes "aligned p" "off + length bs \<le> 4096" "k \<noteq> pgno p"
  shows "agree m (write_bytes m (p + of_nat off) bs) k"
  using write_bytes_range [OF assms(1,2)] assms(3)
  by (auto simp: agree_def write_bytes_def)

lemma agree_write_page [mem_frame]:
  "aligned p \<Longrightarrow> length bs \<le> 4096 \<Longrightarrow> k \<noteq> pgno p \<Longrightarrow> agree m (write_bytes m p bs) k"
  using agree_write_bytes [of p 0 bs k m] by simp

lemma agree_read_bytes:
  assumes "agree m m' (pgno p)" "aligned p" "off + n \<le> 4096"
  shows "read_bytes m (p + of_nat off) n = read_bytes m' (p + of_nat off) n"
proof (rule nth_equalityI)
  fix i assume "i < length (read_bytes m (p + of_nat off) n)"
  then have i: "i < n" by simp
  have "pgno (p + of_nat (off + i)) = pgno p"
    using assms i by (intro pgno_page_offset) auto
  then have "m (p + of_nat (off + i)) = m' (p + of_nat (off + i))"
    using assms(1) by (simp add: agree_def)
  with i show "read_bytes m (p + of_nat off) n ! i = read_bytes m' (p + of_nat off) n ! i"
    by (simp add: add.assoc)
qed simp

lemma agree_load64:
  assumes "agree m m' (pgno p)" "aligned p" "off + 8 \<le> 4096"
  shows "load64 m (p + of_nat off) = load64 m' (p + of_nat off)"
  using agree_read_bytes [OF assms] by (simp add: load64_def)

lemma agree_store64 [mem_frame]:
  assumes "aligned p" "off + 8 \<le> 4096" "k \<noteq> pgno p"
  shows "agree m (store64 m (p + of_nat off) v) k"
  using agree_write_bytes [of p off "le_encode 8 (unat v)" k m] assms by (simp add: store64_def)

lemma load64_store64_other:
  assumes "aligned p" "off + 8 \<le> 4096" "off' + 8 \<le> 4096" "off + 8 \<le> off' \<or> off' + 8 \<le> off"
  shows "load64 (store64 m (p + of_nat off) v) (p + of_nat off') = load64 m (p + of_nat off')"
proof (rule load64_cong)
  fix i :: nat assume i: "i < 8"
  let ?x = "p + of_nat off' + of_nat i" and ?a = "p + of_nat off"
  have x: "unat ?x = unat p + (off' + i)"
    using unat_page_offset [of p "off' + i"] assms i by (simp add: add.assoc)
  have a: "unat ?a = unat p + off" using unat_page_offset [of p off] assms by simp
  have p: "unat p + 4096 \<le> 18446744073709551616" by (rule aligned_page_end [OF assms(1)])
  have "unat (?x - ?a) = (if unat ?a \<le> unat ?x then unat ?x - unat ?a
     else unat ?x + 18446744073709551616 - unat ?a)"
    using unat_sub_if' [of ?x ?a] by simp
  then have "\<not> unat (?x - ?a) < 8"
    using assms(2-4) i p unfolding x a by (auto split: if_splits)
  then show "store64 m ?a v ?x = m ?x" by (simp add: store64_def write_bytes_def)
qed

end
