(* ===== verification/Riscv.thy ===== *)
theory Riscv
  imports Xv6_Prelude
begin

unbundle bit_operations_syntax

text \<open>
  The macros of \<^verbatim>\<open>kernel/riscv.h\<close> and \<^verbatim>\<open>kernel/memlayout.h\<close>: page rounding, Sv39
  page-table entries and indices, and the physical and virtual memory layout. The lemmas
  say that the three 9-bit indices of a virtual address below \<open>MAXVA\<close> determine its page
  and that the address and the flag bits of an entry can be read back independently.
\<close>

named_theorems riscv_consts \<open>numeric values of the constants of riscv.h and memlayout.h\<close>

section \<open>Page rounding\<close>

definition PGSIZE :: u64 where
  [riscv_consts]: "PGSIZE = 4096"

definition PGSHIFT :: nat where
  [riscv_consts]: "PGSHIFT = 12"

definition PGROUNDUP :: "u64 \<Rightarrow> u64" where
  "PGROUNDUP sz = (sz + PGSIZE - 1) AND NOT (PGSIZE - 1)"

definition PGROUNDDOWN :: "u64 \<Rightarrow> u64" where
  "PGROUNDDOWN a = a AND NOT (PGSIZE - 1)"

section \<open>Page-table entries\<close>

definition PTE_V :: u64 where [riscv_consts]: "PTE_V = push_bit 0 1"
definition PTE_R :: u64 where [riscv_consts]: "PTE_R = push_bit 1 1"
definition PTE_W :: u64 where [riscv_consts]: "PTE_W = push_bit 2 1"
definition PTE_X :: u64 where [riscv_consts]: "PTE_X = push_bit 3 1"
definition PTE_U :: u64 where [riscv_consts]: "PTE_U = push_bit 4 1"
definition PTE_RSW :: u64 where [riscv_consts]: "PTE_RSW = push_bit 8 1"

definition PA2PTE :: "u64 \<Rightarrow> u64" where
  "PA2PTE pa = push_bit 10 (drop_bit 12 pa)"

definition PTE2PA :: "u64 \<Rightarrow> u64" where
  "PTE2PA pte = push_bit 12 (drop_bit 10 pte)"

definition PTE_FLAGS :: "u64 \<Rightarrow> u64" where
  "PTE_FLAGS pte = pte AND 0x3FF"

definition PXMASK :: u64 where
  [riscv_consts]: "PXMASK = 0x1FF"

definition PXSHIFT :: "nat \<Rightarrow> nat" where
  "PXSHIFT level = PGSHIFT + 9 * level"

definition PX :: "nat \<Rightarrow> u64 \<Rightarrow> u64" where
  "PX level va = drop_bit (PXSHIFT level) va AND PXMASK"

definition MAXVA :: u64 where
  [riscv_consts]: "MAXVA = push_bit (9 + 9 + 9 + 12 - 1) 1"

definition SATP_SV39 :: u64 where
  "SATP_SV39 = push_bit 60 8"

definition MAKE_SATP :: "u64 \<Rightarrow> u64" where
  "MAKE_SATP pagetable = SATP_SV39 OR drop_bit 12 pagetable"

section \<open>Physical and virtual layout\<close>

definition UART0 :: u64 where [riscv_consts]: "UART0 = 0x10000000"
definition VIRTIO0 :: u64 where [riscv_consts]: "VIRTIO0 = 0x10001000"
definition PLIC :: u64 where [riscv_consts]: "PLIC = 0x0c000000"
definition KERNBASE :: u64 where [riscv_consts]: "KERNBASE = 0x80000000"
definition PHYSTOP :: u64 where [riscv_consts]: "PHYSTOP = KERNBASE + 128 * 1024 * 1024"
definition TRAMPOLINE :: u64 where [riscv_consts]: "TRAMPOLINE = MAXVA - PGSIZE"
definition TRAPFRAME :: u64 where [riscv_consts]: "TRAPFRAME = TRAMPOLINE - PGSIZE"

definition KSTACK :: "nat \<Rightarrow> u64" where
  "KSTACK p = TRAMPOLINE - (of_nat p + 1) * 2 * PGSIZE"

section \<open>Rounding lemmas\<close>

lemma PGSIZE_mask: "PGSIZE - 1 = mask 12"
  by (simp add: PGSIZE_def mask_numeral)

lemma and_not_mask: "(a :: u64) AND NOT (mask k) = push_bit k (drop_bit k a)"
  by (rule bit_word_eqI) (auto simp: bit_simps)

lemma PGROUNDDOWN_shift: "PGROUNDDOWN a = push_bit 12 (drop_bit 12 a)"
  unfolding PGROUNDDOWN_def PGSIZE_mask by (rule and_not_mask)

lemma unat_PGROUNDDOWN: "unat (PGROUNDDOWN a) = unat a div 4096 * 4096"
proof -
  have "unat (push_bit 12 (drop_bit 12 a)) = (2 ^ 12 * (unat a div 2 ^ 12)) mod 2 ^ 64"
    by (simp add: push_bit_eq_mult unat_word_ariths unat_drop_bit_eq drop_bit_nat_def
        mult.commute del: drop_bit_drop_bit)
  moreover have "unat a div 4096 * 4096 \<le> unat a" by simp
  ultimately show ?thesis
    using unat_u64_less [of a] by (simp add: PGROUNDDOWN_shift mult.commute)
qed

lemma aligned_PGROUNDDOWN [simp]: "aligned (PGROUNDDOWN a)"
  by (simp add: aligned_def unat_PGROUNDDOWN)

lemma pgno_PGROUNDDOWN [simp]: "pgno (PGROUNDDOWN a) = pgno a"
  by (simp add: pgno_def unat_PGROUNDDOWN)

lemma PGROUNDDOWN_aligned [simp]: "aligned a \<Longrightarrow> PGROUNDDOWN a = a"
  by (simp add: word_unat_eq_iff unat_PGROUNDDOWN aligned_unat flip: pgno_def)

lemma PGROUNDUP_down: "PGROUNDUP a = PGROUNDDOWN (a + 4095)"
  by (simp add: PGROUNDUP_def PGROUNDDOWN_def PGSIZE_def add.commute)

lemma aligned_PGROUNDUP [simp]: "aligned (PGROUNDUP a)"
  by (simp add: PGROUNDUP_down)

lemma unat_PGROUNDUP:
  "unat a + 4095 < 18446744073709551616 \<Longrightarrow> unat (PGROUNDUP a) = (unat a + 4095) div 4096 * 4096"
  by (simp add: PGROUNDUP_down unat_PGROUNDDOWN unat_word_ariths)

lemma PGROUNDUP_aligned: "aligned a \<Longrightarrow> PGROUNDUP a = a"
  using aligned_page_end [of a] aligned_unat [of a]
  by (simp add: word_unat_eq_iff unat_PGROUNDUP)

section \<open>Virtual address indices\<close>

lemma unat_PX: "unat (PX level va) = unat va div 2 ^ (12 + 9 * level) mod 512"
proof -
  have "PXMASK = mask 9" by (simp add: PXMASK_def mask_numeral)
  then have "PX level va = take_bit 9 (drop_bit (12 + 9 * level) va)"
    by (simp only: PX_def PXSHIFT_def PGSHIFT_def take_bit_eq_mask)
  then have "unat (PX level va) = take_bit 9 (drop_bit (12 + 9 * level) (unat va))"
    by (simp only: unsigned_take_bit_eq unat_drop_bit_eq)
  then show ?thesis by (simp add: take_bit_eq_mod drop_bit_nat_def)
qed

lemma PX_less [simp]: "unat (PX level va) < 512"
  by (simp add: unat_PX)

lemma less_MAXVA: "va < MAXVA \<longleftrightarrow> unat va < 2 ^ 38"
  by (simp add: MAXVA_def word_less_nat_alt)

lemma pgno_PX:
  assumes "va < MAXVA"
  shows "pgno va = unat (PX 2 va) * 262144 + unat (PX 1 va) * 512 + unat (PX 0 va)"
proof -
  define q where "q = unat va div 4096"
  have "unat va < 274877906944" using assms by (simp add: less_MAXVA)
  then have q: "q < 67108864" by (simp add: q_def)
  have "unat va div 2 ^ 30 = q div 262144" "unat va div 2 ^ 21 = q div 512"
    by (simp_all add: q_def flip: div_mult2_eq)
  then have "unat (PX 2 va) = q div 262144 mod 512" "unat (PX 1 va) = q div 512 mod 512"
    "unat (PX 0 va) = q mod 512"
    by (simp_all add: unat_PX q_def)
  moreover have "q div 262144 mod 512 = q div 262144" using q by simp
  moreover have "q mod 262144 = 512 * (q div 512 mod 512) + q mod 512"
    using mod_mult2_eq [of q 512 512] by simp
  moreover have "q = q div 262144 * 262144 + q mod 262144" by simp
  ultimately show ?thesis unfolding pgno_def q_def [symmetric] by linarith
qed

lemma PX_pgno:
  "unat (PX 0 va) = pgno va mod 512"
  "unat (PX 1 va) = pgno va div 512 mod 512"
  "unat (PX 2 va) = pgno va div 262144 mod 512"
  by (simp_all add: unat_PX pgno_def flip: div_mult2_eq)

lemma PX_eq_pgno:
  "va < MAXVA \<Longrightarrow> va' < MAXVA \<Longrightarrow>
    PX 2 va = PX 2 va' \<and> PX 1 va = PX 1 va' \<and> PX 0 va = PX 0 va' \<longleftrightarrow> pgno va = pgno va'"
  using pgno_PX [of va] pgno_PX [of va'] PX_pgno [of va] PX_pgno [of va']
  by (auto simp: word_unat_eq_iff)

section \<open>Entry lemmas\<close>

lemma bit_single: "k < 64 \<Longrightarrow> bit (push_bit k 1 :: u64) n \<longleftrightarrow> n = k"
  by (auto simp: bit_exp_iff)

lemma bit_PTE_flags [simp]:
  "bit PTE_V n \<longleftrightarrow> n = 0" "bit PTE_R n \<longleftrightarrow> n = 1" "bit PTE_W n \<longleftrightarrow> n = 2"
  "bit PTE_X n \<longleftrightarrow> n = 3" "bit PTE_U n \<longleftrightarrow> n = 4" "bit PTE_RSW n \<longleftrightarrow> n = 8"
  by (simp_all only: riscv_consts bit_single)

lemma and_single_bit: "(x :: u64) AND push_bit k 1 \<noteq> 0 \<longleftrightarrow> bit x k"
proof
  assume "x AND push_bit k 1 \<noteq> 0"
  then obtain n where "bit (x AND push_bit k 1) n" by (metis bit_0_eq bot_apply bit_eq_iff bot_bool_def)
  then show "bit x k" by (auto simp: bit_simps)
next
  assume "bit x k"
  then have "bit (x AND push_bit k 1) k" using bit_imp_le_length [of x k] by (simp add: bit_simps)
  then show "x AND push_bit k 1 \<noteq> 0" by auto
qed

lemma pte_flag_tests:
  "(x AND PTE_V = 0) \<longleftrightarrow> \<not> bit x 0" "(x AND PTE_R = 0) \<longleftrightarrow> \<not> bit x 1"
  "(x AND PTE_W = 0) \<longleftrightarrow> \<not> bit x 2" "(x AND PTE_X = 0) \<longleftrightarrow> \<not> bit x 3"
  "(x AND PTE_U = 0) \<longleftrightarrow> \<not> bit x 4" "(x AND PTE_RSW = 0) \<longleftrightarrow> \<not> bit x 8"
  using and_single_bit [of x] by (auto simp only: riscv_consts)

lemma bit_PTE_FLAGS: "bit (PTE_FLAGS x) n \<longleftrightarrow> n < 10 \<and> bit x n"
proof -
  have "PTE_FLAGS x = take_bit 10 x"
    by (simp add: PTE_FLAGS_def take_bit_eq_mask mask_numeral)
  then show ?thesis by (simp add: bit_take_bit_iff)
qed

lemma bit_PA2PTE: "bit (PA2PTE pa) n \<longleftrightarrow> n < 64 \<and> 10 \<le> n \<and> bit pa (n + 2)"
  by (auto simp: PA2PTE_def bit_simps)

lemma bit_PTE2PA: "bit (PTE2PA x) n \<longleftrightarrow> n < 64 \<and> 12 \<le> n \<and> bit x (n - 2)"
  by (auto simp: PTE2PA_def bit_simps)

lemma aligned_bit: "aligned pa \<Longrightarrow> n < 12 \<Longrightarrow> \<not> bit pa n"
proof -
  assume "aligned pa" "n < 12"
  then have "pa = push_bit 12 (drop_bit 12 pa)"
    using PGROUNDDOWN_aligned [of pa] by (simp only: PGROUNDDOWN_shift)
  then have "bit pa n = bit (push_bit 12 (drop_bit 12 pa)) n" by simp
  with \<open>n < 12\<close> show ?thesis by (simp add: bit_simps)
qed

text \<open>An entry word built by \<open>mappages\<close>: flag bits 0 to 9, address above.\<close>

definition flagbits :: "u64 \<Rightarrow> bool" where
  "flagbits perm \<longleftrightarrow> (\<forall>n \<ge> 10. \<not> bit perm n)"

lemma flagbits_PTE_FLAGS [simp]: "flagbits (PTE_FLAGS x)"
  by (simp add: flagbits_def bit_PTE_FLAGS)

lemma flagbits_consts [simp]:
  "flagbits PTE_V" "flagbits PTE_R" "flagbits PTE_W" "flagbits PTE_X" "flagbits PTE_U" "flagbits PTE_RSW"
  by (auto simp: flagbits_def)

lemma flagbits_OR [simp]: "flagbits a \<Longrightarrow> flagbits b \<Longrightarrow> flagbits (a OR b)"
  by (simp add: flagbits_def bit_simps)

lemma flagbits_AND [simp]: "flagbits a \<Longrightarrow> flagbits (a AND b)"
  by (simp add: flagbits_def bit_simps)

lemma PTE2PA_make:
  assumes "aligned pa" "flagbits perm"
  shows "PTE2PA (PA2PTE pa OR perm OR PTE_V) = pa"
proof (rule bit_word_eqI)
  fix n assume n: "n < LENGTH(64)"
  show "bit (PTE2PA (PA2PTE pa OR perm OR PTE_V)) n = bit pa n"
  proof (cases "n < 12")
    case True
    then show ?thesis using aligned_bit [OF assms(1)] by (simp add: bit_PTE2PA)
  next
    case False
    then have "Suc (Suc (n - 2)) = n" by simp
    with False n assms(2) show ?thesis
      by (auto simp: bit_PTE2PA bit_PA2PTE bit_or_iff flagbits_def)
  qed
qed

lemma PTE_FLAGS_make: "flagbits perm \<Longrightarrow> PTE_FLAGS (PA2PTE pa OR perm OR PTE_V) = perm OR PTE_V"
  by (rule bit_word_eqI) (auto simp: bit_PTE_FLAGS bit_PA2PTE bit_or_iff flagbits_def not_less
      intro: leI)

lemma bit_make_flag:
  "n < 10 \<Longrightarrow> bit (PA2PTE pa OR perm OR PTE_V) n \<longleftrightarrow> bit perm n \<or> n = 0"
  by (auto simp: bit_PA2PTE bit_simps)

lemma aligned_PTE2PA [simp]: "aligned (PTE2PA x)"
proof -
  have "PTE2PA x = PGROUNDDOWN (PTE2PA x)"
    by (rule bit_word_eqI) (auto simp: PGROUNDDOWN_shift bit_simps bit_PTE2PA)
  then show ?thesis by (metis aligned_PGROUNDDOWN)
qed

lemma PTE2PA_flags_eq:
  "(\<And>n. 10 \<le> n \<Longrightarrow> bit x n = bit y n) \<Longrightarrow> PTE2PA x = PTE2PA y"
  by (rule bit_word_eqI) (auto simp: bit_PTE2PA)

end
