(* ===== verification/Kstring.thy ===== *)
theory Kstring
  imports Riscv
begin

text \<open>
  \<^verbatim>\<open>kernel/string.c\<close>. The bulk routines \<open>memset\<close> and \<open>memmove\<close> work on the
  byte-addressed memory, one byte per loop iteration as the source does. The routines on
  character strings take a pointer as the sequence of the bytes from it on, so that they apply
  to memory (\<open>at_mem\<close>) and to a local buffer (\<open>at_buf\<close>). The lemmas give the loops
  closed forms; the rest of the development uses those.
\<close>

section \<open>Bulk copies\<close>

fun memset_loop :: "memory \<Rightarrow> u64 \<Rightarrow> u8 \<Rightarrow> nat \<Rightarrow> nat \<Rightarrow> memory" where
  "memset_loop m cdst c i 0 = m"
| "memset_loop m cdst c i (Suc k) = memset_loop (m(cdst + of_nat i := c)) cdst c (Suc i) k"

definition memset :: "memory \<Rightarrow> u64 \<Rightarrow> u8 \<Rightarrow> nat \<Rightarrow> memory" where
  "memset m dst c n = memset_loop m dst c 0 n"

fun move_up :: "memory \<Rightarrow> u64 \<Rightarrow> u64 \<Rightarrow> nat \<Rightarrow> memory" where
  "move_up m d s 0 = m"
| "move_up m d s (Suc n) = move_up (m(d := m s)) (d + 1) (s + 1) n"

fun move_down :: "memory \<Rightarrow> u64 \<Rightarrow> u64 \<Rightarrow> nat \<Rightarrow> memory" where
  "move_down m d s 0 = m"
| "move_down m d s (Suc n) = move_down (m(d - 1 := m (s - 1))) (d - 1) (s - 1) n"

definition memmove :: "memory \<Rightarrow> u64 \<Rightarrow> u64 \<Rightarrow> nat \<Rightarrow> memory" where
  "memmove m dst src n =
     (if n = 0 then m
      else if src < dst \<and> src + of_nat n > dst
      then move_down m (dst + of_nat n) (src + of_nat n) n
      else move_up m dst src n)"

definition memcpy :: "memory \<Rightarrow> u64 \<Rightarrow> u64 \<Rightarrow> nat \<Rightarrow> memory" where
  "memcpy m dst src n = memmove m dst src n"

section \<open>Character strings\<close>

type_synonym cptr = "nat \<Rightarrow> u8"

definition at_mem :: "memory \<Rightarrow> u64 \<Rightarrow> cptr" where
  "at_mem m a = (\<lambda>i. m (a + of_nat i))"

definition at_buf :: "u8 list \<Rightarrow> cptr" where
  "at_buf bs = (\<lambda>i. if i < length bs then bs ! i else 0)"

fun memcmp_loop :: "cptr \<Rightarrow> cptr \<Rightarrow> nat \<Rightarrow> nat \<Rightarrow> int" where
  "memcmp_loop s1 s2 i 0 = 0"
| "memcmp_loop s1 s2 i (Suc n) =
     (if s1 i \<noteq> s2 i then uint (s1 i) - uint (s2 i) else memcmp_loop s1 s2 (Suc i) n)"

definition memcmp :: "cptr \<Rightarrow> cptr \<Rightarrow> nat \<Rightarrow> int" where
  "memcmp v1 v2 n = memcmp_loop v1 v2 0 n"

fun strncmp_loop :: "cptr \<Rightarrow> cptr \<Rightarrow> nat \<Rightarrow> nat \<Rightarrow> int" where
  "strncmp_loop p q i 0 = 0"
| "strncmp_loop p q i (Suc n) =
     (if p i \<noteq> 0 \<and> p i = q i then strncmp_loop p q (Suc i) n else uint (p i) - uint (q i))"

definition strncmp :: "cptr \<Rightarrow> cptr \<Rightarrow> nat \<Rightarrow> int" where
  "strncmp p q n = strncmp_loop p q 0 n"

text \<open>
  \<open>strncpy\<close> and \<open>safestrcpy\<close> write the bytes of a buffer from index \<open>i\<close> on; \<open>n\<close>
  is the number of bytes that may still be written.
\<close>

fun strncpy_pad :: "u8 list \<Rightarrow> nat \<Rightarrow> nat \<Rightarrow> u8 list" where
  "strncpy_pad s i 0 = s"
| "strncpy_pad s i (Suc n) = strncpy_pad (s[i := 0]) (Suc i) n"

fun strncpy_loop :: "u8 list \<Rightarrow> cptr \<Rightarrow> nat \<Rightarrow> nat \<Rightarrow> u8 list" where
  "strncpy_loop s t i 0 = s"
| "strncpy_loop s t i (Suc n) =
     (if t i \<noteq> 0 then strncpy_loop (s[i := t i]) t (Suc i) n
      else strncpy_pad (s[i := t i]) (Suc i) n)"

definition strncpy :: "u8 list \<Rightarrow> cptr \<Rightarrow> nat \<Rightarrow> u8 list" where
  "strncpy s t n = strncpy_loop s t 0 n"

fun safestrcpy_loop :: "u8 list \<Rightarrow> cptr \<Rightarrow> nat \<Rightarrow> nat \<Rightarrow> u8 list" where
  "safestrcpy_loop s t i 0 = s[i := 0]"
| "safestrcpy_loop s t i (Suc n) =
     (if t i \<noteq> 0 then safestrcpy_loop (s[i := t i]) t (Suc i) n
      else (s[i := t i])[Suc i := 0])"

definition safestrcpy :: "u8 list \<Rightarrow> cptr \<Rightarrow> int \<Rightarrow> u8 list" where
  "safestrcpy s t n = (if n \<le> 0 then s else safestrcpy_loop s t 0 (nat (n - 1)))"

partial_function (option) strlen_loop :: "cptr \<Rightarrow> nat \<Rightarrow> nat option" where
  "strlen_loop s n = (if s n = 0 then Some n else strlen_loop s (Suc n))"

definition strlen :: "cptr \<Rightarrow> nat option" where
  "strlen s = strlen_loop s 0"

section \<open>Closed forms of the bulk copies\<close>

lemma offset_eq_iff: "k < 2 ^ 64 \<Longrightarrow> x = a + of_nat k \<longleftrightarrow> unat (x - a) = k" for x a :: u64
proof -
  assume "k < 2 ^ 64"
  then have "unat (of_nat k :: u64) = k" by (rule unat_of_nat_u64)
  moreover have "x = a + of_nat k \<longleftrightarrow> x - a = of_nat k" by (auto simp: algebra_simps)
  ultimately show ?thesis by (simp add: word_unat_eq_iff)
qed

lemma memset_loop_eq:
  "i + k < 2 ^ 64 \<Longrightarrow>
   memset_loop m a c i k = (\<lambda>x. if i \<le> unat (x - a) \<and> unat (x - a) < i + k then c else m x)"
proof (induction k arbitrary: m i)
  case 0
  then show ?case by (intro ext) (auto simp: not_less)
next
  case (Suc k)
  have "x = a + of_nat i \<longleftrightarrow> unat (x - a) = i" for x
    using Suc.prems by (intro offset_eq_iff) simp
  then show ?case using Suc by (auto simp: fun_eq_iff fun_upd_def)
qed

lemma memset_eq: "n < 2 ^ 64 \<Longrightarrow> memset m a c n = write_bytes m a (replicate n c)"
  by (simp add: memset_def memset_loop_eq write_bytes_def fun_eq_iff)

text \<open>
  A copy of \<open>n\<close> bytes that does not wrap around the address space: the byte at offset \<open>k\<close>
  from \<open>d\<close> becomes the old byte at offset \<open>k\<close> from \<open>s\<close>.
\<close>

lemma unat_add_no_wrap: "unat (a :: u64) + k < 2 ^ 64 \<Longrightarrow> unat (a + of_nat k) = unat a + k"
proof -
  assume "unat a + k < 2 ^ 64"
  moreover from this have "unat (of_nat k :: u64) = k" by (intro unat_of_nat_u64) simp
  ultimately show ?thesis by (simp add: unat_word_ariths)
qed

lemma move_up_outside:
  assumes "\<And>k. k < n \<Longrightarrow> x \<noteq> d + of_nat k"
  shows "move_up m d s n x = m x"
  using assms
proof (induction n arbitrary: m d s)
  case (Suc n)
  have "x \<noteq> d" using Suc.prems [of 0] by simp
  moreover have "move_up (m(d := m s)) (d + 1) (s + 1) n x = (m(d := m s)) x"
  proof (rule Suc.IH)
    fix k assume "k < n"
    then show "x \<noteq> d + 1 + of_nat k" using Suc.prems [of "Suc k"] by (simp add: add.assoc)
  qed
  ultimately show ?case by simp
qed simp

lemma move_up_at:
  assumes "unat d + n \<le> 2 ^ 64" "unat s + n \<le> 2 ^ 64" "unat d \<le> unat s \<or> unat s + n \<le> unat d"
    and "k < n"
  shows "move_up m d s n (d + of_nat k) = m (s + of_nat k)"
  using assms
proof (induction n arbitrary: m d s k)
  case 0
  then show ?case by simp
next
  case (Suc n)
  show ?case
  proof (cases k)
    case 0
    have "d \<noteq> d + 1 + of_nat j" if "j < n" for j
      using offset_eq_iff [of "Suc j" d d] that Suc.prems by (simp add: add.assoc)
    then show ?thesis using 0 by (simp add: move_up_outside)
  next
    case (Suc j)
    with Suc.prems have d1: "unat (d + 1) = unat d + 1" and s1: "unat (s + 1) = unat s + 1"
      using unat_add_no_wrap [of d 1] unat_add_no_wrap [of s 1] by auto
    have sj: "unat (s + of_nat (Suc j)) = unat s + Suc j"
      using Suc Suc.prems by (intro unat_add_no_wrap) auto
    then have ne: "s + of_nat (Suc j) \<noteq> d" using Suc Suc.prems by auto
    have "move_up (m(d := m s)) (d + 1) (s + 1) n (d + 1 + of_nat j)
        = (m(d := m s)) (s + 1 + of_nat j)"
      using Suc Suc.prems by (intro Suc.IH) (auto simp: d1 s1)
    with ne show ?thesis using Suc by (simp add: add.assoc)
  qed
qed

lemma move_down_outside:
  assumes "\<And>k. k < n \<Longrightarrow> x \<noteq> d + of_nat k"
  shows "move_down m (d + of_nat n) (s + of_nat n) n x = m x"
  using assms by (induction n arbitrary: m) (auto simp: add.assoc [symmetric])

lemma move_down_at:
  assumes "unat d + n \<le> 2 ^ 64" "unat s + n \<le> 2 ^ 64" "unat s \<le> unat d" and "k < n"
  shows "move_down m (d + of_nat n) (s + of_nat n) n (d + of_nat k) = m (s + of_nat k)"
  using assms
proof (induction n arbitrary: m k)
  case 0
  then show ?case by simp
next
  case (Suc n)
  let ?m = "m(d + of_nat n := m (s + of_nat n))"
  have step: "move_down m (d + of_nat (Suc n)) (s + of_nat (Suc n)) (Suc n)
      = move_down ?m (d + of_nat n) (s + of_nat n) n"
    by (simp add: add.assoc [symmetric])
  show ?case
  proof (cases "k = n")
    case True
    have "d + of_nat n \<noteq> d + of_nat j" if "j < n" for j
      using offset_eq_iff [of j "d + of_nat n" d] that Suc.prems by (simp add: unat_of_nat_u64)
    then show ?thesis unfolding step using True by (simp add: move_down_outside)
  next
    case False
    then have k: "k < n" using Suc.prems by simp
    have "unat (s + of_nat k) = unat s + k" "unat (d + of_nat n) = unat d + n"
      using k Suc.prems by (auto intro!: unat_add_no_wrap)
    then have ne: "s + of_nat k \<noteq> d + of_nat n" using k Suc.prems by auto
    have "move_down ?m (d + of_nat n) (s + of_nat n) n (d + of_nat k) = ?m (s + of_nat k)"
      using k Suc.prems by (intro Suc.IH) auto
    with ne show ?thesis unfolding step by simp
  qed
qed

text \<open>
  The direction test of \<open>memmove\<close> makes the copy correct for overlapping ranges: the
  destination receives the bytes the source range held before the call.
\<close>

lemma memmove_eq:
  assumes "unat dst + n < 2 ^ 64" "unat src + n < 2 ^ 64"
  shows "memmove m dst src n = write_bytes m dst (read_bytes m src n)"
proof -
  have sn: "unat (src + of_nat n) = unat src + n" using assms by (intro unat_add_no_wrap)
  have "memmove m dst src n x =
      (if unat (x - dst) < n then m (src + of_nat (unat (x - dst))) else m x)" for x
  proof (cases "unat (x - dst) < n")
    case True
    define k where "k = unat (x - dst)"
    have x: "x = dst + of_nat k" by (simp add: k_def)
    have "k < n" using True k_def by simp
    moreover from this have "unat (of_nat k :: u64) = k" using assms by (intro unat_of_nat_u64) simp
    ultimately show ?thesis
      unfolding memmove_def x
      using assms sn move_down_at [of dst n src k m] move_up_at [of dst n src k m]
      by (auto simp: word_less_nat_alt)
  next
    case False
    then have "x \<noteq> dst + of_nat k" if "k < n" for k
      using offset_eq_iff [of k x dst] that assms by auto
    then show ?thesis
      using False by (simp add: memmove_def move_down_outside move_up_outside)
  qed
  then show ?thesis by (simp add: write_bytes_def fun_eq_iff)
qed

section \<open>String lemmas\<close>

text \<open>The C string at a pointer, cut at \<open>n\<close> bytes: what \<open>strncmp\<close> compares.\<close>

definition cstring :: "cptr \<Rightarrow> nat \<Rightarrow> u8 list" where
  "cstring p n = takeWhile (\<lambda>c. c \<noteq> 0) (map p [0..<n])"

lemma strncmp_loop_zero:
  "strncmp_loop p q i n = 0 \<longleftrightarrow>
     takeWhile (\<lambda>c. c \<noteq> 0) (map p [i..<i + n]) = takeWhile (\<lambda>c. c \<noteq> 0) (map q [i..<i + n])"
proof (induction n arbitrary: i)
  case (Suc n)
  have "[i..<i + Suc n] = i # [Suc i..<Suc i + n]" by (simp add: upt_conv_Cons)
  moreover have "uint (p i) - uint (q i) = 0 \<longleftrightarrow> p i = q i" by (simp add: word_uint_eq_iff)
  ultimately show ?case using Suc [of "Suc i"] by auto
qed simp

lemma strncmp_zero_iff: "strncmp p q n = 0 \<longleftrightarrow> cstring p n = cstring q n"
  by (simp add: strncmp_def cstring_def strncmp_loop_zero)

lemma length_strncpy_pad [simp]: "length (strncpy_pad s i n) = length s"
  by (induction s i n rule: strncpy_pad.induct) auto

lemma length_strncpy_loop [simp]: "length (strncpy_loop s t i n) = length s"
  by (induction s t i n rule: strncpy_loop.induct) auto

lemma length_strncpy [simp]: "length (strncpy s t n) = length s"
  by (simp add: strncpy_def)

lemma nth_strncpy_pad:
  "j < length s \<Longrightarrow> strncpy_pad s i n ! j = (if i \<le> j \<and> j < i + n then 0 else s ! j)"
  by (induction s i n rule: strncpy_pad.induct) (auto simp: nth_list_update)

lemma nth_strncpy_loop:
  "j < length s \<Longrightarrow> strncpy_loop s t i n ! j =
     (if i \<le> j \<and> j < i + n then (if \<forall>k. i \<le> k \<and> k < j \<longrightarrow> t k \<noteq> 0 then t j else 0) else s ! j)"
proof (induction s t i n rule: strncpy_loop.induct)
  case (2 s t i n)
  show ?case
  proof (cases "t i = 0")
    case True
    then show ?thesis using 2
      by (cases "j = i") (auto simp: nth_strncpy_pad nth_list_update dest: le_neq_implies_less)
  next
    case False
    have "(\<forall>k. Suc i \<le> k \<and> k < j \<longrightarrow> t k \<noteq> 0) \<longleftrightarrow> (\<forall>k. i \<le> k \<and> k < j \<longrightarrow> t k \<noteq> 0)"
      using False by (auto simp: Suc_le_eq) (metis le_neq_implies_less)
    then show ?thesis using 2 False by (cases "j = i") (auto simp: nth_list_update)
  qed
qed auto

lemma nth_strncpy:
  "j < length s \<Longrightarrow> strncpy s t n ! j =
     (if j < n then (if \<forall>k < j. t k \<noteq> 0 then t j else 0) else s ! j)"
  by (simp add: strncpy_def nth_strncpy_loop)

text \<open>A name copied by \<open>strncpy\<close> compares equal to the original: the directory layer relies on it.\<close>

lemma takeWhile_map_upt_cong:
  assumes "\<And>j. j < n \<Longrightarrow> p j = (if \<forall>k < j. q k \<noteq> 0 then q j else 0)"
  shows "takeWhile (\<lambda>c. c \<noteq> 0) (map p [0..<n]) = takeWhile (\<lambda>c. c \<noteq> (0 :: u8)) (map q [0..<n])"
  using assms
proof (induction n)
  case (Suc n)
  have IH: "takeWhile (\<lambda>c. c \<noteq> 0) (map p [0..<n]) = takeWhile (\<lambda>c. c \<noteq> 0) (map q [0..<n])"
    using Suc by simp
  show ?case
  proof (cases "\<forall>k < n. q k \<noteq> 0")
    case True
    then have "map p [0..<Suc n] = map q [0..<Suc n]" using Suc.prems by auto
    then show ?thesis by (simp only:)
  next
    case False
    then obtain k where k: "k < n" "q k = 0" "\<forall>l < k. q l \<noteq> 0"
      using exists_least_iff [of "\<lambda>k. k < n \<and> q k = 0"] by (metis less_trans)
    then have "p k = 0" using Suc.prems [of k] by simp
    with k show ?thesis using IH by (auto simp: takeWhile_append)
  qed
qed simp

lemma strncmp_strncpy:
  assumes "n \<le> length s"
  shows "strncmp (at_buf (strncpy s t n)) t n = 0"
  unfolding strncmp_zero_iff cstring_def
  by (rule takeWhile_map_upt_cong) (use assms in \<open>simp add: at_buf_def nth_strncpy\<close>)

lemma length_safestrcpy_loop [simp]: "length (safestrcpy_loop s t i n) = length s"
  by (induction s t i n rule: safestrcpy_loop.induct) auto

lemma length_safestrcpy [simp]: "length (safestrcpy s t n) = length s"
  by (simp add: safestrcpy_def)

lemma safestrcpy_loop_nul:
  "i + n < length s \<Longrightarrow> \<exists>j. i \<le> j \<and> j \<le> i + n \<and> safestrcpy_loop s t i n ! j = 0"
proof (induction s t i n rule: safestrcpy_loop.induct)
  case (2 s t i n)
  show ?case
  proof (cases "t i = 0")
    case True
    then show ?thesis using 2 by (auto intro!: exI [of _ i] simp: nth_list_update)
  next
    case False
    then obtain j where "Suc i \<le> j" "j \<le> Suc i + n" "safestrcpy_loop (s[i := t i]) t (Suc i) n ! j = 0"
      using 2 by auto
    with False show ?thesis by (auto intro!: exI [of _ j])
  qed
qed auto

lemma strlen_loop_Some:
  "(\<forall>k. i \<le> k \<and> k < n \<longrightarrow> s k \<noteq> 0) \<Longrightarrow> s n = 0 \<Longrightarrow> i \<le> n \<Longrightarrow> strlen_loop s i = Some n"
proof (induction "n - i" arbitrary: i)
  case 0
  then show ?case by (simp add: strlen_loop.simps)
next
  case (Suc d)
  then have "s i \<noteq> 0" "strlen_loop s (Suc i) = Some n" by auto
  then show ?case by (simp add: strlen_loop.simps [of s i])
qed

lemma strlen_Some: "(\<forall>k < n. s k \<noteq> 0) \<Longrightarrow> s n = 0 \<Longrightarrow> strlen s = Some n"
  by (simp add: strlen_def strlen_loop_Some)

section \<open>Properties\<close>

text \<open>
  (C9) \<open>memmove\<close> copies the \<open>n\<close> bytes that were at the source before the call, whether the two
  ranges overlap or not and in whichever order they lie, and touches nothing else.
\<close>

theorem memmove_overlap:
  assumes "unat dst + n < 2 ^ 64" "unat src + n < 2 ^ 64"
  shows "read_bytes (memmove m dst src n) dst n = read_bytes m src n \<and>
    (\<forall>x. unat x < unat dst \<or> unat dst + n \<le> unat x \<longrightarrow> memmove m dst src n x = m x)"
proof -
  have "read_bytes (memmove m dst src n) dst n = read_bytes m src n"
    unfolding memmove_eq [OF assms] using read_write_bytes_same [of "read_bytes m src n" m dst] assms by simp
  moreover have "\<not> unat (x - dst) < n" if "unat x < unat dst \<or> unat dst + n \<le> unat x" for x
    using that assms(1) unat_u64_less [of x] by (auto simp: unat_word_ariths unat_sub_if' split: if_splits)
  ultimately show ?thesis unfolding memmove_eq [OF assms] by (simp add: write_bytes_def)
qed

theorem memmove_overlap_witness:
  "read_bytes (memmove (\<lambda>x. ucast x) 2 0 5) 2 5 = [0, 1, 2, 3, 4]"
proof -
  have "read_bytes (memmove (\<lambda>x. ucast x) 2 0 5) 2 5 = read_bytes (\<lambda>x. ucast x) 0 5"
    using memmove_overlap [of 2 5 0 "\<lambda>x. ucast x"] by simp
  also have "\<dots> = [0, 1, 2, 3, 4]" by code_simp
  finally show ?thesis .
qed

end
