(* ===== verification/Spinlock.thy ===== *)
theory Spinlock
  imports Kstring
begin

text \<open>
  Harts, interrupt masking and spin locks: \<^verbatim>\<open>kernel/spinlock.c\<close> with the parts of
  \<^verbatim>\<open>struct cpu\<close> (\<^verbatim>\<open>kernel/proc.h\<close>) and of the supervisor status register that it
  uses. The record \<open>machine\<close> is the root of the kernel state: the later components extend
  it, so that one state runs through every routine. All spin locks of the kernel live in one
  store, keyed by the object they are a field of.

  The first half gives every routine as a function on the state of the running hart. The
  second half splits \<open>acquire\<close> and \<open>release\<close> at their atomic memory accesses and lets any
  number of harts interleave; mutual exclusion and the accuracy of \<open>holding\<close> are invariants
  of that relation.
\<close>

section \<open>State\<close>

datatype lockid =
    L_kmem | L_ref | L_pid | L_wait | L_proc nat | L_tickslock | L_cons | L_pr | L_uart_tx
  | L_ftable | L_itable | L_bcache | L_log | L_vdisk | L_pipe u64
  | L_buf nat | L_inode nat

record cpu =
  noff :: int
  intena :: bool
  sie :: bool
  cproc :: "nat option"

record spinlock =
  locked :: bool
  lname :: string
  lcpu :: "nat option"

record machine =
  mem :: memory
  tp :: nat
  cpus :: "nat \<Rightarrow> cpu"
  locks :: "lockid \<Rightarrow> spinlock"

section \<open>Operations\<close>

definition cpuid :: "'a machine_scheme \<Rightarrow> nat" where
  "cpuid s = tp s"

definition mycpu :: "'a machine_scheme \<Rightarrow> cpu" where
  "mycpu s = cpus s (cpuid s)"

definition set_cpu :: "(cpu \<Rightarrow> cpu) \<Rightarrow> 'a machine_scheme \<Rightarrow> 'a machine_scheme" where
  "set_cpu f s = s\<lparr>cpus := (cpus s)(tp s := f (cpus s (tp s)))\<rparr>"

definition set_lock :: "lockid \<Rightarrow> (spinlock \<Rightarrow> spinlock) \<Rightarrow> 'a machine_scheme \<Rightarrow> 'a machine_scheme" where
  "set_lock l f s = s\<lparr>locks := (locks s)(l := f (locks s l))\<rparr>"

definition intr_get :: "'a machine_scheme \<Rightarrow> bool" where
  "intr_get s = sie (mycpu s)"

definition intr_on :: "'a machine_scheme \<Rightarrow> 'a machine_scheme" where
  "intr_on s = set_cpu (\<lambda>c. c\<lparr>sie := True\<rparr>) s"

definition intr_off :: "'a machine_scheme \<Rightarrow> 'a machine_scheme" where
  "intr_off s = set_cpu (\<lambda>c. c\<lparr>sie := False\<rparr>) s"

definition initlock :: "lockid \<Rightarrow> string \<Rightarrow> 'a machine_scheme \<Rightarrow> 'a machine_scheme" where
  "initlock l n s = set_lock l (\<lambda>_. \<lparr>locked = False, lname = n, lcpu = None\<rparr>) s"

definition holding :: "lockid \<Rightarrow> 'a machine_scheme \<Rightarrow> bool" where
  "holding l s \<longleftrightarrow> locked (locks s l) \<and> lcpu (locks s l) = Some (cpuid s)"

definition push_off :: "'a machine_scheme \<Rightarrow> 'a machine_scheme" where
  "push_off s =
     (let old = intr_get s;
          s = intr_off s;
          s = (if noff (mycpu s) = 0 then set_cpu (\<lambda>c. c\<lparr>intena := old\<rparr>) s else s)
      in set_cpu (\<lambda>c. c\<lparr>noff := noff c + 1\<rparr>) s)"

definition pop_off :: "'a machine_scheme \<Rightarrow> 'a machine_scheme res" where
  "pop_off s =
     (if intr_get s then Panic ''pop_off - interruptible''
      else if noff (mycpu s) < 1 then Panic ''pop_off''
      else let s = set_cpu (\<lambda>c. c\<lparr>noff := noff c - 1\<rparr>) s
           in Ok (if noff (mycpu s) = 0 \<and> intena (mycpu s) then intr_on s else s))"

text \<open>
  \<open>acquire\<close> in three pieces: disable interrupts and check for a recursive acquire; one
  atomic swap of the lock word, which reports the old value; record the holder. The loop
  around the swap repeats it while the old value is 1, so on a lock that stays held the
  call does not return.
\<close>

definition acquire_enter :: "lockid \<Rightarrow> 'a machine_scheme \<Rightarrow> 'a machine_scheme res" where
  "acquire_enter l s = (let s = push_off s in if holding l s then Panic ''acquire'' else Ok s)"

definition test_and_set :: "lockid \<Rightarrow> 'a machine_scheme \<Rightarrow> bool \<times> 'a machine_scheme" where
  "test_and_set l s = (locked (locks s l), set_lock l (\<lambda>k. k\<lparr>locked := True\<rparr>) s)"

definition acquire_record :: "lockid \<Rightarrow> 'a machine_scheme \<Rightarrow> 'a machine_scheme" where
  "acquire_record l s = set_lock l (\<lambda>k. k\<lparr>lcpu := Some (cpuid s)\<rparr>) s"

definition acquire :: "lockid \<Rightarrow> 'a machine_scheme \<Rightarrow> 'a machine_scheme res" where
  "acquire l s = bind_res (acquire_enter l s) (\<lambda>s.
     case test_and_set l s of (old, s) \<Rightarrow> if old then Spin else Ok (acquire_record l s))"

definition release_clear :: "lockid \<Rightarrow> 'a machine_scheme \<Rightarrow> 'a machine_scheme res" where
  "release_clear l s =
     (if \<not> holding l s then Panic ''release'' else Ok (set_lock l (\<lambda>k. k\<lparr>lcpu := None\<rparr>) s))"

definition lock_release :: "lockid \<Rightarrow> 'a machine_scheme \<Rightarrow> 'a machine_scheme" where
  "lock_release l s = set_lock l (\<lambda>k. k\<lparr>locked := False\<rparr>) s"

definition release :: "lockid \<Rightarrow> 'a machine_scheme \<Rightarrow> 'a machine_scheme res" where
  "release l s = bind_res (release_clear l s) (\<lambda>s. pop_off (lock_release l s))"

section \<open>Sequential facts\<close>

lemmas lock_defs =
  cpuid_def mycpu_def set_cpu_def set_lock_def intr_get_def intr_on_def intr_off_def holding_def
  push_off_def pop_off_def acquire_enter_def test_and_set_def acquire_record_def acquire_def
  release_clear_def lock_release_def release_def Let_def

text \<open>
  A lock is free when nobody holds it and no holder is recorded, as \<open>initlock\<close> and every
  \<open>release\<close> leave it.
\<close>

definition lock_free :: "lockid \<Rightarrow> 'a machine_scheme \<Rightarrow> bool" where
  "lock_free l s \<longleftrightarrow> \<not> locked (locks s l) \<and> lcpu (locks s l) = None"

text \<open>
  What one critical section leaves behind: the lock store is back as it was, and a hart that
  was not masked has its interrupt state noted in \<open>intena\<close>.
\<close>

definition masked_once :: "'a machine_scheme \<Rightarrow> 'a machine_scheme" where
  "masked_once s = (if noff (mycpu s) = 0 then set_cpu (\<lambda>c. c\<lparr>intena := sie c\<rparr>) s else s)"

definition enter_state :: "lockid \<Rightarrow> 'a machine_scheme \<Rightarrow> 'a machine_scheme" where
  "enter_state l s = acquire_record l (snd (test_and_set l (push_off s)))"

text \<open>A hart whose nesting depth is positive runs with interrupts off.\<close>

definition cpu_ok :: "'a machine_scheme \<Rightarrow> bool" where
  "cpu_ok s \<longleftrightarrow> 0 \<le> noff (mycpu s) \<and> (0 < noff (mycpu s) \<longrightarrow> \<not> sie (mycpu s))"

lemma acquire_free: "lock_free l s \<Longrightarrow> acquire l s = Ok (enter_state l s)"
  by (simp add: lock_free_def enter_state_def lock_defs)

lemma acquire_held_self_panics:
  "locked (locks s l) \<Longrightarrow> lcpu (locks s l) = Some (tp s) \<Longrightarrow> acquire l s = Panic ''acquire''"
  by (simp add: lock_defs)

lemma acquire_held_other_spins:
  "locked (locks s l) \<Longrightarrow> lcpu (locks s l) \<noteq> Some (tp s) \<Longrightarrow> acquire l s = Spin"
  by (simp add: lock_defs)

lemma release_not_held_panics: "\<not> holding l s \<Longrightarrow> release l s = Panic ''release''"
  by (simp add: release_def release_clear_def)

lemma machine_eqI:
  "mem s = mem t \<Longrightarrow> tp s = tp t \<Longrightarrow> cpus s = cpus t \<Longrightarrow> locks s = locks t \<Longrightarrow>
   machine.more s = machine.more t \<Longrightarrow> s = (t :: 'a machine_scheme)"
  by (cases s; cases t) simp

lemma enter_state_frame [simp]:
  "mem (enter_state l s) = mem s" "tp (enter_state l s) = tp s"
  "machine.more (enter_state l s) = machine.more s"
  by (simp_all add: enter_state_def lock_defs)

lemma masked_once_frame [simp]:
  "mem (masked_once s) = mem s" "tp (masked_once s) = tp s" "locks (masked_once s) = locks s"
  "machine.more (masked_once s) = machine.more s"
  by (simp_all add: masked_once_def lock_defs)

lemma masked_once_idem [simp]: "masked_once (masked_once s) = masked_once s"
  by (simp add: masked_once_def lock_defs)

lemma masked_once_sie [simp]: "sie (mycpu (masked_once s)) = sie (mycpu s)"
  "noff (mycpu (masked_once s)) = noff (mycpu s)"
  by (simp_all add: masked_once_def lock_defs)

lemma release_enter:
  assumes "lock_free l s" "cpu_ok s"
    and "locks t = locks (enter_state l s)" "cpus t = cpus (enter_state l s)" "tp t = tp s"
  shows "release l t = Ok (t\<lparr>cpus := cpus (masked_once s), locks := locks s\<rparr>)"
  using assms
  by (auto simp: enter_state_def masked_once_def lock_free_def cpu_ok_def lock_defs fun_eq_iff
      intro!: machine_eqI)

lemma acquire_release:
  "lock_free l s \<Longrightarrow> cpu_ok s \<Longrightarrow> bind_res (acquire l s) (release l) = Ok (masked_once s)"
  by (simp add: acquire_free release_enter machine_eqI)

text \<open>
  A critical section whose body \<open>f\<close> touches neither locks nor harts acts as \<open>f\<close> on the
  state before it.
\<close>

lemma enter_state_upd: "enter_state l s = s\<lparr>cpus := cpus (enter_state l s), locks := locks (enter_state l s)\<rparr>"
  by (rule machine_eqI) simp_all

lemma masked_once_upd: "masked_once s = s\<lparr>cpus := cpus (masked_once s), locks := locks s\<rparr>"
  by (rule machine_eqI) simp_all

lemma critical_section:
  fixes f :: "'a machine_scheme \<Rightarrow> 'a machine_scheme"
  assumes "lock_free l s" "cpu_ok s"
    and comm: "\<And>t c k. f (t\<lparr>cpus := c, locks := k\<rparr>) = (f t)\<lparr>cpus := c, locks := k\<rparr>"
    and tp: "\<And>t. tp (f t) = tp t"
  shows "release l (f (enter_state l s)) = Ok (f (masked_once s))"
proof -
  let ?e = "enter_state l s"
  have fe: "f ?e = (f s)\<lparr>cpus := cpus ?e, locks := locks ?e\<rparr>"
    by (subst enter_state_upd) (rule comm)
  have fm: "f (masked_once s) = (f s)\<lparr>cpus := cpus (masked_once s), locks := locks s\<rparr>"
    by (subst masked_once_upd) (rule comm)
  have "release l (f ?e) = Ok ((f ?e)\<lparr>cpus := cpus (masked_once s), locks := locks s\<rparr>)"
    by (rule release_enter [OF assms(1,2)]) (simp_all add: fe tp)
  then show ?thesis by (simp add: fe fm)
qed

text \<open>
  The relation between the state before and after a kernel call as far as locks and harts
  are concerned: no lock changed hands and interrupts are masked as before.
\<close>

definition lock_ctx :: "'a machine_scheme \<Rightarrow> 'b machine_scheme \<Rightarrow> bool" where
  "lock_ctx s t \<longleftrightarrow> tp t = tp s \<and> locks t = locks s \<and>
     (cpus t = cpus s \<or> cpus t = cpus (masked_once s))"

lemma lock_ctx_refl [simp, intro]: "lock_ctx s s"
  by (simp add: lock_ctx_def)

lemma cpus_masked_cong: "tp t = tp s \<Longrightarrow> cpus t = cpus s \<Longrightarrow> cpus (masked_once t) = cpus (masked_once s)"
  by (simp add: masked_once_def lock_defs)

lemma cpus_masked_masked:
  "tp t = tp s \<Longrightarrow> cpus t = cpus (masked_once s) \<Longrightarrow> cpus (masked_once t) = cpus (masked_once s)"
  by (simp add: masked_once_def lock_defs)

lemma lock_ctx_cong:
  "tp s = tp u \<Longrightarrow> locks s = locks u \<Longrightarrow> cpus s = cpus u \<Longrightarrow> lock_ctx s t = lock_ctx u t"
  unfolding lock_ctx_def by (metis cpus_masked_cong)

lemma lock_ctx_trans: "lock_ctx s t \<Longrightarrow> lock_ctx t u \<Longrightarrow> lock_ctx s u"
  unfolding lock_ctx_def by (metis cpus_masked_cong cpus_masked_masked)

lemma lock_ctx_free: "lock_ctx s t \<Longrightarrow> lock_free l t = lock_free l s"
  by (simp add: lock_ctx_def lock_free_def)

lemma lock_ctx_cpu_ok: "lock_ctx s t \<Longrightarrow> cpu_ok t = cpu_ok s"
proof -
  assume "lock_ctx s t"
  then have "mycpu t = mycpu s \<or> mycpu t = mycpu (masked_once s)"
    by (auto simp: lock_ctx_def mycpu_def cpuid_def)
  then show ?thesis by (auto simp: cpu_ok_def)
qed

section \<open>Nesting of interrupt masking\<close>

text \<open>
  \<open>n\<close> calls of \<open>push_off\<close> followed by \<open>n\<close> of \<open>pop_off\<close> put the interrupt flag back:
  interrupts come on again only at the outermost \<open>pop_off\<close>, and only if they were on
  before the outermost \<open>push_off\<close>.
\<close>

fun pops :: "nat \<Rightarrow> 'a machine_scheme \<Rightarrow> 'a machine_scheme res" where
  "pops 0 s = Ok s"
| "pops (Suc n) s = bind_res (pop_off s) (pops n)"

definition nested :: "'a machine_scheme \<Rightarrow> nat \<Rightarrow> 'a machine_scheme" where
  "nested s n = set_cpu (\<lambda>c. c\<lparr>noff := noff c + int n, sie := False\<rparr>) (masked_once s)"

lemma push_off_nested: "cpu_ok s \<Longrightarrow> push_off s = nested s 1"
  by (auto simp: nested_def masked_once_def cpu_ok_def lock_defs fun_eq_iff intro!: machine_eqI)

lemma push_off_nested_Suc: "cpu_ok s \<Longrightarrow> push_off (nested s (Suc n)) = nested s (Suc (Suc n))"
  by (auto simp: nested_def masked_once_def cpu_ok_def lock_defs fun_eq_iff intro!: machine_eqI)

lemma pop_off_nested_Suc:
  "cpu_ok s \<Longrightarrow> pop_off (nested s (Suc (Suc n))) = Ok (nested s (Suc n))"
  by (auto simp: nested_def masked_once_def cpu_ok_def lock_defs fun_eq_iff intro!: machine_eqI)

lemma pop_off_nested_1: "cpu_ok s \<Longrightarrow> pop_off (nested s (Suc 0)) = Ok (masked_once s)"
  by (auto simp: nested_def masked_once_def cpu_ok_def lock_defs fun_eq_iff intro!: machine_eqI)

lemma pushes_nested: "cpu_ok s \<Longrightarrow> (push_off ^^ Suc n) s = nested s (Suc n)"
  by (induction n) (simp_all add: push_off_nested push_off_nested_Suc)

lemma pops_nested: "cpu_ok s \<Longrightarrow> pops (Suc n) (nested s (Suc n)) = Ok (masked_once s)"
  by (induction n) (simp_all add: pop_off_nested_1 pop_off_nested_Suc)

lemma pops_pushes: "cpu_ok s \<Longrightarrow> pops (Suc n) ((push_off ^^ Suc n) s) = Ok (masked_once s)"
  by (simp only: pushes_nested pops_nested)

section \<open>Interleaving of harts\<close>

datatype pc = Running | Spinning lockid | Won lockid | Releasing lockid

record smp =
  mach :: machine
  pcs :: "nat \<Rightarrow> pc"
  held :: "nat \<Rightarrow> lockid set"

abbreviation on_hart :: "nat \<Rightarrow> smp \<Rightarrow> machine" where
  "on_hart i t \<equiv> (mach t)\<lparr>tp := i\<rparr>"

inductive smp_step :: "smp \<Rightarrow> smp \<Rightarrow> bool" where
  enter: "pcs t i = Running \<Longrightarrow> acquire_enter l (on_hart i t) = Ok m \<Longrightarrow>
    smp_step t (t\<lparr>mach := m, pcs := (pcs t)(i := Spinning l)\<rparr>)"
| spin: "pcs t i = Spinning l \<Longrightarrow> test_and_set l (on_hart i t) = (True, m) \<Longrightarrow>
    smp_step t (t\<lparr>mach := m\<rparr>)"
| win: "pcs t i = Spinning l \<Longrightarrow> test_and_set l (on_hart i t) = (False, m) \<Longrightarrow>
    smp_step t (t\<lparr>mach := m, pcs := (pcs t)(i := Won l)\<rparr>)"
| record_cpu: "pcs t i = Won l \<Longrightarrow>
    smp_step t (t\<lparr>mach := acquire_record l (on_hart i t), pcs := (pcs t)(i := Running),
      held := (held t)(i := insert l (held t i))\<rparr>)"
| clear_cpu: "pcs t i = Running \<Longrightarrow> release_clear l (on_hart i t) = Ok m \<Longrightarrow>
    smp_step t (t\<lparr>mach := m, pcs := (pcs t)(i := Releasing l),
      held := (held t)(i := held t i - {l})\<rparr>)"
| unlock: "pcs t i = Releasing l \<Longrightarrow> pop_off (lock_release l (on_hart i t)) = Ok m \<Longrightarrow>
    smp_step t (t\<lparr>mach := m, pcs := (pcs t)(i := Running)\<rparr>)"

definition smp_init :: "machine \<Rightarrow> smp" where
  "smp_init m = \<lparr>mach = m, pcs = (\<lambda>_. Running), held = (\<lambda>_. {})\<rparr>"

inductive smp_reachable :: "machine \<Rightarrow> smp \<Rightarrow> bool" for m where
  start: "(\<And>l. lock_free l m) \<Longrightarrow> smp_reachable m (smp_init m)"
| step: "smp_reachable m t \<Longrightarrow> smp_step t u \<Longrightarrow> smp_reachable m u"

text \<open>A hart owns a lock from its successful swap to the store that frees the lock word.\<close>

definition owns :: "smp \<Rightarrow> nat \<Rightarrow> lockid \<Rightarrow> bool" where
  "owns t i l \<longleftrightarrow> l \<in> held t i \<or> pcs t i = Won l \<or> pcs t i = Releasing l"

definition smp_inv :: "smp \<Rightarrow> bool" where
  "smp_inv t \<longleftrightarrow>
     (\<forall>l. locked (locks (mach t) l) \<longleftrightarrow> (\<exists>i. owns t i l)) \<and>
     (\<forall>i j l. owns t i l \<longrightarrow> owns t j l \<longrightarrow> i = j) \<and>
     (\<forall>i l. lcpu (locks (mach t) l) = Some i \<longleftrightarrow> l \<in> held t i) \<and>
     (\<forall>i l. pcs t i \<in> {Spinning l, Won l, Releasing l} \<longrightarrow> l \<notin> held t i)"

lemma push_off_locks [simp]: "locks (push_off s) = locks s"
  by (simp add: lock_defs)

lemma pop_off_locks: "pop_off s = Ok t \<Longrightarrow> locks t = locks s"
  by (auto simp: lock_defs split: if_splits)

lemma smp_inv_init: "(\<And>l. lock_free l m) \<Longrightarrow> smp_inv (smp_init m)"
  by (auto simp: smp_inv_def smp_init_def owns_def lock_free_def)

text \<open>Each step in terms of the lock store, the program counters and the held sets.\<close>

lemma smp_step_effect:
  assumes "smp_step t u"
  obtains i l where
    "pcs t i = Running" "\<not> (locked (locks (mach t) l) \<and> lcpu (locks (mach t) l) = Some i)"
    "locks (mach u) = locks (mach t)" "pcs u = (pcs t)(i := Spinning l)" "held u = held t"
  | i l where
    "pcs t i = Spinning l" "locked (locks (mach t) l)"
    "locks (mach u) = locks (mach t)" "pcs u = pcs t" "held u = held t"
  | i l where
    "pcs t i = Spinning l" "\<not> locked (locks (mach t) l)"
    "locks (mach u) = (locks (mach t))(l := (locks (mach t) l)\<lparr>locked := True\<rparr>)"
    "pcs u = (pcs t)(i := Won l)" "held u = held t"
  | i l where
    "pcs t i = Won l"
    "locks (mach u) = (locks (mach t))(l := (locks (mach t) l)\<lparr>lcpu := Some i\<rparr>)"
    "pcs u = (pcs t)(i := Running)" "held u = (held t)(i := insert l (held t i))"
  | i l where
    "pcs t i = Running" "locked (locks (mach t) l)" "lcpu (locks (mach t) l) = Some i"
    "locks (mach u) = (locks (mach t))(l := (locks (mach t) l)\<lparr>lcpu := None\<rparr>)"
    "pcs u = (pcs t)(i := Releasing l)" "held u = (held t)(i := held t i - {l})"
  | i l where
    "pcs t i = Releasing l"
    "locks (mach u) = (locks (mach t))(l := (locks (mach t) l)\<lparr>locked := False\<rparr>)"
    "pcs u = (pcs t)(i := Running)" "held u = held t"
  using assms
proof cases
  case (enter i l m)
  then show ?thesis
    by (intro that(1) [of i l]) (auto simp: acquire_enter_def Let_def holding_def cpuid_def
        push_off_def set_cpu_def intr_off_def split: if_splits)
next
  case (spin i l m)
  then show ?thesis
    by (intro that(2) [of i l]) (auto simp: test_and_set_def set_lock_def fun_eq_iff)
next
  case (win i l m)
  then show ?thesis by (intro that(3) [of i l]) (auto simp: test_and_set_def set_lock_def)
next
  case (record_cpu i l)
  then show ?thesis by (intro that(4) [of i l]) (auto simp: acquire_record_def set_lock_def cpuid_def)
next
  case (clear_cpu i l m)
  then show ?thesis
    by (intro that(5) [of i l]) (auto simp: release_clear_def holding_def set_lock_def cpuid_def
        split: if_splits)
next
  case (unlock i l m)
  then show ?thesis
    by (intro that(6) [of i l]) (auto simp: lock_release_def set_lock_def dest: pop_off_locks)
qed

lemma smp_inv_D:
  assumes "smp_inv t"
  shows "locked (locks (mach t) l) \<longleftrightarrow> (\<exists>i. owns t i l)" "owns t i l \<Longrightarrow> owns t j l \<Longrightarrow> i = j"
    "lcpu (locks (mach t) l) = Some i \<longleftrightarrow> l \<in> held t i"
    "pcs t i \<in> {Spinning l, Won l, Releasing l} \<Longrightarrow> l \<notin> held t i"
  using assms unfolding smp_inv_def by blast+

lemma smp_invI:
  assumes "\<And>l. locked (locks (mach t) l) \<longleftrightarrow> (\<exists>i. owns t i l)"
    and "\<And>i j l. owns t i l \<Longrightarrow> owns t j l \<Longrightarrow> i = j"
    and "\<And>i l. lcpu (locks (mach t) l) = Some i \<longleftrightarrow> l \<in> held t i"
    and "\<And>i l. pcs t i \<in> {Spinning l, Won l, Releasing l} \<Longrightarrow> l \<notin> held t i"
  shows "smp_inv t"
  using assms unfolding smp_inv_def by blast

lemma smp_step_inv:
  assumes "smp_step t u" and inv: "smp_inv t"
  shows "smp_inv u"
  using assms(1)
proof (cases rule: smp_step_effect)
  case (1 i l)
  have own: "owns u = owns t" using 1 by (auto simp: owns_def fun_eq_iff)
  have "l \<notin> held t i" using 1(2) smp_inv_D(1,3) [OF inv] by (auto simp: owns_def)
  then have "pcs u j \<in> {Spinning k, Won k, Releasing k} \<Longrightarrow> k \<notin> held u j" for j k
    using smp_inv_D(4) [OF inv, of j k] 1 by (cases "j = i") auto
  then show ?thesis using smp_inv_D(1-3) [OF inv] 1 by (intro smp_invI) (simp_all add: own)
next
  case (2 i l)
  then have "owns u = owns t" by (simp add: owns_def fun_eq_iff)
  then show ?thesis using smp_inv_D [OF inv] 2 by (intro smp_invI) simp_all
next
  case (3 i l)
  have own: "owns u j k \<longleftrightarrow> owns t j k \<or> j = i \<and> k = l" for j k using 3 by (auto simp: owns_def)
  have free: "\<not> owns t j l" for j using 3(2) smp_inv_D(1) [OF inv] by blast
  have "l \<notin> held t i" using smp_inv_D(4) [OF inv, of i l] 3(1) by simp
  then have "pcs u j \<in> {Spinning k, Won k, Releasing k} \<Longrightarrow> k \<notin> held u j" for j k
    using smp_inv_D(4) [OF inv, of j k] 3 by (cases "j = i") auto
  moreover have "owns u j k \<Longrightarrow> owns u j' k \<Longrightarrow> j = j'" for j j' k
    using smp_inv_D(2) [OF inv, of j k j'] free unfolding own by blast
  moreover have "locked (locks (mach u) k) \<longleftrightarrow> (\<exists>j. owns u j k)" for k
    using smp_inv_D(1) [OF inv, of k] 3(3) unfolding own by auto
  moreover have "lcpu (locks (mach u) k) = Some j \<longleftrightarrow> k \<in> held u j" for j k
    using smp_inv_D(3) [OF inv, of k j] 3(3,5) by auto
  ultimately show ?thesis by (intro smp_invI)
next
  case (4 i l)
  have own: "owns u = owns t" using 4 by (auto simp: owns_def fun_eq_iff)
  have only: "l \<in> held t j \<Longrightarrow> j = i" for j
    using 4(1) smp_inv_D(2) [OF inv, of j l i] by (simp add: owns_def)
  have "pcs u j \<in> {Spinning k, Won k, Releasing k} \<Longrightarrow> k \<notin> held u j" for j k
    using smp_inv_D(4) [OF inv, of j k] 4 by (cases "j = i") auto
  moreover have "lcpu (locks (mach u) k) = Some j \<longleftrightarrow> k \<in> held u j" for j k
    using smp_inv_D(3) [OF inv, of k j] only [of j] 4(2,4) by auto
  moreover have "locked (locks (mach u) k) = locked (locks (mach t) k)" for k using 4(2) by simp
  ultimately show ?thesis using smp_inv_D(1,2) [OF inv] by (intro smp_invI) (simp_all add: own)
next
  case (5 i l)
  have h: "l \<in> held t i" using 5(3) smp_inv_D(3) [OF inv] by blast
  have own: "owns u = owns t" using 5 h by (auto simp: owns_def fun_eq_iff)
  have only: "l \<in> held t j \<Longrightarrow> j = i" for j
    using h smp_inv_D(2) [OF inv, of j l i] by (simp add: owns_def)
  have "pcs u j \<in> {Spinning k, Won k, Releasing k} \<Longrightarrow> k \<notin> held u j" for j k
    using smp_inv_D(4) [OF inv, of j k] 5 by (cases "j = i") auto
  moreover have "lcpu (locks (mach u) k) = Some j \<longleftrightarrow> k \<in> held u j" for j k
    using smp_inv_D(3) [OF inv, of k j] only [of j] 5(4,6) by auto
  moreover have "locked (locks (mach u) k) = locked (locks (mach t) k)" for k using 5(4) by simp
  ultimately show ?thesis using smp_inv_D(1,2) [OF inv] by (intro smp_invI) (simp_all add: own)
next
  case (6 i l)
  have h: "l \<notin> held t i" using smp_inv_D(4) [OF inv, of i l] 6(1) by simp
  then have own: "owns u j k \<longleftrightarrow> owns t j k \<and> \<not> (j = i \<and> k = l)" for j k
    using 6 by (auto simp: owns_def)
  have only: "owns t j l \<Longrightarrow> j = i" for j
    using 6(1) smp_inv_D(2) [OF inv, of j l i] by (simp add: owns_def)
  have "pcs u j \<in> {Spinning k, Won k, Releasing k} \<Longrightarrow> k \<notin> held u j" for j k
    using smp_inv_D(4) [OF inv, of j k] 6 by (cases "j = i") auto
  moreover have "owns u j k \<Longrightarrow> owns u j' k \<Longrightarrow> j = j'" for j j' k
    using smp_inv_D(2) [OF inv, of j k j'] unfolding own by blast
  moreover have "locked (locks (mach u) k) \<longleftrightarrow> (\<exists>j. owns u j k)" for k
    using smp_inv_D(1) [OF inv, of k] only 6(2) unfolding own by auto
  moreover have "lcpu (locks (mach u) k) = Some j \<longleftrightarrow> k \<in> held u j" for j k
    using smp_inv_D(3) [OF inv, of k j] 6(2,4) by auto
  ultimately show ?thesis by (intro smp_invI)
qed

lemma smp_reachable_inv: "smp_reachable m t \<Longrightarrow> smp_inv t"
  by (induction rule: smp_reachable.induct) (auto intro: smp_inv_init smp_step_inv)

text \<open>
  (C7) Mutual exclusion. However the steps of \<open>acquire\<close> and \<open>release\<close> of any number of harts
  interleave, no two harts own the same lock at once, and \<open>holding\<close> answers yes exactly on the
  hart that has completed an \<open>acquire\<close> of the lock and not begun to release it.
\<close>

theorem spinlock_mutex:
  assumes "smp_reachable m t"
  shows "(owns t i l \<and> owns t j l \<longrightarrow> i = j) \<and> (holding l (on_hart i t) \<longleftrightarrow> l \<in> held t i)"
  using smp_inv_D(1-3) [OF smp_reachable_inv [OF assms], where l = l]
  by (auto simp: holding_def cpuid_def owns_def)

definition idle_machine :: machine where
  "idle_machine = \<lparr>mem = (\<lambda>_. 0), tp = 0, cpus = (\<lambda>_. \<lparr>noff = 0, intena = False, sie = True, cproc = None\<rparr>),
     locks = (\<lambda>_. \<lparr>locked = False, lname = [], lcpu = None\<rparr>)\<rparr>"

lemma hart_acquires:
  "\<exists>t. smp_reachable idle_machine t \<and> L_kmem \<in> held t 1"
proof -
  let ?t0 = "smp_init idle_machine"
  have r0: "smp_reachable idle_machine ?t0"
    by (rule smp_reachable.start) (simp add: idle_machine_def lock_free_def)
  let ?m1 = "push_off (on_hart 1 ?t0)"
  let ?t1 = "?t0\<lparr>mach := ?m1, pcs := (pcs ?t0)(1 := Spinning L_kmem)\<rparr>"
  have s1: "smp_step ?t0 ?t1"
    by (rule smp_step.enter) (simp_all add: smp_init_def idle_machine_def lock_defs)
  let ?m2 = "snd (test_and_set L_kmem (on_hart 1 ?t1))"
  let ?t2 = "?t1\<lparr>mach := ?m2, pcs := (pcs ?t1)(1 := Won L_kmem)\<rparr>"
  have s2: "smp_step ?t1 ?t2"
    by (rule smp_step.win) (simp_all add: smp_init_def idle_machine_def lock_defs)
  let ?t3 = "?t2\<lparr>mach := acquire_record L_kmem (on_hart 1 ?t2), pcs := (pcs ?t2)(1 := Running),
      held := (held ?t2)(1 := insert L_kmem (held ?t2 1))\<rparr>"
  have s3: "smp_step ?t2 ?t3" by (rule smp_step.record_cpu) simp
  have "smp_reachable idle_machine ?t3"
    by (rule smp_reachable.step [OF smp_reachable.step [OF smp_reachable.step [OF r0 s1] s2] s3])
  moreover have "L_kmem \<in> held ?t3 1" by simp
  ultimately show ?thesis by blast
qed

theorem spinlock_mutex_witness:
  "\<exists>t. smp_reachable idle_machine t \<and> holding L_kmem (on_hart 1 t) \<and> \<not> holding L_kmem (on_hart 0 t)"
proof -
  obtain t where t: "smp_reachable idle_machine t" "L_kmem \<in> held t 1" using hart_acquires by blast
  have "L_kmem \<notin> held t 0"
    using spinlock_mutex [OF t(1), of 0 L_kmem 1] t(2) by (auto simp: owns_def)
  then show ?thesis using t spinlock_mutex [OF t(1), of 1 L_kmem 1] spinlock_mutex [OF t(1), of 0 L_kmem 0] by blast
qed



end
