(* ===== verification/Kalloc.thy ===== *)
theory Kalloc
  imports Spinlock
begin

text \<open>
  The physical page allocator with reference counts, \<^verbatim>\<open>kernel/kalloc.c\<close>. Free pages form a
  list linked through their own first eight bytes; every page of the managed range has a
  counter of the mappings that share it, which \<open>kfree\<close> decrements. The counters are the
  array that \<open>kinit\<close> places at the linker symbol \<^verbatim>\<open>end\<close>; they are a field of the state, and
  the layout lemmas at the end of this theory show that the array does not overlap any page
  that the allocator hands out.
\<close>

section \<open>State\<close>

record kmem = machine +
  freelist :: u64
  ref_count :: "u64 \<Rightarrow> u32"
  kend :: u64

section \<open>Operations\<close>

definition INDEX :: "'a kmem_scheme \<Rightarrow> u64 \<Rightarrow> u64" where
  "INDEX s pa = signed_drop_bit 12 (pa - PGROUNDUP (kend s))"

definition set_ref :: "u64 \<Rightarrow> u32 \<Rightarrow> 'a kmem_scheme \<Rightarrow> 'a kmem_scheme" where
  "set_ref i v s = s\<lparr>ref_count := (ref_count s)(i := v)\<rparr>"

definition kfree :: "u64 \<Rightarrow> 'a kmem_scheme \<Rightarrow> 'a kmem_scheme res" where
  "kfree pa s =
     (if pa mod PGSIZE \<noteq> 0 \<or> pa < kend s \<or> pa \<ge> PHYSTOP then Panic ''kfree''
      else bind_res (acquire L_kmem s) (\<lambda>s.
        let s = set_ref (INDEX s pa) (ref_count s (INDEX s pa) - 1) s in
        if ref_count s (INDEX s pa) \<noteq> 0 then release L_kmem s
        else bind_res (release L_kmem s) (\<lambda>s.
          let s = s\<lparr>mem := memset (mem s) pa 1 (unat PGSIZE)\<rparr> in
          bind_res (acquire L_kmem s) (\<lambda>s.
            let s = s\<lparr>mem := store64 (mem s) pa (freelist s)\<rparr>;
                s = s\<lparr>freelist := pa\<rparr>
            in release L_kmem s))))"

definition kalloc :: "'a kmem_scheme \<Rightarrow> (u64 \<times> 'a kmem_scheme) res" where
  "kalloc s =
     bind_res (acquire L_kmem s) (\<lambda>s.
       let r = freelist s;
           s = (if r \<noteq> 0
                then set_ref (INDEX s r) 1 (s\<lparr>freelist := load64 (mem s) r\<rparr>)
                else s)
       in bind_res (release L_kmem s) (\<lambda>s.
         Ok (r, if r \<noteq> 0 then s\<lparr>mem := memset (mem s) r 5 (unat PGSIZE)\<rparr> else s)))"

definition get_kmem_ref :: "u64 \<Rightarrow> 'a kmem_scheme \<Rightarrow> u32" where
  "get_kmem_ref pa s = ref_count s (INDEX s pa)"

definition add_kmem_ref :: "u64 \<Rightarrow> 'a kmem_scheme \<Rightarrow> 'a kmem_scheme" where
  "add_kmem_ref pa s = set_ref (INDEX s pa) (ref_count s (INDEX s pa) + 1) s"

definition acquire_ref_lock :: "'a kmem_scheme \<Rightarrow> 'a kmem_scheme res" where
  "acquire_ref_lock s = acquire L_ref s"

definition release_ref_lock :: "'a kmem_scheme \<Rightarrow> 'a kmem_scheme res" where
  "release_ref_lock s = release L_ref s"

text \<open>
  The loop of \<open>freerange\<close> frees one page per iteration. It ends because \<open>kfree\<close> panics at
  \<open>PHYSTOP\<close>, whatever \<open>pa_end\<close> is.
\<close>

lemma kfree_Ok_less: "kfree pa s = Ok t \<Longrightarrow> unat pa < unat PHYSTOP"
  by (auto simp: kfree_def word_le_nat_alt not_le split: if_splits)

function freerange_loop :: "u64 \<Rightarrow> u64 \<Rightarrow> 'a kmem_scheme \<Rightarrow> 'a kmem_scheme res" where
  "freerange_loop p pa_end s =
     (if p + PGSIZE \<le> pa_end
      then bind_res (kfree p (set_ref (INDEX s p) 1 s)) (freerange_loop (p + PGSIZE) pa_end)
      else Ok s)"
  by pat_completeness auto
termination
proof (relation "measure (\<lambda>(p, _, _). unat PHYSTOP - unat p)")
  fix p pa_end :: u64 and s t :: "'a kmem_scheme"
  assume "kfree p (set_ref (INDEX s p) 1 s) = Ok t"
  then have "unat p < unat PHYSTOP" by (rule kfree_Ok_less)
  moreover have "unat (p + PGSIZE) = unat p + 4096"
    using calculation by (simp add: riscv_consts unat_word_ariths)
  ultimately show "((p + PGSIZE, pa_end, t), p, pa_end, s) \<in> measure (\<lambda>(p, _, _). unat PHYSTOP - unat p)"
    by simp
qed simp

declare freerange_loop.simps [simp del]

definition freerange :: "u64 \<Rightarrow> u64 \<Rightarrow> 'a kmem_scheme \<Rightarrow> 'a kmem_scheme res" where
  "freerange pa_start pa_end s = freerange_loop (PGROUNDUP pa_start) pa_end s"

text \<open>The number of bytes that \<open>kinit\<close> sets aside for the counters.\<close>

definition ref_space :: "u64 \<Rightarrow> u64" where
  "ref_space e =
     (let physical_pages = drop_bit 12 (PHYSTOP - e) + 1;
          physical_pages = drop_bit 12 (physical_pages * 4) + 1
      in push_bit 12 physical_pages)"

definition kinit :: "'a kmem_scheme \<Rightarrow> 'a kmem_scheme res" where
  "kinit s =
     (let s = initlock L_kmem ''kmem'' s;
          s = initlock L_ref ''ref'' s
      in freerange (kend s + ref_space (kend s)) PHYSTOP s)"

section \<open>Invariant\<close>

text \<open>The linked list of free pages.\<close>

fun flist :: "memory \<Rightarrow> u64 \<Rightarrow> u64 list \<Rightarrow> bool" where
  "flist m p [] \<longleftrightarrow> p = 0"
| "flist m p (x # xs) \<longleftrightarrow> p = x \<and> x \<noteq> 0 \<and> flist m (load64 m x) xs"

definition kend_ok :: "'a kmem_scheme \<Rightarrow> bool" where
  "kend_ok s \<longleftrightarrow> KERNBASE \<le> kend s \<and> kend s \<le> PHYSTOP"

text \<open>The pages \<open>kfree\<close> accepts.\<close>

definition kpage :: "'a kmem_scheme \<Rightarrow> u64 \<Rightarrow> bool" where
  "kpage s p \<longleftrightarrow> aligned p \<and> kend s \<le> p \<and> p < PHYSTOP"

definition kmem_inv :: "'a kmem_scheme \<Rightarrow> u64 list \<Rightarrow> bool" where
  "kmem_inv s xs \<longleftrightarrow> kend_ok s \<and> flist (mem s) (freelist s) xs \<and> distinct xs \<and>
     (\<forall>x \<in> set xs. kpage s x \<and> get_kmem_ref x s = 0)"

definition kmem_ready :: "'a kmem_scheme \<Rightarrow> bool" where
  "kmem_ready s \<longleftrightarrow> lock_free L_kmem s \<and> cpu_ok s"

section \<open>Indices\<close>

lemma signed_drop_bit_nonneg: "unat (w :: u64) < 2 ^ 63 \<Longrightarrow> signed_drop_bit n w = drop_bit n w"
proof -
  assume "unat w < 2 ^ 63"
  then have "\<not> bit (unat w) 63" by (simp add: bit_iff_odd)
  then have "\<not> bit w 63" by (simp add: bit_unsigned_iff)
  then show ?thesis
    by (intro bit_word_eqI) (auto simp: bit_signed_drop_bit_iff bit_drop_bit_eq dest: bit_imp_le_length)
qed

lemma kpage_bounds:
  assumes "kend_ok s" "kpage s p"
  shows "2147483648 \<le> unat p" "unat p < 2281701376" "aligned p" "p \<noteq> 0" "kend s \<le> p"
  using assms by (auto simp: kend_ok_def kpage_def riscv_consts word_le_nat_alt word_less_nat_alt)

lemma unat_PGROUNDUP_kend:
  assumes "kend_ok s"
  shows "unat (PGROUNDUP (kend s)) = (unat (kend s) + 4095) div 4096 * 4096"
  using assms by (intro unat_PGROUNDUP) (simp add: kend_ok_def riscv_consts word_le_nat_alt)

lemma kpage_ge_roundup:
  assumes "kend_ok s" "kpage s p"
  shows "unat (PGROUNDUP (kend s)) \<le> unat p"
proof -
  have "unat (kend s) \<le> unat p" using assms by (simp add: kpage_def word_le_nat_alt)
  moreover have "unat p = pgno p * 4096" using assms by (simp add: kpage_def aligned_unat)
  ultimately have "unat (kend s) + 4095 < Suc (pgno p) * 4096" by simp
  then have "(unat (kend s) + 4095) div 4096 < Suc (pgno p)" by (rule less_mult_imp_div_less)
  then show ?thesis
    unfolding unat_PGROUNDUP_kend [OF assms(1)] \<open>unat p = pgno p * 4096\<close> by simp
qed

lemma unat_INDEX:
  assumes "kend_ok s" "kpage s p"
  shows "unat (INDEX s p) = pgno p - pgno (PGROUNDUP (kend s))"
proof -
  let ?e = "PGROUNDUP (kend s)"
  have le: "unat ?e \<le> unat p" by (rule kpage_ge_roundup [OF assms])
  then have sub: "unat (p - ?e) = unat p - unat ?e" by (simp add: unat_sub_if')
  then have "unat (p - ?e) < 2 ^ 63" using kpage_bounds(2) [OF assms] by simp
  then have "unat (INDEX s p) = unat (p - ?e) div 4096"
    by (simp add: INDEX_def signed_drop_bit_nonneg unat_drop_bit_eq drop_bit_nat_def)
  also have "\<dots> = (pgno p * 4096 - pgno ?e * 4096) div 4096"
    using assms sub by (simp add: kpage_def aligned_unat)
  also have "\<dots> = pgno p - pgno ?e" by (simp flip: diff_mult_distrib)
  finally show ?thesis .
qed

lemma INDEX_inj:
  assumes "kend_ok s" "kpage s p" "kpage s q"
  shows "INDEX s p = INDEX s q \<longleftrightarrow> p = q"
proof
  assume "INDEX s p = INDEX s q"
  moreover have "pgno (PGROUNDUP (kend s)) \<le> pgno p" "pgno (PGROUNDUP (kend s)) \<le> pgno q"
    using kpage_ge_roundup [OF assms(1)] assms(2,3) by (auto simp: pgno_def div_le_mono)
  ultimately have "pgno p = pgno q"
    using unat_INDEX [OF assms(1)] assms(2,3) by (metis diff_diff_cancel eq_diff_iff)
  then show "p = q" using assms by (simp add: aligned_pgno_eq kpage_def)
qed simp

section \<open>The free list\<close>

lemma flist_unique: "flist m p xs \<Longrightarrow> flist m p ys \<Longrightarrow> xs = ys"
  by (induction xs arbitrary: p ys) (auto elim: flist.elims)

lemma flist_agree:
  "flist m p xs \<Longrightarrow> (\<And>x. x \<in> set xs \<Longrightarrow> aligned x \<and> agree m m' (pgno x)) \<Longrightarrow> flist m' p xs"
proof (induction xs arbitrary: p)
  case (Cons x xs)
  have "load64 m x = load64 m' x" using agree_load64 [of m m' x 0] Cons.prems by simp
  with Cons show ?case by simp
qed simp

lemma kfree_test: "(pa mod PGSIZE \<noteq> 0 \<or> pa < kend s \<or> pa \<ge> PHYSTOP) \<longleftrightarrow> \<not> kpage s pa"
  by (auto simp: kpage_def aligned_def PGSIZE_def word_unat_eq_iff unat_mod not_le)

section \<open>Behaviour of the operations\<close>

lemma kmem_masked [simp]:
  "freelist (masked_once s) = freelist s" "ref_count (masked_once s) = ref_count s"
  "kend (masked_once s) = kend s" "kmem.more (masked_once s) = kmem.more s"
  by (simp_all add: masked_once_def lock_defs)

lemma kmem_enter [simp]:
  "freelist (enter_state l s) = freelist s" "ref_count (enter_state l s) = ref_count s"
  "kend (enter_state l s) = kend s"
  by (simp_all add: enter_state_def lock_defs)

lemma INDEX_cong: "kend t = kend s \<Longrightarrow> INDEX t p = INDEX s p"
  by (simp add: INDEX_def)

lemma lock_free_masked [simp]: "lock_free l (masked_once s) = lock_free l s"
  by (simp add: lock_free_def)

lemma cpu_ok_masked [simp]: "cpu_ok (masked_once s) = cpu_ok s"
  by (simp add: cpu_ok_def)

lemma lock_free_upd [simp]:
  "lock_free l (s\<lparr>mem := m\<rparr>) = lock_free l s" "lock_free l (set_ref i v t) = lock_free l t"
  "lock_free l (t\<lparr>freelist := p\<rparr>) = lock_free l t" "lock_free l (t\<lparr>ref_count := r\<rparr>) = lock_free l t"
  by (simp_all add: lock_free_def set_ref_def)

lemma cpu_ok_upd [simp]:
  "cpu_ok (s\<lparr>mem := m\<rparr>) = cpu_ok s" "cpu_ok (set_ref i v t) = cpu_ok t"
  "cpu_ok (t\<lparr>freelist := p\<rparr>) = cpu_ok t" "cpu_ok (t\<lparr>ref_count := r\<rparr>) = cpu_ok t"
  by (simp_all add: cpu_ok_def mycpu_def cpuid_def set_ref_def)

lemma kalloc_empty:
  assumes "kmem_ready s" "freelist s = 0"
  shows "kalloc s = Ok (0, masked_once s)"
proof -
  have "release L_kmem (enter_state L_kmem s) = Ok (masked_once s)"
    using assms critical_section [of L_kmem s "\<lambda>t. t"] by (simp add: kmem_ready_def)
  then show ?thesis using assms by (simp add: kalloc_def kmem_ready_def acquire_free)
qed

lemma kalloc_page:
  assumes "kmem_ready s" "freelist s = r" "r \<noteq> 0"
  shows "kalloc s = Ok (r, (masked_once s)\<lparr>mem := write_bytes (mem s) r (replicate 4096 5),
    freelist := load64 (mem s) r, ref_count := (ref_count s)(INDEX s r := 1)\<rparr>)"
proof -
  let ?f = "\<lambda>t. set_ref (INDEX t r) 1 (t\<lparr>freelist := load64 (mem t) r\<rparr>)"
  have "release L_kmem (?f (enter_state L_kmem s)) = Ok (?f (masked_once s))"
    using assms by (intro critical_section) (auto simp: kmem_ready_def set_ref_def INDEX_def)
  then show ?thesis using assms
    by (simp add: kalloc_def kmem_ready_def acquire_free memset_eq PGSIZE_def set_ref_def INDEX_def)
qed

lemma kfree_panic: "\<not> kpage s pa \<Longrightarrow> kfree pa s = Panic ''kfree''"
  unfolding kfree_def kfree_test by simp

lemma kfree_shared:
  assumes "kmem_ready s" "kpage s pa" "get_kmem_ref pa s \<noteq> 1"
  shows "kfree pa s = Ok (set_ref (INDEX s pa) (get_kmem_ref pa s - 1) (masked_once s))"
proof -
  let ?f = "\<lambda>t. set_ref (INDEX t pa) (ref_count t (INDEX t pa) - 1) t"
  have "release L_kmem (?f (enter_state L_kmem s)) = Ok (?f (masked_once s))"
    using assms by (intro critical_section) (auto simp: kmem_ready_def set_ref_def INDEX_def)
  then show ?thesis
    unfolding kfree_def kfree_test using assms
    by (simp add: kmem_ready_def acquire_free set_ref_def INDEX_def get_kmem_ref_def Let_def)
qed

lemma kfree_last:
  assumes "kmem_ready s" "kpage s pa" "get_kmem_ref pa s = 1"
  shows "kfree pa s = Ok ((set_ref (INDEX s pa) 0 (masked_once s))
    \<lparr>mem := store64 (write_bytes (mem s) pa (replicate 4096 1)) pa (freelist s), freelist := pa\<rparr>)"
proof -
  let ?f = "\<lambda>t. set_ref (INDEX t pa) (ref_count t (INDEX t pa) - 1) t"
  let ?t = "(?f (masked_once s))\<lparr>mem := memset (mem s) pa 1 (unat PGSIZE)\<rparr>"
  let ?g = "\<lambda>t. t\<lparr>mem := store64 (mem t) pa (freelist t), freelist := pa\<rparr>"
  have 1: "release L_kmem (?f (enter_state L_kmem s)) = Ok (?f (masked_once s))"
    using assms by (intro critical_section) (auto simp: kmem_ready_def set_ref_def INDEX_def)
  have 2: "release L_kmem (?g (enter_state L_kmem ?t)) = Ok (?g (masked_once ?t))"
    using assms by (intro critical_section) (auto simp: kmem_ready_def)
  have 3: "masked_once ?t = ?t"
    by (simp add: masked_once_def lock_defs set_ref_def)
  show ?thesis
    unfolding kfree_def kfree_test using assms 1 2 3
    by (simp add: kmem_ready_def acquire_free set_ref_def INDEX_def get_kmem_ref_def Let_def
        memset_eq PGSIZE_def)
qed

section \<open>The operations keep the invariant\<close>

lemma kmem_inv_masked [simp]: "kmem_inv (masked_once s) xs = kmem_inv s xs"
  by (simp add: kmem_inv_def kend_ok_def kpage_def get_kmem_ref_def INDEX_def)

lemma lock_ctx_upd [simp]:
  "lock_ctx s (t\<lparr>mem := m\<rparr>) = lock_ctx s t" "lock_ctx s (u\<lparr>freelist := p\<rparr>) = lock_ctx s u"
  "lock_ctx s (u\<lparr>ref_count := r\<rparr>) = lock_ctx s u" "lock_ctx s (set_ref i v u) = lock_ctx s u"
  "lock_ctx s (masked_once s)"
  by (simp_all add: lock_ctx_def set_ref_def)

lemma lock_ctx_upd_left [simp]:
  "lock_ctx (s\<lparr>mem := m\<rparr>) v = lock_ctx s v" "lock_ctx (u\<lparr>freelist := p\<rparr>) v = lock_ctx u v"
  "lock_ctx (u\<lparr>ref_count := r\<rparr>) v = lock_ctx u v" "lock_ctx (set_ref i w u) v = lock_ctx u v"
  by (rule lock_ctx_cong, simp_all add: set_ref_def)+

lemma kmem_ready_ctx: "lock_ctx s t \<Longrightarrow> kmem_ready t = kmem_ready s"
  by (simp add: kmem_ready_def lock_ctx_free lock_ctx_cpu_ok)

lemma kpage_cong: "kend t = kend s \<Longrightarrow> kpage t p = kpage s p"
  by (simp add: kpage_def)

lemma kend_ok_cong: "kend t = kend s \<Longrightarrow> kend_ok t = kend_ok s"
  by (simp add: kend_ok_def)

lemma get_kmem_ref_upd [simp]:
  "get_kmem_ref p (s\<lparr>mem := m\<rparr>) = get_kmem_ref p s"
  "get_kmem_ref p (s\<lparr>freelist := q\<rparr>) = get_kmem_ref p s"
  "get_kmem_ref p (masked_once s) = get_kmem_ref p s"
  by (simp_all add: get_kmem_ref_def INDEX_def)

lemma get_kmem_ref_set_ref:
  assumes "kend_ok s" "kpage s p" "kpage s q"
  shows "get_kmem_ref p (set_ref (INDEX s q) v s) = (if p = q then v else get_kmem_ref p s)"
  using INDEX_inj [OF assms] by (auto simp: get_kmem_ref_def set_ref_def INDEX_def)

text \<open>What \<open>kalloc\<close> promises: a page of the free list, with one reference, and nothing else changed.\<close>

lemma kalloc_cases:
  assumes "kmem_ready s" "kmem_inv s xs"
  obtains (none) "xs = []" "kalloc s = Ok (0, masked_once s)"
  | (page) x ys t where
    "xs = x # ys" "kalloc s = Ok (x, t)" "kmem_inv t ys" "kpage s x" "x \<noteq> 0"
    "get_kmem_ref x t = 1" "\<And>p. kpage s p \<Longrightarrow> p \<noteq> x \<Longrightarrow> get_kmem_ref p t = get_kmem_ref p s"
    "\<And>k. k \<noteq> pgno x \<Longrightarrow> agree (mem s) (mem t) k"
    "lock_ctx s t" "kend t = kend s" "kmem.more t = kmem.more s"
proof (cases xs)
  case Nil
  then show ?thesis using assms none kalloc_empty [of s] by (simp add: kmem_inv_def)
next
  case (Cons x ys)
  let ?t = "(masked_once s)\<lparr>mem := write_bytes (mem s) x (replicate 4096 5),
    freelist := load64 (mem s) x, ref_count := (ref_count s)(INDEX s x := 1)\<rparr>"
  have inv: "kend_ok s" "kpage s x" "freelist s = x" "x \<noteq> 0" "x \<notin> set ys" "distinct ys"
    "flist (mem s) (load64 (mem s) x) ys"
    using assms(2) Cons by (auto simp: kmem_inv_def)
  have al: "aligned x" using inv by (simp add: kpage_def)
  have ref: "get_kmem_ref p ?t = (if p = x then 1 else get_kmem_ref p s)" if "kpage s p" for p
    using INDEX_inj [OF inv(1) that inv(2)] by (auto simp: get_kmem_ref_def INDEX_def)
  have agr: "agree (mem s) (mem ?t) k" if "k \<noteq> pgno x" for k
    using al that by (simp add: agree_write_page)
  have pages: "\<forall>y \<in> set ys. kpage s y \<and> get_kmem_ref y s = 0 \<and> y \<noteq> x"
    using assms(2) Cons inv(5) by (auto simp: kmem_inv_def)
  then have "flist (mem ?t) (load64 (mem s) x) ys"
    using inv(7) al agr by (intro flist_agree [OF inv(7)]) (auto simp: kpage_def aligned_pgno_eq)
  then have "kmem_inv ?t ys"
    using inv pages ref by (auto simp: kmem_inv_def kend_ok_def kpage_def)
  moreover have "kalloc s = Ok (x, ?t)" by (rule kalloc_page [OF assms(1) inv(3,4)])
  ultimately show ?thesis
    using Cons inv(2,4) ref [OF inv(2)] ref agr by (intro page [of x ys ?t]) auto
qed

text \<open>
  What \<open>kfree\<close> promises for a page with at least one reference: one reference less, and the
  page back on the free list when that was the last one.
\<close>

lemma kfree_cases:
  assumes "kmem_ready s" "kmem_inv s xs" "kpage s pa" "get_kmem_ref pa s \<noteq> 0"
  obtains t where "kfree pa s = Ok t"
    "kmem_inv t (if get_kmem_ref pa s = 1 then pa # xs else xs)"
    "get_kmem_ref pa t = get_kmem_ref pa s - 1"
    "\<And>p. kpage s p \<Longrightarrow> p \<noteq> pa \<Longrightarrow> get_kmem_ref p t = get_kmem_ref p s"
    "\<And>k. k \<noteq> pgno pa \<or> get_kmem_ref pa s \<noteq> 1 \<Longrightarrow> agree (mem s) (mem t) k"
    "lock_ctx s t" "kend t = kend s" "kmem.more t = kmem.more s"
proof (cases "get_kmem_ref pa s = 1")
  case False
  let ?t = "set_ref (INDEX s pa) (get_kmem_ref pa s - 1) (masked_once s)"
  have ok: "kend_ok s" using assms(2) by (simp add: kmem_inv_def)
  have I: "INDEX (masked_once s) pa = INDEX s pa" by (simp add: INDEX_def)
  have ref: "get_kmem_ref p ?t = (if p = pa then get_kmem_ref pa s - 1 else get_kmem_ref p s)"
    if "kpage s p" for p
    using get_kmem_ref_set_ref [of "masked_once s" p pa] that assms(3) ok
    by (simp add: I kend_ok_def kpage_def)
  have "pa \<notin> set xs" using assms(2,4) by (auto simp: kmem_inv_def)
  then have "kmem_inv ?t xs" using assms(2) ref
    by (auto simp: kmem_inv_def kend_ok_def kpage_def set_ref_def)
  then show ?thesis using that [of ?t] kfree_shared [OF assms(1,3) False] False ref assms(3)
    by (simp add: set_ref_def)
next
  case True
  let ?m = "store64 (write_bytes (mem s) pa (replicate 4096 1)) pa (freelist s)"
  let ?t = "(set_ref (INDEX s pa) 0 (masked_once s))\<lparr>mem := ?m, freelist := pa\<rparr>"
  have ok: "kend_ok s" and fl: "flist (mem s) (freelist s) xs" and notin: "pa \<notin> set xs"
    using assms(2,4) by (auto simp: kmem_inv_def)
  have al: "aligned pa" "pa \<noteq> 0" using assms(3) kpage_bounds [OF ok assms(3)] by auto
  have I: "INDEX (masked_once s) pa = INDEX s pa" by (simp add: INDEX_def)
  have ref: "get_kmem_ref p ?t = (if p = pa then 0 else get_kmem_ref p s)" if "kpage s p" for p
    using get_kmem_ref_set_ref [of "masked_once s" p pa] that assms(3) ok
    by (simp add: I kend_ok_def kpage_def)
  have agr: "agree (mem s) ?m k" if "k \<noteq> pgno pa" for k
    using agree_write_page [OF al(1) _ that, of "replicate 4096 1" "mem s"]
      agree_store64 [OF al(1) _ that, of 0] by (auto elim: agree_trans)
  have "flist ?m (freelist s) xs"
  proof (rule flist_agree [OF fl])
    fix x assume "x \<in> set xs"
    then have "aligned x" "x \<noteq> pa" using assms(2) notin by (auto simp: kmem_inv_def kpage_def)
    then show "aligned x \<and> agree (mem s) ?m (pgno x)" using al agr by (simp add: aligned_pgno_eq)
  qed
  then have "kmem_inv ?t (pa # xs)" using assms(2,3) ref al notin
    by (auto simp: kmem_inv_def kend_ok_def kpage_def set_ref_def)
  then show ?thesis using that [of ?t] kfree_last [OF assms(1,3) True] True ref assms(3) agr
    by (simp add: set_ref_def)
qed

section \<open>Initialisation\<close>

text \<open>The \<open>n\<close> pages from \<open>p\<close> on, in the order \<open>freerange\<close> leaves them on the list.\<close>

definition run_of_pages :: "u64 \<Rightarrow> nat \<Rightarrow> u64 list" where
  "run_of_pages p n = rev (map (\<lambda>i. p + of_nat (4096 * i)) [0..<n])"

lemma run_of_pages_Suc: "run_of_pages p (Suc n) = run_of_pages (p + PGSIZE) n @ [p]"
proof -
  have "map (\<lambda>i. p + of_nat (4096 * i)) [0..<Suc n]
      = p # map (\<lambda>i. p + PGSIZE + of_nat (4096 * i)) [0..<n]"
    by (simp add: upt_conv_Cons map_Suc_upt [symmetric] PGSIZE_def add.assoc del: upt_Suc)
  then show ?thesis by (simp only: run_of_pages_def rev.simps)
qed

lemma unat_page_step:
  "unat p + 4096 * n \<le> unat PHYSTOP \<Longrightarrow> i \<le> n \<Longrightarrow> unat (p + of_nat (4096 * i)) = unat p + 4096 * i"
  for p :: u64
  by (intro unat_add_no_wrap) (simp add: riscv_consts)

lemma set_run_of_pages:
  assumes "aligned p" "unat p + 4096 * n = unat PHYSTOP"
  shows "set (run_of_pages p n) = {q. aligned q \<and> p \<le> q \<and> q < PHYSTOP}"
proof (intro set_eqI iffI)
  fix q assume "q \<in> set (run_of_pages p n)"
  then obtain i where i: "i < n" "q = p + of_nat (4096 * i)" by (auto simp: run_of_pages_def)
  then have "unat q = unat p + 4096 * i" using unat_page_step [of p n i] assms by simp
  moreover have "4096 * i < 4096 * n" using i by simp
  ultimately show "q \<in> {q. aligned q \<and> p \<le> q \<and> q < PHYSTOP}"
    using assms by (simp add: aligned_def word_le_nat_alt word_less_nat_alt)
next
  fix q assume "q \<in> {q. aligned q \<and> p \<le> q \<and> q < PHYSTOP}"
  then have q: "aligned q" "unat p \<le> unat q" "unat q < unat PHYSTOP"
    by (auto simp: word_le_nat_alt word_less_nat_alt)
  define i where "i = pgno q - pgno p"
  have "pgno p \<le> pgno q" using q by (simp add: pgno_def div_le_mono)
  then have uq: "unat q = unat p + 4096 * i"
    using q assms(1) by (simp add: i_def aligned_unat algebra_simps)
  then have "i < n" using q assms(2) by linarith
  moreover have "q = p + of_nat (4096 * i)"
    using unat_page_step [of p n i] assms(2) uq \<open>i < n\<close> by (simp add: word_unat_eq_iff)
  ultimately show "q \<in> set (run_of_pages p n)" by (auto simp: run_of_pages_def)
qed

lemma freerange_loop_inv:
  assumes "kmem_ready s" "kmem_inv s xs" "aligned p" "kend s \<le> p"
    and "unat p + 4096 * n = unat PHYSTOP" "\<forall>x \<in> set xs. x < p"
  shows "\<exists>t. freerange_loop p PHYSTOP s = Ok t \<and> kmem_inv t (run_of_pages p n @ xs) \<and>
    lock_ctx s t \<and> kend t = kend s \<and> kmem.more t = kmem.more s"
  using assms
proof (induction n arbitrary: p s xs)
  case 0
  then have "\<not> p + PGSIZE \<le> PHYSTOP" by (simp add: word_le_nat_alt unat_word_ariths riscv_consts)
  with 0 show ?case by (auto simp: freerange_loop.simps [of p] run_of_pages_def)
next
  case (Suc n)
  have up: "unat (p + PGSIZE) = unat p + 4096"
    using Suc.prems(5) by (simp add: unat_word_ariths riscv_consts)
  have le: "p + PGSIZE \<le> PHYSTOP" and pp: "p < p + PGSIZE" and lt: "p < PHYSTOP"
    using up Suc.prems(5) by (simp_all add: word_le_nat_alt word_less_nat_alt)
  let ?s = "set_ref (INDEX s p) 1 s"
  have kp: "kpage s p" using Suc.prems lt by (simp add: kpage_def)
  have ok: "kend_ok s" using Suc.prems(2) by (simp add: kmem_inv_def)
  have "p \<notin> set xs" using Suc.prems(6) by auto
  then have inv: "kmem_inv ?s xs"
    using Suc.prems(2) get_kmem_ref_set_ref [OF ok _ kp, of _ 1]
    by (auto simp: kmem_inv_def set_ref_def kend_ok_def kpage_def)
  have ref: "get_kmem_ref p ?s = 1" using get_kmem_ref_set_ref [OF ok kp kp] by simp
  have kp': "kpage ?s p" and rdy: "kmem_ready ?s"
    using kp Suc.prems(1) by (simp_all add: kpage_def set_ref_def kmem_ready_def)
  obtain u where u: "kfree p ?s = Ok u" "kmem_inv u (p # xs)" "lock_ctx ?s u" "kend u = kend s"
    "kmem.more u = kmem.more s"
    by (rule kfree_cases [OF rdy inv kp']) (use ref in \<open>auto simp: set_ref_def\<close>)
  have "lock_ctx s u" using u(3) by simp
  moreover have "\<exists>t. freerange_loop (p + PGSIZE) PHYSTOP u = Ok t \<and>
      kmem_inv t (run_of_pages (p + PGSIZE) n @ p # xs) \<and> lock_ctx u t \<and> kend t = kend u \<and>
      kmem.more t = kmem.more u"
  proof (rule Suc.IH)
    show "kmem_ready u" using kmem_ready_ctx [OF \<open>lock_ctx s u\<close>] Suc.prems(1) by simp
    show "aligned (p + PGSIZE)" using Suc.prems(3) up by (simp add: aligned_def)
    show "kend u \<le> p + PGSIZE" using u(4) Suc.prems(4) pp by simp
    show "\<forall>x \<in> set (p # xs). x < p + PGSIZE" using Suc.prems(6) pp by auto
  qed (use u up Suc.prems(5) in simp_all)
  ultimately show ?case
    using u le by (auto simp: freerange_loop.simps [of p] run_of_pages_Suc intro: lock_ctx_trans)
qed

lemma unat_ref_space:
  assumes "kend_ok s"
  shows "unat (ref_space (kend s)) =
    (((unat PHYSTOP - unat (kend s)) div 4096 + 1) * 4 div 4096 + 1) * 4096"
proof -
  define d where "d = unat PHYSTOP - unat (kend s)"
  have d: "unat (PHYSTOP - kend s) = d"
    using assms by (simp add: kend_ok_def word_le_nat_alt unat_sub_if' d_def)
  have db: "d \<le> 134217728"
    using assms by (auto simp: kend_ok_def riscv_consts word_le_nat_alt d_def)
  define a :: u64 where "a = drop_bit 12 (PHYSTOP - kend s) + 1"
  have a: "unat a = d div 4096 + 1"
    using db by (simp add: a_def unat_word_ariths unat_drop_bit_eq drop_bit_nat_def d)
  define b :: u64 where "b = drop_bit 12 (a * 4) + 1"
  have a4: "unat (a * 4) = (d div 4096 + 1) * 4" using db by (simp add: unat_word_ariths a)
  have "unat (drop_bit 12 (a * 4)) = (d div 4096 + 1) * 4 div 4096"
    by (simp only: unat_drop_bit_eq drop_bit_nat_def a4) simp
  then have b: "unat b = (d div 4096 + 1) * 4 div 4096 + 1"
    using db unat_word_ariths(1) [of "drop_bit 12 (a * 4)" 1] by (simp add: b_def)
  have "unat (push_bit 12 b) = unat b * 4096"
    using b db by (simp add: push_bit_eq_mult unat_word_ariths)
  then show ?thesis by (simp add: ref_space_def Let_def b d_def flip: a_def b_def)
qed

text \<open>The counters of all managed pages lie in the space set aside for them.\<close>

lemma ref_array_fits:
  assumes "kend_ok s" "kpage s p"
  shows "4 * unat (INDEX s p) + 4 \<le> unat (ref_space (kend s))"
proof -
  let ?d = "unat PHYSTOP - unat (kend s)"
  have "unat (kend s) \<le> unat (PGROUNDUP (kend s))"
    unfolding unat_PGROUNDUP_kend [OF assms(1)] by linarith
  moreover have "unat p = pgno p * 4096" "unat (PGROUNDUP (kend s)) = pgno (PGROUNDUP (kend s)) * 4096"
    using assms(2) by (simp_all add: aligned_unat kpage_def)
  moreover have "unat p < unat PHYSTOP" using assms(2) by (simp add: kpage_def word_less_nat_alt)
  ultimately have "unat (INDEX s p) * 4096 \<le> ?d"
    unfolding unat_INDEX [OF assms] by linarith
  then have "unat (INDEX s p) \<le> ?d div 4096" by (simp add: less_eq_div_iff_mult_less_eq)
  then have "4 * unat (INDEX s p) + 4 \<le> (?d div 4096 + 1) * 4" by simp
  also have "\<dots> \<le> 4096 + 4096 * ((?d div 4096 + 1) * 4 div 4096)"
    by (rule less_imp_le, rule dividend_less_times_div) simp
  finally show ?thesis unfolding unat_ref_space [OF assms(1)] by (simp add: algebra_simps)
qed

lemma PGROUNDUP_le_iff:
  assumes "aligned q" "unat a + 4095 < 18446744073709551616"
  shows "PGROUNDUP a \<le> q \<longleftrightarrow> a \<le> q"
proof -
  define k where "k = (unat a + 4095) div 4096"
  have up: "unat (PGROUNDUP a) = k * 4096" using unat_PGROUNDUP [OF assms(2)] k_def by simp
  have uq: "unat q = pgno q * 4096" using assms(1) by (rule aligned_unat)
  have "k * 4096 \<le> pgno q * 4096 \<longleftrightarrow> unat a \<le> pgno q * 4096"
  proof
    assume "unat a \<le> pgno q * 4096"
    then have "k < Suc (pgno q)" unfolding k_def by (intro less_mult_imp_div_less) simp
    then show "k * 4096 \<le> pgno q * 4096" by simp
  next
    have "unat a \<le> k * 4096" unfolding k_def using div_mult_mod_eq [of "unat a + 4095" 4096]
      mod_less_divisor [of 4096 "unat a + 4095"] by linarith
    then show "k * 4096 \<le> pgno q * 4096 \<Longrightarrow> unat a \<le> pgno q * 4096" by simp
  qed
  then show ?thesis by (simp add: word_le_nat_alt up uq)
qed

lemma pages_to_PHYSTOP:
  assumes "a \<le> PHYSTOP"
  obtains n where "unat (PGROUNDUP a) + 4096 * n = unat PHYSTOP" "a \<le> PGROUNDUP a"
    "set (run_of_pages (PGROUNDUP a) n) = {q. aligned q \<and> a \<le> q \<and> q < PHYSTOP}"
proof -
  have ps: "unat PHYSTOP = 557056 * 4096" by (simp add: riscv_consts)
  have b: "unat a + 4095 < 18446744073709551616" "aligned PHYSTOP" "unat a \<le> 557056 * 4096"
    using assms ps by (simp_all add: word_le_nat_alt aligned_def)
  have "PGROUNDUP a \<le> PHYSTOP" using PGROUNDUP_le_iff [OF b(2,1)] assms by simp
  moreover have u: "unat (PGROUNDUP a) = pgno (PGROUNDUP a) * 4096"
    by (rule aligned_unat [OF aligned_PGROUNDUP])
  ultimately have "pgno (PGROUNDUP a) \<le> 557056" using ps by (simp add: word_le_nat_alt)
  then have n: "unat (PGROUNDUP a) + 4096 * (557056 - pgno (PGROUNDUP a)) = unat PHYSTOP"
    using u ps by linarith
  have "a \<le> PGROUNDUP a" using PGROUNDUP_le_iff [OF aligned_PGROUNDUP [of a] b(1)] by simp
  moreover have "set (run_of_pages (PGROUNDUP a) (557056 - pgno (PGROUNDUP a)))
      = {q. aligned q \<and> a \<le> q \<and> q < PHYSTOP}"
    using PGROUNDUP_le_iff [OF _ b(1)] by (auto simp: set_run_of_pages [OF aligned_PGROUNDUP n])
  ultimately show ?thesis using n that by blast
qed

lemma kinit_inv:
  assumes "cpu_ok s" "kend_ok s" "freelist s = 0"
    and "unat (kend s) + unat (ref_space (kend s)) \<le> unat PHYSTOP"
  shows "\<exists>t xs. kinit s = Ok t \<and> kmem_ready t \<and> lock_free L_ref t \<and> kmem_inv t xs \<and>
    kend t = kend s \<and> set xs = {q. aligned q \<and> kend s + ref_space (kend s) \<le> q \<and> q < PHYSTOP}"
proof -
  let ?s = "initlock L_ref ''ref'' (initlock L_kmem ''kmem'' s)"
  let ?a = "kend s + ref_space (kend s)"
  have "unat PHYSTOP < 18446744073709551616" by (simp add: riscv_consts)
  then have ua: "unat ?a = unat (kend s) + unat (ref_space (kend s))"
    using assms(4) by (simp add: unat_word_ariths)
  then have "?a \<le> PHYSTOP" using assms(4) by (simp add: word_le_nat_alt)
  then obtain n where n: "unat (PGROUNDUP ?a) + 4096 * n = unat PHYSTOP" "?a \<le> PGROUNDUP ?a"
      "set (run_of_pages (PGROUNDUP ?a) n) = {q. aligned q \<and> ?a \<le> q \<and> q < PHYSTOP}"
    by (rule pages_to_PHYSTOP)
  have rdy: "kmem_ready ?s" "lock_free L_ref ?s"
    using assms(1) by (simp_all add: kmem_ready_def initlock_def lock_free_def cpu_ok_def lock_defs)
  have inv: "kmem_inv ?s []"
    using assms(2,3) by (simp add: kmem_inv_def initlock_def set_lock_def kend_ok_def)
  have ks: "kend ?s = kend s" by (simp add: initlock_def set_lock_def)
  have "kend ?s \<le> PGROUNDUP ?a" using n(2) ua ks by (simp add: word_le_nat_alt)
  then obtain t where t: "freerange_loop (PGROUNDUP ?a) PHYSTOP ?s = Ok t"
      "kmem_inv t (run_of_pages (PGROUNDUP ?a) n)" "lock_ctx ?s t" "kend t = kend ?s"
    using freerange_loop_inv [OF rdy(1) inv aligned_PGROUNDUP _ n(1)] by auto
  have "kinit s = Ok t" using t(1) by (simp add: kinit_def freerange_def Let_def ks)
  moreover have "kmem_ready t" "lock_free L_ref t"
    using kmem_ready_ctx [OF t(3)] lock_ctx_free [OF t(3)] rdy by simp_all
  ultimately show ?thesis using t(2,4) n(3) ks
    by (intro exI [of _ t] exI [of _ "run_of_pages (PGROUNDUP ?a) n"]) (simp only: simp_thms)
qed
section \<open>The allocator as an interface\<close>

text \<open>
  What the callers of the allocator rely on. \<open>pool s xs\<close> says that the free pages of a
  usable state are \<open>xs\<close>, in the order in which they will be handed out.
\<close>

locale page_pool =
  fixes alloc :: "'s \<Rightarrow> (u64 \<times> 's) res"
    and free :: "u64 \<Rightarrow> 's \<Rightarrow> 's res"
    and pool :: "'s \<Rightarrow> u64 list \<Rightarrow> bool"
    and refs :: "u64 \<Rightarrow> 's \<Rightarrow> u32"
    and page :: "'s \<Rightarrow> u64 \<Rightarrow> bool"
  assumes alloc_none: "pool s [] \<Longrightarrow> \<exists>t. alloc s = Ok (0, t) \<and> pool t []"
    and alloc_page: "pool s (x # xs) \<Longrightarrow>
      \<exists>t. alloc s = Ok (x, t) \<and> pool t xs \<and> refs x t = 1 \<and> page t = page s \<and>
        (\<forall>p. page s p \<longrightarrow> p \<noteq> x \<longrightarrow> refs p t = refs p s)"
    and free_page: "pool s xs \<Longrightarrow> page s p \<Longrightarrow> refs p s \<noteq> 0 \<Longrightarrow>
      \<exists>t. free p s = Ok t \<and> pool t (if refs p s = 1 then p # xs else xs) \<and>
        refs p t = refs p s - 1 \<and> page t = page s \<and>
        (\<forall>q. page s q \<longrightarrow> q \<noteq> p \<longrightarrow> refs q t = refs q s)"
    and pool_page: "pool s xs \<Longrightarrow> x \<in> set xs \<Longrightarrow> page s x \<and> refs x s = 0 \<and> x \<noteq> 0"
    and pool_distinct: "pool s xs \<Longrightarrow> distinct xs"
begin

lemma alloc_cases:
  assumes "pool s xs"
  obtains (none) t where "xs = []" "alloc s = Ok (0, t)" "pool t []"
  | (page) x ys t where "xs = x # ys" "alloc s = Ok (x, t)" "pool t ys" "refs x t = 1"
    "page t = page s" "\<And>p. page s p \<Longrightarrow> p \<noteq> x \<Longrightarrow> refs p t = refs p s"
    "page s x" "refs x s = 0" "x \<noteq> 0"
proof (cases xs)
  case Nil
  with alloc_none [of s] assms none show ?thesis by blast
next
  case (Cons x ys)
  have p: "pool s (x # ys)" using assms Cons by simp
  obtain t where "alloc s = Ok (x, t)" "pool t ys" "refs x t = 1" "page t = page s"
      "\<forall>p. page s p \<longrightarrow> p \<noteq> x \<longrightarrow> refs p t = refs p s"
    using alloc_page [OF p] by blast
  then show ?thesis using page Cons pool_page [OF p, of x] by simp
qed

lemma alloc_not_in_use:
  assumes "pool s xs" "page s p" "refs p s \<noteq> 0" "p \<noteq> 0" "alloc s = Ok (r, t)"
  shows "r \<noteq> p \<and> (r \<noteq> 0 \<longrightarrow> refs p t = refs p s)"
  using assms(1)
proof (cases rule: alloc_cases)
  case none
  then show ?thesis using assms by simp
next
  case (page x ys u)
  then have "r = x" "t = u" "p \<noteq> x" using assms by auto
  then show ?thesis using page(6) assms(2) by blast
qed

lemma alloc_twice:
  assumes "pool s (x # y # xs)"
  shows "\<exists>t u. alloc s = Ok (x, t) \<and> alloc t = Ok (y, u) \<and> x \<noteq> y \<and> pool u xs \<and> refs x u = 1 \<and> refs y u = 1"
proof -
  obtain t where t: "alloc s = Ok (x, t)" "pool t (y # xs)" "refs x t = 1" "page t = page s"
    using alloc_page [OF assms] by blast
  obtain u where u: "alloc t = Ok (y, u)" "pool u xs" "refs y u = 1"
      "\<forall>p. page t p \<longrightarrow> p \<noteq> y \<longrightarrow> refs p u = refs p t"
    using alloc_page [OF t(2)] by blast
  have "x \<noteq> y" using pool_distinct [OF assms] by simp
  moreover have "page t x" using pool_page [OF assms, of x] t(4) by simp
  ultimately have "refs x u = 1" using u(4) t(3) by simp
  with \<open>x \<noteq> y\<close> t(1) u(1-3) show ?thesis by blast
qed

lemma alloc_free:
  assumes "pool s (x # xs)"
  shows "\<exists>t u. alloc s = Ok (x, t) \<and> free x t = Ok u \<and> pool u (x # xs)"
proof -
  obtain t where t: "alloc s = Ok (x, t)" "pool t xs" "refs x t = 1" "page t = page s"
    using alloc_page [OF assms] by blast
  have "page t x" using pool_page [OF assms, of x] t(4) by simp
  then obtain u where "free x t = Ok u" "pool u (if refs x t = 1 then x # xs else xs)"
    using free_page [OF t(2), of x] t(3) by (metis zero_neq_one)
  with t(1,3) show ?thesis by simp
qed

end

abbreviation kmem_pool_inv :: "'a kmem_scheme \<Rightarrow> u64 list \<Rightarrow> bool" where
  "kmem_pool_inv s xs \<equiv> kmem_ready s \<and> kmem_inv s xs"

lemma kalloc_pool_none: "kmem_pool_inv s [] \<Longrightarrow> \<exists>t. kalloc s = Ok (0, t) \<and> kmem_pool_inv t []"
  using kalloc_empty [of s] kmem_ready_ctx [of s "masked_once s"]
  by (simp add: kmem_inv_def kend_ok_def)

lemma kalloc_pool_page:
  assumes "kmem_pool_inv s (x # xs)"
  shows "\<exists>t. kalloc s = Ok (x, t) \<and> kmem_pool_inv t xs \<and> get_kmem_ref x t = 1 \<and> kpage t = kpage s \<and>
    (\<forall>p. kpage s p \<longrightarrow> p \<noteq> x \<longrightarrow> get_kmem_ref p t = get_kmem_ref p s)"
proof (rule kalloc_cases [of s "x # xs"])
  fix y ys t
  assume "x # xs = y # ys" "kalloc s = Ok (y, t)" "kmem_inv t ys" "get_kmem_ref y t = 1"
    "lock_ctx s t" "kend t = kend s"
    and "\<And>p. kpage s p \<Longrightarrow> p \<noteq> y \<Longrightarrow> get_kmem_ref p t = get_kmem_ref p s"
  moreover have "kpage t = kpage s" using \<open>kend t = kend s\<close> by (intro ext kpage_cong)
  moreover have "kmem_ready t" using assms \<open>lock_ctx s t\<close> by (simp add: kmem_ready_ctx)
  ultimately show ?thesis by (intro exI [of _ t]) simp
qed (use assms in simp_all)

lemma kfree_pool:
  assumes "kmem_pool_inv s xs" "kpage s p" "get_kmem_ref p s \<noteq> 0"
  shows "\<exists>t. kfree p s = Ok t \<and> kmem_pool_inv t (if get_kmem_ref p s = 1 then p # xs else xs) \<and>
    get_kmem_ref p t = get_kmem_ref p s - 1 \<and> kpage t = kpage s \<and>
    (\<forall>q. kpage s q \<longrightarrow> q \<noteq> p \<longrightarrow> get_kmem_ref q t = get_kmem_ref q s)"
proof (rule kfree_cases [of s xs p])
  fix t
  assume t: "kfree p s = Ok t" "kmem_inv t (if get_kmem_ref p s = 1 then p # xs else xs)"
    "get_kmem_ref p t = get_kmem_ref p s - 1" "lock_ctx s t" "kend t = kend s"
    "\<And>q. kpage s q \<Longrightarrow> q \<noteq> p \<Longrightarrow> get_kmem_ref q t = get_kmem_ref q s"
  moreover have "kpage t = kpage s" using \<open>kend t = kend s\<close> by (intro ext kpage_cong)
  moreover have "kmem_ready t" using assms \<open>lock_ctx s t\<close> by (simp add: kmem_ready_ctx)
  ultimately show ?thesis by (intro exI [of _ t] conjI allI impI) simp_all
qed (use assms in simp_all)

interpretation kp: page_pool kalloc kfree kmem_pool_inv get_kmem_ref kpage
proof (unfold_locales, goal_cases)
  case (1 s)
  then show ?case by (rule kalloc_pool_none)
next
  case (2 s x xs)
  then show ?case by (rule kalloc_pool_page)
next
  case (3 s xs p)
  then show ?case by (rule kfree_pool)
next
  case (4 s xs x)
  then show ?case using kpage_bounds(4) [of s x] by (simp add: kmem_inv_def)
next
  case (5 s xs)
  then show ?case by (simp add: kmem_inv_def)
qed

end
