(* ===== verification/Pagetable.thy ===== *)
theory Pagetable
  imports Riscv
begin

unbundle bit_operations_syntax

text \<open>
  The tree that a page table is. \<open>pt_lookup m l pt k\<close> is the leaf entry that a table of
  \<open>l + 1\<close> levels at \<open>pt\<close> has for page number \<open>k\<close>, zero when an interior entry is missing;
  \<open>pt_pages\<close> is the set of pages the table is stored in, and \<open>pt_wf\<close> says that no page is
  used twice in it. Under \<open>pt_wf\<close> a write to a leaf entry changes one translation, and a
  write outside \<open>pt_pages\<close> changes none: these are the two facts every proof about
  \<^verbatim>\<open>kernel/vm.c\<close> rests on.
\<close>

section \<open>Definitions\<close>

definition pte_at :: "memory \<Rightarrow> u64 \<Rightarrow> nat \<Rightarrow> u64" where
  "pte_at m pt i = load64 m (pt + of_nat (8 * i))"

definition pt_index :: "nat \<Rightarrow> nat \<Rightarrow> nat" where
  "pt_index l k = k div 512 ^ l mod 512"

fun pt_pages :: "memory \<Rightarrow> nat \<Rightarrow> u64 \<Rightarrow> u64 set" where
  "pt_pages m 0 pt = {pt}"
| "pt_pages m (Suc l) pt =
     insert pt (\<Union>i \<in> {i. i < 512 \<and> bit (pte_at m pt i) 0}. pt_pages m l (PTE2PA (pte_at m pt i)))"

definition pte_interior :: "u64 \<Rightarrow> bool" where
  "pte_interior e \<longleftrightarrow> bit e 0 \<and> \<not> bit e 1 \<and> \<not> bit e 2 \<and> \<not> bit e 3"

fun pt_wf :: "memory \<Rightarrow> nat \<Rightarrow> u64 \<Rightarrow> bool" where
  "pt_wf m 0 pt = True"
| "pt_wf m (Suc l) pt \<longleftrightarrow>
     (\<forall>i < 512. bit (pte_at m pt i) 0 \<longrightarrow>
        pte_interior (pte_at m pt i) \<and> pt_wf m l (PTE2PA (pte_at m pt i)) \<and>
        pt \<notin> pt_pages m l (PTE2PA (pte_at m pt i)) \<and>
        (\<forall>j < 512. j \<noteq> i \<longrightarrow> bit (pte_at m pt j) 0 \<longrightarrow>
           pt_pages m l (PTE2PA (pte_at m pt i)) \<inter> pt_pages m l (PTE2PA (pte_at m pt j)) = {}))"

fun pt_node :: "memory \<Rightarrow> nat \<Rightarrow> u64 \<Rightarrow> nat \<Rightarrow> u64 option" where
  "pt_node m 0 pt k = Some pt"
| "pt_node m (Suc l) pt k =
     (let e = pte_at m pt (pt_index (Suc l) k) in
      if bit e 0 then pt_node m l (PTE2PA e) k else None)"

definition pt_lookup :: "memory \<Rightarrow> nat \<Rightarrow> u64 \<Rightarrow> nat \<Rightarrow> u64" where
  "pt_lookup m l pt k = (case pt_node m l pt k of None \<Rightarrow> 0 | Some n \<Rightarrow> pte_at m n (k mod 512))"

section \<open>Entries of one table page\<close>

lemma pt_index_less [simp]: "pt_index l k < 512"
  by (simp add: pt_index_def)

lemma pt_index_0 [simp]: "pt_index 0 k = k mod 512"
  by (simp add: pt_index_def)

lemma slot_PX: "pt + 8 * PX l va = pt + of_nat (8 * pt_index l (pgno va))"
proof -
  have "unat va div 2 ^ (12 + 9 * l) = unat va div 4096 div 512 ^ l"
    by (simp add: power_add power_mult flip: div_mult2_eq)
  then have "unat (PX l va) = pt_index l (pgno va)" by (simp add: unat_PX pt_index_def pgno_def)
  then have "PX l va = of_nat (pt_index l (pgno va))" by (metis of_nat_unat ucast_id)
  then show ?thesis by simp
qed

lemma pte_at_agree: "agree m m' (pgno pt) \<Longrightarrow> aligned pt \<Longrightarrow> i < 512 \<Longrightarrow> pte_at m pt i = pte_at m' pt i"
  unfolding pte_at_def by (rule agree_load64) auto

lemma pte_at_store:
  assumes "aligned pt" "i < 512" "j < 512"
  shows "pte_at (store64 m (pt + of_nat (8 * i)) v) pt j = (if j = i then v else pte_at m pt j)"
proof (cases "j = i")
  case False
  then have "8 * i + 8 \<le> 8 * j \<or> 8 * j + 8 \<le> 8 * i" by auto
  then show ?thesis using load64_store64_other [of pt "8 * i" "8 * j" m v] assms False
    by (simp add: pte_at_def)
qed (simp add: pte_at_def)

lemma agree_store_slot:
  "aligned pt \<Longrightarrow> i < 512 \<Longrightarrow> k \<noteq> pgno pt \<Longrightarrow> agree m (store64 m (pt + of_nat (8 * i)) v) k"
  by (rule agree_store64) auto

section \<open>Pages of a table\<close>

lemma pt_root_in_pages [simp]: "pt \<in> pt_pages m l pt"
  by (cases l) auto

lemma aligned_pt_pages: "p \<in> pt_pages m l pt \<Longrightarrow> aligned pt \<Longrightarrow> aligned p"
  by (induction l arbitrary: pt) auto

lemma pt_node_in_pages: "pt_node m l pt k = Some n \<Longrightarrow> n \<in> pt_pages m l pt"
proof (induction l arbitrary: pt)
  case (Suc l)
  let ?e = "pte_at m pt (pt_index (Suc l) k)"
  have "bit ?e 0" "pt_node m l (PTE2PA ?e) k = Some n"
    using Suc.prems by (auto simp: Let_def split: if_splits)
  with Suc.IH show ?case by force
qed simp

lemma pt_child_pages:
  "i < 512 \<Longrightarrow> bit (pte_at m pt i) 0 \<Longrightarrow> pt_pages m l (PTE2PA (pte_at m pt i)) \<subseteq> pt_pages m (Suc l) pt"
  by auto

lemma pt_wf_child:
  assumes "pt_wf m (Suc l) pt" "i < 512" "bit (pte_at m pt i) 0"
  shows "pte_interior (pte_at m pt i)" "pt_wf m l (PTE2PA (pte_at m pt i))"
    "pt \<notin> pt_pages m l (PTE2PA (pte_at m pt i))"
    "\<And>j. j < 512 \<Longrightarrow> j \<noteq> i \<Longrightarrow> bit (pte_at m pt j) 0 \<Longrightarrow>
       pt_pages m l (PTE2PA (pte_at m pt i)) \<inter> pt_pages m l (PTE2PA (pte_at m pt j)) = {}"
  using assms by auto

section \<open>Writes elsewhere\<close>

lemma pt_frame:
  assumes "\<And>p. p \<in> pt_pages m l pt \<Longrightarrow> agree m m' (pgno p)" "aligned pt"
  shows "pt_pages m' l pt = pt_pages m l pt \<and> pt_wf m' l pt = pt_wf m l pt \<and>
    pt_node m' l pt = pt_node m l pt"
  using assms
proof (induction l arbitrary: pt)
  case (Suc l)
  have e: "pte_at m' pt i = pte_at m pt i" if "i < 512" for i
    using pte_at_agree [of m m' pt i] Suc.prems(1) [OF pt_root_in_pages] Suc.prems(2) that by simp
  have IH: "pt_pages m' l (PTE2PA (pte_at m pt i)) = pt_pages m l (PTE2PA (pte_at m pt i)) \<and>
      pt_wf m' l (PTE2PA (pte_at m pt i)) = pt_wf m l (PTE2PA (pte_at m pt i)) \<and>
      pt_node m' l (PTE2PA (pte_at m pt i)) = pt_node m l (PTE2PA (pte_at m pt i))"
    if "i < 512" "bit (pte_at m pt i) 0" for i
    using pt_child_pages [OF that] Suc.prems(1) by (intro Suc.IH) auto
  have "pt_pages m' (Suc l) pt = pt_pages m (Suc l) pt" using e IH by auto
  moreover have "pt_wf m' (Suc l) pt = pt_wf m (Suc l) pt" using e IH by simp
  moreover have "pt_node m' (Suc l) pt k = pt_node m (Suc l) pt k" for k
    using e [of "pt_index (Suc l) k"] IH [of "pt_index (Suc l) k"] by (simp add: Let_def)
  ultimately show ?case by blast
qed auto

lemma pt_frame_lookup:
  assumes "\<And>p. p \<in> pt_pages m l pt \<Longrightarrow> agree m m' (pgno p)" "aligned pt"
  shows "pt_lookup m' l pt = pt_lookup m l pt"
proof (rule ext)
  fix k
  have "pt_node m' l pt k = pt_node m l pt k" using pt_frame [OF assms] by simp
  moreover have "pte_at m' n (k mod 512) = pte_at m n (k mod 512)" if "pt_node m l pt k = Some n" for n
  proof -
    have "n \<in> pt_pages m l pt" using that by (rule pt_node_in_pages)
    then show ?thesis
      using pte_at_agree [of m m' n "k mod 512"] assms aligned_pt_pages [of n m l pt] by simp
  qed
  ultimately show "pt_lookup m' l pt k = pt_lookup m l pt k" by (simp add: pt_lookup_def split: option.split)
qed

section \<open>Replacing one subtree\<close>

text \<open>
  \<open>pt_graft m l pt i m'\<close>: memory \<open>m'\<close> differs from \<open>m\<close> below the table page \<open>pt\<close> only at
  entry \<open>i\<close>, which in \<open>m'\<close> points to a well-formed subtree that shares no page with the rest.
\<close>

definition pt_rest :: "memory \<Rightarrow> nat \<Rightarrow> u64 \<Rightarrow> nat \<Rightarrow> u64 set" where
  "pt_rest m l pt i =
     insert pt (\<Union>j \<in> {j. j < 512 \<and> j \<noteq> i \<and> bit (pte_at m pt j) 0}. pt_pages m l (PTE2PA (pte_at m pt j)))"

definition pt_graft :: "memory \<Rightarrow> nat \<Rightarrow> u64 \<Rightarrow> nat \<Rightarrow> memory \<Rightarrow> bool" where
  "pt_graft m l pt i m' \<longleftrightarrow>
     (\<forall>j < 512. j \<noteq> i \<longrightarrow> pte_at m' pt j = pte_at m pt j) \<and>
     (\<forall>p \<in> pt_rest m l pt i. p \<noteq> pt \<longrightarrow> agree m m' (pgno p)) \<and>
     pte_interior (pte_at m' pt i) \<and> pt_wf m' l (PTE2PA (pte_at m' pt i)) \<and>
     pt_pages m' l (PTE2PA (pte_at m' pt i)) \<inter> pt_rest m l pt i = {}"

lemma pt_graft_sibling:
  assumes "pt_graft m l pt i m'" "pt_wf m (Suc l) pt" "j < 512" "j \<noteq> i" "bit (pte_at m pt j) 0"
  shows "pte_at m' pt j = pte_at m pt j"
    and "pt_pages m' l (PTE2PA (pte_at m pt j)) = pt_pages m l (PTE2PA (pte_at m pt j))"
    and "pt_wf m' l (PTE2PA (pte_at m pt j)) = pt_wf m l (PTE2PA (pte_at m pt j))"
    and "pt_lookup m' l (PTE2PA (pte_at m pt j)) = pt_lookup m l (PTE2PA (pte_at m pt j))"
proof -
  show "pte_at m' pt j = pte_at m pt j" using assms by (simp add: pt_graft_def)
  have "agree m m' (pgno p)" if "p \<in> pt_pages m l (PTE2PA (pte_at m pt j))" for p
  proof -
    have "p \<in> pt_rest m l pt i" using that assms by (auto simp: pt_rest_def)
    moreover have "p \<noteq> pt" using that pt_wf_child(3) [OF assms(2,3,5)] by auto
    ultimately show ?thesis using assms(1) by (simp add: pt_graft_def)
  qed
  note fr = this
  show "pt_pages m' l (PTE2PA (pte_at m pt j)) = pt_pages m l (PTE2PA (pte_at m pt j))"
    "pt_wf m' l (PTE2PA (pte_at m pt j)) = pt_wf m l (PTE2PA (pte_at m pt j))"
    using pt_frame [OF fr] by auto
  show "pt_lookup m' l (PTE2PA (pte_at m pt j)) = pt_lookup m l (PTE2PA (pte_at m pt j))"
    using pt_frame_lookup [OF fr] by auto
qed

lemma pt_graft_bits: "pt_graft m l pt i m' \<Longrightarrow> bit (pte_at m' pt i) 0"
  by (simp add: pt_graft_def pte_interior_def)

lemma pt_graft_pages:
  assumes "pt_graft m l pt i m'" "pt_wf m (Suc l) pt" "i < 512"
  shows "pt_pages m' (Suc l) pt = pt_rest m l pt i \<union> pt_pages m' l (PTE2PA (pte_at m' pt i))"
proof -
  let ?J = "\<lambda>m. {j. j < 512 \<and> j \<noteq> i \<and> bit (pte_at m pt j) 0}"
  have J: "?J m' = ?J m" using assms(1) by (auto simp: pt_graft_def)
  have "{j. j < 512 \<and> bit (pte_at m' pt j) 0} = insert i (?J m)"
    using pt_graft_bits [OF assms(1)] assms(3) J by auto
  moreover have "(\<Union>j \<in> ?J m. pt_pages m' l (PTE2PA (pte_at m' pt j)))
      = (\<Union>j \<in> ?J m. pt_pages m l (PTE2PA (pte_at m pt j)))"
    using pt_graft_sibling(1,2) [OF assms(1,2)] by (intro SUP_cong) auto
  ultimately show ?thesis by (auto simp: pt_rest_def)
qed

lemma pt_graft_wf:
  assumes "pt_graft m l pt i m'" "pt_wf m (Suc l) pt" "i < 512"
  shows "pt_wf m' (Suc l) pt"
proof -
  have sub: "pt_pages m l (PTE2PA (pte_at m pt j)) \<subseteq> pt_rest m l pt i"
    if "j < 512" "j \<noteq> i" "bit (pte_at m pt j) 0" for j
    using that by (auto simp: pt_rest_def)
  have new: "pte_interior (pte_at m' pt i)" "pt_wf m' l (PTE2PA (pte_at m' pt i))"
    "pt_pages m' l (PTE2PA (pte_at m' pt i)) \<inter> pt_rest m l pt i = {}" "pt \<in> pt_rest m l pt i"
    using assms(1) by (auto simp: pt_graft_def pt_rest_def)
  have e: "pte_at m' pt j = pte_at m pt j" if "j < 512" "j \<noteq> i" for j
    using assms(1) that by (simp add: pt_graft_def)
  have ok: "pte_interior (pte_at m' pt j) \<and> pt_wf m' l (PTE2PA (pte_at m' pt j)) \<and>
      pt \<notin> pt_pages m' l (PTE2PA (pte_at m' pt j))" if "j < 512" "bit (pte_at m' pt j) 0" for j
  proof (cases "j = i")
    case False
    then show ?thesis
      using e that pt_graft_sibling [OF assms(1,2) that(1)] pt_wf_child [OF assms(2) that(1)] by simp
  qed (use new in auto)
  have dj: "pt_pages m' l (PTE2PA (pte_at m' pt j)) \<inter> pt_pages m' l (PTE2PA (pte_at m' pt j')) = {}"
    if "j < 512" "j' < 512" "j' \<noteq> j" "bit (pte_at m' pt j) 0" "bit (pte_at m' pt j') 0" for j j'
  proof -
    consider "j = i" | "j' = i" | "j \<noteq> i" "j' \<noteq> i" by blast
    then show ?thesis
    proof cases
      case 1
      then show ?thesis using new sub [of j'] e [of j'] that pt_graft_sibling(2) [OF assms(1,2), of j'] by auto
    next
      case 2
      then show ?thesis using new sub [of j] e [of j] that pt_graft_sibling(2) [OF assms(1,2), of j] by auto
    next
      case 3
      then show ?thesis using e [of j] e [of j'] that pt_graft_sibling(2) [OF assms(1,2)]
          pt_wf_child(4) [OF assms(2), of j j'] by auto
    qed
  qed
  show ?thesis using ok dj by simp
qed

lemma pt_lookup_Suc:
  "pt_lookup m (Suc l) pt k =
     (let e = pte_at m pt (pt_index (Suc l) k) in if bit e 0 then pt_lookup m l (PTE2PA e) k else 0)"
  by (simp add: pt_lookup_def Let_def)

lemma pt_graft_lookup:
  assumes "pt_graft m l pt i m'" "pt_wf m (Suc l) pt"
  shows "pt_lookup m' (Suc l) pt k =
    (if pt_index (Suc l) k = i then pt_lookup m' l (PTE2PA (pte_at m' pt i)) k else pt_lookup m (Suc l) pt k)"
proof (cases "pt_index (Suc l) k = i")
  case True
  then show ?thesis using pt_graft_bits [OF assms(1)] by (simp add: pt_lookup_Suc)
next
  case False
  then have "pte_at m' pt (pt_index (Suc l) k) = pte_at m pt (pt_index (Suc l) k)"
    using assms(1) by (simp add: pt_graft_def)
  then show ?thesis
    using False pt_graft_sibling(4) [OF assms, of "pt_index (Suc l) k"] by (simp add: pt_lookup_Suc Let_def)
qed

section \<open>Writing a leaf entry\<close>

text \<open>Two page numbers have the same entry in a table of \<open>l + 1\<close> levels.\<close>

lemma pt_index_split: "k mod 512 ^ Suc l = pt_index l k * 512 ^ l + k mod 512 ^ l"
  using mod_mult2_eq [of k "512 ^ l" 512] by (simp add: pt_index_def mult.commute)

lemma pt_same_slot:
  "j mod 512 ^ Suc l = k mod 512 ^ Suc l \<longleftrightarrow> pt_index l j = pt_index l k \<and> j mod 512 ^ l = k mod 512 ^ l"
proof
  assume eq: "j mod 512 ^ Suc l = k mod 512 ^ Suc l"
  have "j mod 512 ^ Suc l div 512 ^ l = pt_index l j" "k mod 512 ^ Suc l div 512 ^ l = pt_index l k"
    unfolding pt_index_split by simp_all
  moreover have "j mod 512 ^ Suc l mod 512 ^ l = j mod 512 ^ l" "k mod 512 ^ Suc l mod 512 ^ l = k mod 512 ^ l"
    by (simp_all add: mod_mod_cancel)
  ultimately show "pt_index l j = pt_index l k \<and> j mod 512 ^ l = k mod 512 ^ l" using eq by metis
qed (simp add: pt_index_split del: power_Suc)

lemma pt_store:
  assumes "pt_wf m l pt" "aligned pt" "pt_node m l pt k = Some n"
    and "m' = store64 m (n + of_nat (8 * (k mod 512))) v"
  shows "pt_wf m' l pt \<and> pt_pages m' l pt = pt_pages m l pt \<and>
    (\<forall>j. pt_lookup m' l pt j = (if j mod 512 ^ Suc l = k mod 512 ^ Suc l then v else pt_lookup m l pt j))"
  using assms(1-3)
proof (induction l arbitrary: pt)
  case 0
  then show ?case
    using pte_at_store [of pt "k mod 512" _ m v] assms(4) by (simp add: pt_lookup_def)
next
  case (Suc l)
  let ?i = "pt_index (Suc l) k"
  let ?c = "PTE2PA (pte_at m pt ?i)"
  have b: "bit (pte_at m pt ?i) 0" and n: "pt_node m l ?c k = Some n"
    using Suc.prems by (auto simp: Let_def split: if_splits)
  note ch = pt_wf_child [OF Suc.prems(1) pt_index_less b]
  have nc: "n \<in> pt_pages m l ?c" using n by (rule pt_node_in_pages)
  then have an: "aligned n" by (rule aligned_pt_pages) simp
  have agr: "agree m m' (pgno p)" if "p \<noteq> n" "aligned p" for p
    unfolding assms(4) using that an by (intro agree_store_slot) (auto simp: aligned_pgno_eq)
  have "pt \<noteq> n" using ch(3) nc by blast
  then have e: "pte_at m' pt i = pte_at m pt i" if "i < 512" for i
    using pte_at_agree [OF agr [of pt] Suc.prems(2) that] Suc.prems(2) by simp
  have IH: "pt_wf m' l ?c" "pt_pages m' l ?c = pt_pages m l ?c"
    "\<And>j. pt_lookup m' l ?c j = (if j mod 512 ^ Suc l = k mod 512 ^ Suc l then v else pt_lookup m l ?c j)"
    using Suc.IH [OF ch(2) _ n] by auto
  have dj: "pt_pages m l ?c \<inter> pt_rest m l pt ?i = {}" using ch(3,4) by (auto simp: pt_rest_def)
  have "agree m m' (pgno p)" if "p \<in> pt_rest m l pt ?i" for p
  proof -
    have "aligned p" using that Suc.prems(2) by (auto simp: pt_rest_def intro: aligned_pt_pages)
    moreover have "p \<noteq> n" using that nc dj by auto
    ultimately show ?thesis by (intro agr)
  qed
  then have g: "pt_graft m l pt ?i m'"
    unfolding pt_graft_def using e ch(1) IH(1,2) dj by auto
  have "pt_pages m (Suc l) pt = pt_rest m l pt ?i \<union> pt_pages m l ?c"
    using b by (auto simp: pt_rest_def)
  moreover have "pt_lookup m' (Suc l) pt j =
    (if j mod 512 ^ Suc (Suc l) = k mod 512 ^ Suc (Suc l) then v else pt_lookup m (Suc l) pt j)" for j
    unfolding pt_graft_lookup [OF g Suc.prems(1)] pt_same_slot [of j "Suc l" k]
    using IH(3) [of j] e b by (auto simp: pt_lookup_Suc simp del: power_Suc)
  ultimately show ?case
    using pt_graft_wf [OF g Suc.prems(1)] pt_graft_pages [OF g Suc.prems(1)] IH(2) e by auto
qed

section \<open>Empty tables\<close>

lemma pt_empty:
  assumes "\<And>i. i < 512 \<Longrightarrow> pte_at m pt i = 0"
  shows "pt_wf m l pt \<and> pt_pages m l pt = {pt} \<and> pt_lookup m l pt k = 0"
  using assms by (cases l) (auto simp: pt_lookup_def)

section \<open>Leaf tables are not shared\<close>

lemma pt_node_inj:
  assumes "pt_wf m l pt" "pt_node m l pt j = Some n" "pt_node m l pt k = Some n"
  shows "j mod 512 ^ Suc l div 512 = k mod 512 ^ Suc l div 512"
  using assms
proof (induction l arbitrary: pt)
  case (Suc l)
  let ?i = "pt_index (Suc l) j" and ?i' = "pt_index (Suc l) k"
  have b: "bit (pte_at m pt ?i) 0" "pt_node m l (PTE2PA (pte_at m pt ?i)) j = Some n"
    "bit (pte_at m pt ?i') 0" "pt_node m l (PTE2PA (pte_at m pt ?i')) k = Some n"
    using Suc.prems by (auto simp: Let_def split: if_splits)
  have eq: "?i = ?i'"
    using pt_node_in_pages [OF b(2)] pt_node_in_pages [OF b(4)]
      pt_wf_child(4) [OF Suc.prems(1) pt_index_less b(1) pt_index_less _ b(3)] by fastforce
  then have IH: "j mod 512 ^ Suc l div 512 = k mod 512 ^ Suc l div 512"
    using Suc.IH [of "PTE2PA (pte_at m pt ?i)"] pt_wf_child(2) [OF Suc.prems(1) pt_index_less b(1)] b by simp
  have "(q * 512 ^ Suc l + r) div 512 = q * 512 ^ l + r div 512" for q r :: nat
    by (simp add: mult.left_commute [of q 512] div_mult_self1)
  then show ?case unfolding pt_index_split [of j "Suc l"] pt_index_split [of k "Suc l"] using eq IH by metis
qed simp

end
