(* ===== verification/Vm.thy ===== *)
theory Vm
  imports Kalloc Pagetable
begin

unbundle bit_operations_syntax

text \<open>
  Page tables, \<^verbatim>\<open>kernel/vm.c\<close>: walking and building Sv39 tables in the byte memory, mapping
  and unmapping, growing, shrinking, copying and freeing user address spaces, and the
  kernel's direct map (with \<open>proc_mapstacks\<close> of \<^verbatim>\<open>kernel/proc.c\<close>). The kernel runs on the
  direct map, so a kernel pointer is a physical address. The C type \<^verbatim>\<open>int\<close> of \<open>perm\<close> only
  ever carries the ten flag bits of an entry and is a 64-bit word here.
\<close>

section \<open>State\<close>

record kvm = kmem +
  kernel_pagetable :: u64
  etext :: u64
  trampoline :: u64
  satp :: "nat \<Rightarrow> u64"

section \<open>Operations\<close>

fun walk_loop :: "nat \<Rightarrow> u64 \<Rightarrow> u64 \<Rightarrow> bool \<Rightarrow> 'a kmem_scheme \<Rightarrow> (u64 \<times> 'a kmem_scheme) res" where
  "walk_loop 0 pagetable va alloc s = Ok (pagetable + 8 * PX 0 va, s)"
| "walk_loop (Suc l) pagetable va alloc s =
     (let pte = pagetable + 8 * PX (Suc l) va in
      if load64 (mem s) pte AND PTE_V \<noteq> 0
      then walk_loop l (PTE2PA (load64 (mem s) pte)) va alloc s
      else if \<not> alloc then Ok (0, s)
      else bind_res (kalloc s) (\<lambda>(pagetable, s).
        if pagetable = 0 then Ok (0, s)
        else
          let s = s\<lparr>mem := memset (mem s) pagetable 0 (unat PGSIZE)\<rparr>;
              s = s\<lparr>mem := store64 (mem s) pte (PA2PTE pagetable OR PTE_V)\<rparr>
          in walk_loop l pagetable va alloc s))"

definition walk :: "u64 \<Rightarrow> u64 \<Rightarrow> bool \<Rightarrow> 'a kmem_scheme \<Rightarrow> (u64 \<times> 'a kmem_scheme) res" where
  "walk pagetable va alloc s =
     (if va \<ge> MAXVA then Panic ''walk'' else walk_loop 2 pagetable va alloc s)"

lemma walk_Ok_less: "walk pt va alloc s = Ok x \<Longrightarrow> unat va < 2 ^ 38"
  by (auto simp: walk_def not_le less_MAXVA split: if_splits)

lemma unat_next_page: "unat a < 2 ^ 38 \<Longrightarrow> unat (a + PGSIZE) = unat a + 4096"
  by (simp add: PGSIZE_def unat_word_ariths)

definition walkaddr :: "u64 \<Rightarrow> u64 \<Rightarrow> 'a kmem_scheme \<Rightarrow> u64 res" where
  "walkaddr pagetable va s =
     (if va \<ge> MAXVA then Ok 0
      else bind_res (walk pagetable va False s) (\<lambda>(pte, s).
        if pte = 0 then Ok 0
        else if load64 (mem s) pte AND PTE_V = 0 then Ok 0
        else if load64 (mem s) pte AND PTE_U = 0 then Ok 0
        else Ok (PTE2PA (load64 (mem s) pte))))"

text \<open>The loop ends because \<open>walk\<close> panics at \<open>MAXVA\<close>.\<close>

function mappages_loop :: "u64 \<Rightarrow> u64 \<Rightarrow> u64 \<Rightarrow> u64 \<Rightarrow> u64 \<Rightarrow> 'a kmem_scheme \<Rightarrow> (int \<times> 'a kmem_scheme) res" where
  "mappages_loop pagetable a lst pa perm s =
     bind_res (walk pagetable a True s) (\<lambda>(pte, s).
       if pte = 0 then Ok (-1, s)
       else
         let s = s\<lparr>mem := store64 (mem s) pte (PA2PTE pa OR perm OR PTE_V)\<rparr> in
         if a = lst then Ok (0, s)
         else mappages_loop pagetable (a + PGSIZE) lst (pa + PGSIZE) perm s)"
  by pat_completeness auto
termination
  by (relation "measure (\<lambda>(_, a, _). 2 ^ 38 - unat a)") (auto dest!: walk_Ok_less simp: unat_next_page)

declare mappages_loop.simps [simp del]

definition mappages :: "u64 \<Rightarrow> u64 \<Rightarrow> u64 \<Rightarrow> u64 \<Rightarrow> u64 \<Rightarrow> 'a kmem_scheme \<Rightarrow> (int \<times> 'a kmem_scheme) res" where
  "mappages pagetable va sz pa perm s =
     (if sz = 0 then Panic ''mappages: size''
      else mappages_loop pagetable (PGROUNDDOWN va) (PGROUNDDOWN (va + sz - 1)) pa perm s)"

definition kvmmap :: "u64 \<Rightarrow> u64 \<Rightarrow> u64 \<Rightarrow> u64 \<Rightarrow> u64 \<Rightarrow> 'a kmem_scheme \<Rightarrow> 'a kmem_scheme res" where
  "kvmmap kpgtbl va pa sz perm s =
     bind_res (mappages kpgtbl va sz pa perm s) (\<lambda>(r, s). if r \<noteq> 0 then Panic ''kvmmap'' else Ok s)"

definition NPROC :: nat where "NPROC = 64"

fun mapstacks_loop :: "u64 \<Rightarrow> nat list \<Rightarrow> 'a kmem_scheme \<Rightarrow> 'a kmem_scheme res" where
  "mapstacks_loop kpgtbl [] s = Ok s"
| "mapstacks_loop kpgtbl (p # ps) s =
     bind_res (kalloc s) (\<lambda>(pa, s).
       if pa = 0 then Panic ''kalloc''
       else bind_res (kvmmap kpgtbl (KSTACK p) pa PGSIZE (PTE_R OR PTE_W) s) (mapstacks_loop kpgtbl ps))"

definition proc_mapstacks :: "u64 \<Rightarrow> 'a kmem_scheme \<Rightarrow> 'a kmem_scheme res" where
  "proc_mapstacks kpgtbl s = mapstacks_loop kpgtbl [0..<NPROC] s"

definition kvmmake :: "'a kvm_scheme \<Rightarrow> (u64 \<times> 'a kvm_scheme) res" where
  "kvmmake s =
     bind_res (kalloc s) (\<lambda>(kpgtbl, s).
       let s = s\<lparr>mem := memset (mem s) kpgtbl 0 (unat PGSIZE)\<rparr> in
       bind_res (kvmmap kpgtbl UART0 UART0 PGSIZE (PTE_R OR PTE_W) s) (\<lambda>s.
       bind_res (kvmmap kpgtbl VIRTIO0 VIRTIO0 PGSIZE (PTE_R OR PTE_W) s) (\<lambda>s.
       bind_res (kvmmap kpgtbl PLIC PLIC 0x400000 (PTE_R OR PTE_W) s) (\<lambda>s.
       bind_res (kvmmap kpgtbl KERNBASE KERNBASE (etext s - KERNBASE) (PTE_R OR PTE_X) s) (\<lambda>s.
       bind_res (kvmmap kpgtbl (etext s) (etext s) (PHYSTOP - etext s) (PTE_R OR PTE_W) s) (\<lambda>s.
       bind_res (kvmmap kpgtbl TRAMPOLINE (trampoline s) PGSIZE (PTE_R OR PTE_X) s) (\<lambda>s.
       bind_res (proc_mapstacks kpgtbl s) (\<lambda>s. Ok (kpgtbl, s)))))))))"

definition kvminit :: "'a kvm_scheme \<Rightarrow> 'a kvm_scheme res" where
  "kvminit s = bind_res (kvmmake s) (\<lambda>(kpgtbl, s). Ok (s\<lparr>kernel_pagetable := kpgtbl\<rparr>))"

definition kvminithart :: "'a kvm_scheme \<Rightarrow> 'a kvm_scheme" where
  "kvminithart s = s\<lparr>satp := (satp s)(cpuid s := MAKE_SATP (kernel_pagetable s))\<rparr>"

function uvmunmap_loop :: "u64 \<Rightarrow> u64 \<Rightarrow> u64 \<Rightarrow> bool \<Rightarrow> 'a kmem_scheme \<Rightarrow> 'a kmem_scheme res" where
  "uvmunmap_loop pagetable a end_va do_free s =
     (if a < end_va then
        bind_res (walk pagetable a False s) (\<lambda>(pte, s).
          if pte = 0 then Panic ''uvmunmap: walk''
          else if load64 (mem s) pte AND PTE_V = 0 then Panic ''uvmunmap: not mapped''
          else if PTE_FLAGS (load64 (mem s) pte) = PTE_V then Panic ''uvmunmap: not a leaf''
          else bind_res (if do_free then kfree (PTE2PA (load64 (mem s) pte)) s else Ok s) (\<lambda>s.
            let s = s\<lparr>mem := store64 (mem s) pte 0\<rparr> in
            uvmunmap_loop pagetable (a + PGSIZE) end_va do_free s))
      else Ok s)"
  by pat_completeness auto
termination
  by (relation "measure (\<lambda>(_, a, _). 2 ^ 38 - unat a)") (auto dest!: walk_Ok_less simp: unat_next_page)

declare uvmunmap_loop.simps [simp del]

definition uvmunmap :: "u64 \<Rightarrow> u64 \<Rightarrow> u64 \<Rightarrow> bool \<Rightarrow> 'a kmem_scheme \<Rightarrow> 'a kmem_scheme res" where
  "uvmunmap pagetable va npages do_free s =
     (if va mod PGSIZE \<noteq> 0 then Panic ''uvmunmap: not aligned''
      else uvmunmap_loop pagetable va (va + npages * PGSIZE) do_free s)"

definition uvmcreate :: "'a kmem_scheme \<Rightarrow> (u64 \<times> 'a kmem_scheme) res" where
  "uvmcreate s =
     bind_res (kalloc s) (\<lambda>(pagetable, s).
       if pagetable = 0 then Ok (0, s)
       else Ok (pagetable, s\<lparr>mem := memset (mem s) pagetable 0 (unat PGSIZE)\<rparr>))"

definition uvminit :: "u64 \<Rightarrow> u8 list \<Rightarrow> 'a kmem_scheme \<Rightarrow> 'a kmem_scheme res" where
  "uvminit pagetable src s =
     (if length src \<ge> unat PGSIZE then Panic ''inituvm: more than a page''
      else bind_res (kalloc s) (\<lambda>(pg, s).
        let s = s\<lparr>mem := memset (mem s) pg 0 (unat PGSIZE)\<rparr> in
        bind_res (mappages pagetable 0 PGSIZE pg (PTE_W OR PTE_R OR PTE_X OR PTE_U) s) (\<lambda>(_, s).
          Ok (s\<lparr>mem := write_bytes (mem s) pg src\<rparr>))))"

text \<open>The page count is a C \<^verbatim>\<open>int\<close>: it is cut to 32 bits and sign-extended again.\<close>

definition uvmdealloc :: "u64 \<Rightarrow> u64 \<Rightarrow> u64 \<Rightarrow> 'a kmem_scheme \<Rightarrow> (u64 \<times> 'a kmem_scheme) res" where
  "uvmdealloc pagetable oldsz newsz s =
     (if newsz \<ge> oldsz then Ok (oldsz, s)
      else if PGROUNDUP newsz < PGROUNDUP oldsz then
        let npages = ucast ((PGROUNDUP oldsz - PGROUNDUP newsz) div PGSIZE) :: u32 in
        bind_res (uvmunmap pagetable (PGROUNDUP newsz) (scast npages) True s) (\<lambda>s. Ok (newsz, s))
      else Ok (newsz, s))"

lemma mappages_Ok_less: "mappages pt va sz pa perm s = Ok x \<Longrightarrow> unat va < 2 ^ 38 + 4096"
proof -
  assume "mappages pt va sz pa perm s = Ok x"
  then have "unat (PGROUNDDOWN va) < 2 ^ 38"
    by (auto simp: mappages_def mappages_loop.simps [of pt "PGROUNDDOWN va"] split: if_splits
        dest!: walk_Ok_less)
  moreover have "unat va = unat (PGROUNDDOWN va) + unat va mod 4096"
    by (simp add: unat_PGROUNDDOWN)
  moreover have "unat va mod 4096 < 4096" by simp
  ultimately show ?thesis by linarith
qed

function uvmalloc_loop :: "u64 \<Rightarrow> u64 \<Rightarrow> u64 \<Rightarrow> u64 \<Rightarrow> 'a kmem_scheme \<Rightarrow> (u64 \<times> 'a kmem_scheme) res" where
  "uvmalloc_loop pagetable oldsz newsz a s =
     (if a < newsz then
        bind_res (kalloc s) (\<lambda>(pg, s).
          if pg = 0 then bind_res (uvmdealloc pagetable a oldsz s) (\<lambda>(_, s). Ok (0, s))
          else
            let s = s\<lparr>mem := memset (mem s) pg 0 (unat PGSIZE)\<rparr> in
            bind_res (mappages pagetable a PGSIZE pg (PTE_W OR PTE_X OR PTE_R OR PTE_U) s) (\<lambda>(r, s).
              if r \<noteq> 0 then
                bind_res (kfree pg s) (\<lambda>s.
                  bind_res (uvmdealloc pagetable a oldsz s) (\<lambda>(_, s). Ok (0, s)))
              else uvmalloc_loop pagetable oldsz newsz (a + PGSIZE) s))
      else Ok (newsz, s))"
  by pat_completeness auto
termination
proof (relation "measure (\<lambda>(_, _, _, a, _). 2 ^ 38 + 4096 - unat a)", goal_cases)
  case (2 pt oldsz newsz a s x pg s1 s2 y r s3)
  then have "unat a < 2 ^ 38 + 4096" by (auto dest!: mappages_Ok_less)
  moreover from this have "unat (a + PGSIZE) = unat a + 4096" by (simp add: PGSIZE_def unat_word_ariths)
  ultimately show ?case by simp
qed simp

declare uvmalloc_loop.simps [simp del]

definition uvmalloc :: "u64 \<Rightarrow> u64 \<Rightarrow> u64 \<Rightarrow> 'a kmem_scheme \<Rightarrow> (u64 \<times> 'a kmem_scheme) res" where
  "uvmalloc pagetable oldsz newsz s =
     (if newsz < oldsz then Ok (oldsz, s)
      else uvmalloc_loop pagetable (PGROUNDUP oldsz) newsz (PGROUNDUP oldsz) s)"

text \<open>
  \<open>freewalk\<close> recurses along interior entries; the code has no bound on the depth, the
  definition has \<open>fuel\<close>. Three levels are what \<open>walk\<close> builds.
\<close>

fun freewalk_loop :: "(u64 \<Rightarrow> 'a kmem_scheme \<Rightarrow> 'a kmem_scheme res) \<Rightarrow> u64 \<Rightarrow> nat list \<Rightarrow>
    'a kmem_scheme \<Rightarrow> 'a kmem_scheme res" where
  "freewalk_loop rec pagetable [] s = Ok s"
| "freewalk_loop rec pagetable (i # is) s =
     (let slot = pagetable + of_nat (8 * i); pte = load64 (mem s) slot in
      if pte AND PTE_V \<noteq> 0 \<and> pte AND (PTE_R OR PTE_W OR PTE_X) = 0 then
        bind_res (rec (PTE2PA pte) s) (\<lambda>s.
          freewalk_loop rec pagetable is (s\<lparr>mem := store64 (mem s) slot 0\<rparr>))
      else if pte AND PTE_V \<noteq> 0 then Panic ''freewalk: leaf''
      else freewalk_loop rec pagetable is s)"

fun freewalk :: "nat \<Rightarrow> u64 \<Rightarrow> 'a kmem_scheme \<Rightarrow> 'a kmem_scheme res" where
  "freewalk 0 pagetable s = OutOfFuel"
| "freewalk (Suc fuel) pagetable s =
     bind_res (freewalk_loop (freewalk fuel) pagetable [0..<512] s) (kfree pagetable)"

definition uvmfree :: "u64 \<Rightarrow> u64 \<Rightarrow> 'a kmem_scheme \<Rightarrow> 'a kmem_scheme res" where
  "uvmfree pagetable sz s =
     bind_res (if sz > 0 then uvmunmap pagetable 0 (PGROUNDUP sz div PGSIZE) True s else Ok s)
       (freewalk 3 pagetable)"

function uvmcopy_loop :: "u64 \<Rightarrow> u64 \<Rightarrow> u64 \<Rightarrow> u64 \<Rightarrow> 'a kmem_scheme \<Rightarrow> (int \<times> 'a kmem_scheme) res" where
  "uvmcopy_loop old new sz i s =
     (if i < sz then
        bind_res (walk old i False s) (\<lambda>(pte, s).
          if pte = 0 then Panic ''uvmcopy: pte should exist''
          else if load64 (mem s) pte AND PTE_V = 0 then Panic ''uvmcopy: page not present''
          else
            let s = s\<lparr>mem := store64 (mem s) pte (load64 (mem s) pte AND NOT PTE_W OR PTE_RSW)\<rparr>;
                pa = PTE2PA (load64 (mem s) pte);
                flags = PTE_FLAGS (load64 (mem s) pte)
            in bind_res (mappages new i PGSIZE pa flags s) (\<lambda>(r, s).
              if r \<noteq> 0
              then bind_res (uvmunmap new 0 (i div PGSIZE) True s) (\<lambda>s. Ok (-1, s))
              else uvmcopy_loop old new sz (i + PGSIZE) (add_kmem_ref pa s)))
      else Ok (0, s))"
  by pat_completeness auto
termination
  by (relation "measure (\<lambda>(_, _, _, i, _). 2 ^ 38 - unat i)") (auto dest!: walk_Ok_less simp: unat_next_page)

declare uvmcopy_loop.simps [simp del]

definition uvmcopy :: "u64 \<Rightarrow> u64 \<Rightarrow> u64 \<Rightarrow> 'a kmem_scheme \<Rightarrow> (int \<times> 'a kmem_scheme) res" where
  "uvmcopy old new sz s = uvmcopy_loop old new sz 0 s"

definition uvmclear :: "u64 \<Rightarrow> u64 \<Rightarrow> 'a kmem_scheme \<Rightarrow> 'a kmem_scheme res" where
  "uvmclear pagetable va s =
     bind_res (walk pagetable va False s) (\<lambda>(pte, s).
       if pte = 0 then Panic ''uvmclear''
       else Ok (s\<lparr>mem := store64 (mem s) pte (load64 (mem s) pte AND NOT PTE_U)\<rparr>))"

section \<open>Copying between kernel and user memory\<close>

lemma unat_page_rest: "unat (a - PGROUNDDOWN a) = unat a mod 4096"
proof -
  have "unat (PGROUNDDOWN a) \<le> unat a" by (simp add: unat_PGROUNDDOWN)
  then have "unat (a - PGROUNDDOWN a) = unat a - unat (PGROUNDDOWN a)"
    by (simp add: unat_sub word_le_nat_alt)
  then show ?thesis by (simp add: unat_PGROUNDDOWN minus_div_mult_eq_mod)
qed

lemma chunk_pos: "0 < unat (PGSIZE - (a - PGROUNDDOWN a))" "unat (PGSIZE - (a - PGROUNDDOWN a)) = 4096 - unat a mod 4096"
proof -
  have "unat (a - PGROUNDDOWN a) < 4096" by (simp add: unat_page_rest)
  then show "unat (PGSIZE - (a - PGROUNDDOWN a)) = 4096 - unat a mod 4096"
    using unat_sub [of "a - PGROUNDDOWN a" PGSIZE] by (simp add: PGSIZE_def word_le_nat_alt unat_page_rest)
  then show "0 < unat (PGSIZE - (a - PGROUNDDOWN a))" by simp
qed

text \<open>
  The copy-on-write branch of \<open>copyout\<close>: the destination is not writable but marked with
  \<open>PTE_RSW\<close>. The result is zero, or -1 where the code returns -1.
\<close>

definition copyout_cow :: "u64 \<Rightarrow> u64 \<Rightarrow> u64 \<Rightarrow> u64 \<Rightarrow> 'a kmem_scheme \<Rightarrow> (int \<times> 'a kmem_scheme) res" where
  "copyout_cow pagetable va0 pte pa0 s =
     bind_res (acquire_ref_lock s) (\<lambda>s.
       bind_res
         (if get_kmem_ref pa0 s = 1
          then Ok (0, s\<lparr>mem := store64 (mem s) pte ((load64 (mem s) pte OR PTE_W) AND NOT PTE_RSW)\<rparr>)
          else bind_res (kalloc s) (\<lambda>(pg, s).
            if pg = 0 then Ok (-1, s)
            else
              let s = s\<lparr>mem := memmove (mem s) pg pa0 (unat PGSIZE)\<rparr>;
                  new_flags = (PTE_FLAGS (load64 (mem s) pte) OR PTE_RSW) AND NOT PTE_W
              in bind_res (mappages pagetable va0 PGSIZE pg new_flags s) (\<lambda>(r, s).
                if r \<noteq> 0 then bind_res (kfree pg s) (\<lambda>s. Ok (-1, s))
                else bind_res (kfree pa0 s) (\<lambda>s. Ok (0, s)))))
         (\<lambda>(r, s). bind_res (release_ref_lock s) (\<lambda>s. Ok (r, s))))"

text \<open>
  Kernel buffers that are not pages of the pool, such as disk buffers and variables on the
  kernel stack, are byte lists: \<open>copyout\<close> takes the bytes it is to copy, \<open>copyin\<close> and \<open>copyinstr\<close>
  return the bytes they have stored through \<open>dst\<close> next to their result.
\<close>

function copyout :: "u64 \<Rightarrow> u64 \<Rightarrow> u8 list \<Rightarrow> 'a kmem_scheme \<Rightarrow> (int \<times> 'a kmem_scheme) res" where
  "copyout pagetable dstva src s =
     (if length src > 0 then
        let va0 = PGROUNDDOWN dstva in
        if va0 \<ge> MAXVA then Ok (-1, s)
        else bind_res (walk pagetable va0 False s) (\<lambda>(pte, s).
          if pte = 0 then Ok (-1, s)
          else if load64 (mem s) pte AND PTE_V = 0 \<or> load64 (mem s) pte AND PTE_U = 0 then Ok (-1, s)
          else
            bind_res
              (if load64 (mem s) pte AND PTE_W = 0 \<and> load64 (mem s) pte AND PTE_RSW \<noteq> 0
               then copyout_cow pagetable va0 pte (PTE2PA (load64 (mem s) pte)) s
               else Ok (0, s)) (\<lambda>(r, s).
              if r \<noteq> 0 then Ok (-1, s)
              else bind_res (walkaddr pagetable va0 s) (\<lambda>pa0.
                if pa0 = 0 then Ok (-1, s)
                else
                  let n = unat (PGSIZE - (dstva - va0));
                      n = (if n > length src then length src else n);
                      s = s\<lparr>mem := write_bytes (mem s) (pa0 + (dstva - va0)) (take n src)\<rparr>
                  in copyout pagetable (va0 + PGSIZE) (drop n src) s)))
      else Ok (0, s))"
  by pat_completeness auto
termination
proof (relation "measure (\<lambda>(_, _, src, _). length src)", goal_cases)
  case (2 pt dstva src s va0 x pte s1 y r s2 pa0 n n' s3)
  then show ?case using chunk_pos(1) [of dstva] by auto
qed simp

declare copyout.simps [simp del]

function copyin :: "u64 \<Rightarrow> u64 \<Rightarrow> u64 \<Rightarrow> 'a kmem_scheme \<Rightarrow> (int \<times> u8 list) res" where
  "copyin pagetable srcva len s =
     (if len > 0 then
        let va0 = PGROUNDDOWN srcva in
        bind_res (walkaddr pagetable va0 s) (\<lambda>pa0.
          if pa0 = 0 then Ok (-1, [])
          else
            let n = PGSIZE - (srcva - va0);
                n = (if n > len then len else n)
            in bind_res (copyin pagetable (va0 + PGSIZE) (len - n) s) (\<lambda>(r, bs).
                 Ok (r, read_bytes (mem s) (pa0 + (srcva - va0)) (unat n) @ bs)))
      else Ok (0, []))"
  by pat_completeness auto
termination
proof (relation "measure (\<lambda>(_, _, len, _). unat len)", goal_cases)
  case (2 pt srcva len s va0 pa0 n n')
  then have n: "n = PGSIZE - (srcva - PGROUNDDOWN srcva)" "n' = (if n > len then len else n)" by auto
  have "unat n' \<le> unat len" "0 < unat n'"
    using n chunk_pos(1) [of srcva] 2(1) by (auto simp: word_less_nat_alt not_less)
  then have "unat (len - n') < unat len" by (simp add: unat_sub word_le_nat_alt)
  then show ?case by simp
qed simp

declare copyin.simps [simp del]

text \<open>The inner loop of \<open>copyinstr\<close>: whether a NUL was found, and the bytes stored.\<close>

fun copystr_bytes :: "nat \<Rightarrow> u64 \<Rightarrow> memory \<Rightarrow> bool \<times> u8 list" where
  "copystr_bytes 0 p m = (False, [])"
| "copystr_bytes (Suc n) p m =
     (if m p = 0 then (True, [0])
      else case copystr_bytes n (p + 1) m of (got_null, bs) \<Rightarrow> (got_null, m p # bs))"

function copyinstr :: "u64 \<Rightarrow> u64 \<Rightarrow> u64 \<Rightarrow> 'a kmem_scheme \<Rightarrow> (int \<times> u8 list) res" where
  "copyinstr pagetable srcva mx s =
     (if mx > 0 then
        let va0 = PGROUNDDOWN srcva in
        bind_res (walkaddr pagetable va0 s) (\<lambda>pa0.
          if pa0 = 0 then Ok (-1, [])
          else
            let n = PGSIZE - (srcva - va0);
                n = (if n > mx then mx else n) in
            case copystr_bytes (unat n) (pa0 + (srcva - va0)) (mem s) of (got_null, bs) \<Rightarrow>
              if got_null then Ok (0, bs)
              else bind_res (copyinstr pagetable (va0 + PGSIZE) (mx - n) s) (\<lambda>(r, cs). Ok (r, bs @ cs)))
      else Ok (-1, []))"
  by pat_completeness auto
termination
proof (relation "measure (\<lambda>(_, _, mx, _). unat mx)", goal_cases)
  case (2 pt srcva mx s va0 pa0 n n')
  then have n: "n = PGSIZE - (srcva - PGROUNDDOWN srcva)" "n' = (if n > mx then mx else n)" by auto
  have "unat n' \<le> unat mx" "0 < unat n'"
    using n chunk_pos(1) [of srcva] 2(1) by (auto simp: word_less_nat_alt not_less)
  then have "unat (mx - n') < unat mx" by (simp add: unat_sub word_le_nat_alt)
  then show ?case by simp
qed simp

declare copyinstr.simps [simp del]

end
