(* ===== verification/Vm_Walk.thy ===== *)
theory Vm_Walk
  imports Vm
begin

unbundle bit_operations_syntax

text \<open>
  What \<open>walk\<close> does. On a table whose pages are allocated and not shared it returns the
  address of the leaf entry, and the interior pages it allocates come from the free list
  and change no translation.
\<close>

section \<open>Tables that own their pages\<close>

definition pt_ok :: "'a kmem_scheme \<Rightarrow> nat \<Rightarrow> u64 \<Rightarrow> bool" where
  "pt_ok s l pt \<longleftrightarrow> pt_wf (mem s) l pt \<and>
     (\<forall>p \<in> pt_pages (mem s) l pt. kpage s p \<and> get_kmem_ref p s = 1)"

definition slot_of :: "u64 \<Rightarrow> nat \<Rightarrow> u64" where
  "slot_of n k = n + of_nat (8 * (k mod 512))"

text \<open>
  \<open>allocs s new ys t\<close>: from \<open>s\<close> to \<open>t\<close> the allocator handed out the pages \<open>new\<close>, kept
  \<open>ys\<close>, and changed no other counter.
\<close>

definition allocs :: "'a kmem_scheme \<Rightarrow> u64 list \<Rightarrow> u64 list \<Rightarrow> 'a kmem_scheme \<Rightarrow> bool" where
  "allocs s new ys t \<longleftrightarrow> kmem_inv t ys \<and> lock_ctx s t \<and> kend t = kend s \<and> kmem.more t = kmem.more s \<and>
     (\<forall>p \<in> set new. get_kmem_ref p t = 1) \<and>
     (\<forall>p. kpage s p \<longrightarrow> p \<notin> set new \<longrightarrow> get_kmem_ref p t = get_kmem_ref p s)"

lemma allocsD:
  assumes "allocs s new ys t"
  shows "kmem_inv t ys" "lock_ctx s t" "kend t = kend s" "kmem.more t = kmem.more s" "kpage t = kpage s"
    "\<And>p. p \<in> set new \<Longrightarrow> get_kmem_ref p t = 1"
    "\<And>p. kpage s p \<Longrightarrow> p \<notin> set new \<Longrightarrow> get_kmem_ref p t = get_kmem_ref p s"
    "kmem_ready s \<Longrightarrow> kmem_ready t"
  using assms by (auto simp: allocs_def kmem_ready_ctx kpage_def fun_eq_iff)

lemma allocs_refl: "kmem_inv s ys \<Longrightarrow> allocs s [] ys s"
  by (simp add: allocs_def)

lemma allocs_masked: "kmem_inv s ys \<Longrightarrow> allocs s [] ys (masked_once s)"
  by (simp add: allocs_def)

lemma allocs_trans:
  assumes "allocs s a ys t" "allocs t b zs u" "kmem_inv s xs" "set a \<subseteq> set xs" "set a \<inter> set b = {}"
  shows "allocs s (a @ b) zs u"
  unfolding allocs_def
proof (intro conjI ballI allI impI)
  have kp: "kpage s p" if "p \<in> set a" for p using that assms(3,4) by (auto simp: kmem_inv_def)
  show "get_kmem_ref p u = 1" if "p \<in> set (a @ b)" for p
    using that assms kp allocsD(5-7) [OF assms(1)] allocsD(6,7) [OF assms(2)] by (cases "p \<in> set b") auto
  show "get_kmem_ref p u = get_kmem_ref p s" if "kpage s p" "p \<notin> set (a @ b)" for p
    using that allocsD(5,7) [OF assms(1)] allocsD(7) [OF assms(2)] by simp
qed (use allocsD [OF assms(1)] allocsD [OF assms(2)] in \<open>auto intro: lock_ctx_trans\<close>)

lemma kmem_inv_mem:
  assumes "kmem_inv s xs" "\<And>x. x \<in> set xs \<Longrightarrow> agree (mem s) m (pgno x)"
  shows "kmem_inv (s\<lparr>mem := m\<rparr>) xs"
proof -
  have "flist (mem s) (freelist s) xs" "\<And>x. x \<in> set xs \<Longrightarrow> aligned x"
    using assms(1) by (auto simp: kmem_inv_def kpage_def)
  then have "flist m (freelist s) xs" using assms(2) flist_agree by blast
  then show ?thesis using assms(1) by (simp add: kmem_inv_def kend_ok_def kpage_def)
qed

lemma allocs_mem:
  "allocs s new ys t \<Longrightarrow> (\<And>x. x \<in> set ys \<Longrightarrow> agree (mem t) m (pgno x)) \<Longrightarrow> allocs s new ys (t\<lparr>mem := m\<rparr>)"
  by (simp add: allocs_def kmem_inv_mem)

lemma kpage_mem [simp]: "kpage (s\<lparr>mem := m\<rparr>) p = kpage s p"
  by (simp add: kpage_def)

section \<open>Slots\<close>

lemma slot_nonzero: "kend_ok s \<Longrightarrow> kpage s n \<Longrightarrow> slot_of n k \<noteq> 0"
proof
  assume a: "kend_ok s" "kpage s n" "slot_of n k = 0"
  have "8 * (k mod 512) < 4096" by simp
  then have "unat (slot_of n k) = unat n + 8 * (k mod 512)"
    unfolding slot_of_def by (rule unat_page_offset [OF kpage_bounds(3) [OF a(1,2)]])
  with a(3) kpage_bounds(1) [OF a(1,2)] show False by simp
qed

lemma load64_slot: "load64 m (slot_of n k) = pte_at m n (k mod 512)"
  by (simp add: slot_of_def pte_at_def)

lemma walk_loop_hit:
  "pt_node (mem s) l pt (pgno va) = Some n \<Longrightarrow>
     walk_loop l pt va alloc s = Ok (slot_of n (pgno va), s)"
proof (induction l arbitrary: pt)
  case 0
  then show ?case by (simp add: slot_PX slot_of_def)
next
  case (Suc l)
  then show ?case by (auto simp: slot_PX Let_def pte_flag_tests pte_at_def split: if_splits)
qed

lemma walk_loop_miss:
  "pt_node (mem s) l pt (pgno va) = None \<Longrightarrow> walk_loop l pt va False s = Ok (0, s)"
proof (induction l arbitrary: pt)
  case (Suc l)
  then show ?case by (auto simp: slot_PX Let_def pte_flag_tests pte_at_def split: if_splits)
qed simp

section \<open>Allocating interior pages\<close>

lemma pte_zero_page:
  assumes "aligned p" "i < 512"
  shows "pte_at (write_bytes m p (replicate 4096 0)) p i = 0"
proof -
  have "read_bytes (write_bytes m p (replicate 4096 0)) (p + of_nat (8 * i)) 8 = replicate 8 0"
  proof (rule nth_equalityI)
    fix j assume "j < length (read_bytes (write_bytes m p (replicate 4096 0)) (p + of_nat (8 * i)) 8)"
    then have j: "j < 8" by simp
    have "unat (of_nat (8 * i + j) :: u64) = 8 * i + j" using assms j by (intro unat_of_nat_u64) simp
    then have "unat (p + of_nat (8 * i) + of_nat j - p) < 4096" using assms j by (simp add: add.assoc)
    then show "read_bytes (write_bytes m p (replicate 4096 0)) (p + of_nat (8 * i)) 8 ! j = replicate 8 0 ! j"
      using j by (simp add: write_bytes_def)
  qed simp
  moreover have "le_decode (replicate 8 0) = 0" by (simp add: numeral_eq_Suc)
  ultimately show ?thesis by (simp add: pte_at_def load64_def)
qed

lemma pte_interior_new:
  assumes "aligned p"
  shows "PTE2PA (PA2PTE p OR PTE_V) = p" "pte_interior (PA2PTE p OR PTE_V)"
  using PTE2PA_make [OF assms, of 0]
  by (auto simp: flagbits_def pte_interior_def bit_or_iff bit_PA2PTE)

text \<open>The change below entry \<open>i\<close> of a table, from what happened in the subtree at \<open>c\<close>.\<close>

lemma pt_graftI:
  assumes ok: "pt_ok s (Suc l) pt" and free: "kmem_inv s xs" "set new \<subseteq> set xs"
    and e: "\<And>j. j < 512 \<Longrightarrow> j \<noteq> i \<Longrightarrow> pte_at m' pt j = pte_at (mem s) pt j"
    and c: "pte_interior (pte_at m' pt i)" "PTE2PA (pte_at m' pt i) = c" "pt_wf m' l c"
    and sub: "pt_pages m' l c \<subseteq> set new \<union>
      (if bit (pte_at (mem s) pt i) 0 then pt_pages (mem s) l (PTE2PA (pte_at (mem s) pt i)) else {})"
    and agr: "\<And>k. k \<notin> pgno ` insert pt (pt_pages m' l c) \<Longrightarrow> agree (mem s) m' k"
    and i: "i < 512"
  shows "pt_graft (mem s) l pt i m'"
proof -
  have wf: "pt_wf (mem s) (Suc l) pt" using ok by (simp add: pt_ok_def)
  have rest: "pt_rest (mem s) l pt i \<subseteq> pt_pages (mem s) (Suc l) pt" by (auto simp: pt_rest_def)
  have "pt_rest (mem s) l pt i \<inter> set new = {}"
    using rest ok free by (force simp: pt_ok_def kmem_inv_def)
  moreover have "pt_rest (mem s) l pt i \<inter> pt_pages (mem s) l (PTE2PA (pte_at (mem s) pt i)) = {}"
    if "bit (pte_at (mem s) pt i) 0"
    using pt_wf_child(3,4) [OF wf i that] by (auto simp: pt_rest_def)
  ultimately have dj: "pt_pages m' l c \<inter> pt_rest (mem s) l pt i = {}"
    using sub by (auto split: if_splits)
  have al: "aligned p" if "p \<in> pt_rest (mem s) l pt i" for p
    using that rest ok by (auto simp: pt_ok_def kpage_def)
  have al': "aligned q" if "q \<in> pt_pages m' l c" for q
    using aligned_pt_pages [OF that] c(2) by auto
  have "agree (mem s) m' (pgno p)" if "p \<in> pt_rest (mem s) l pt i" "p \<noteq> pt" for p
  proof (rule agr)
    have "aligned pt" by (rule al) (simp add: pt_rest_def)
    then show "pgno p \<notin> pgno ` insert pt (pt_pages m' l c)"
      using that dj al al' by (auto simp: aligned_pgno_eq)
  qed
  then show ?thesis unfolding pt_graft_def using e c dj by auto
qed

text \<open>The outcome of a walk that may allocate.\<close>

definition walk_post :: "'a kmem_scheme \<Rightarrow> u64 list \<Rightarrow> nat \<Rightarrow> u64 \<Rightarrow> nat \<Rightarrow> u64 \<Rightarrow> 'a kmem_scheme \<Rightarrow>
    u64 list \<Rightarrow> u64 list \<Rightarrow> bool" where
  "walk_post s xs l pt k r t new ys \<longleftrightarrow>
     xs = new @ ys \<and> allocs s new ys t \<and> length new \<le> l \<and> pt_ok t l pt \<and>
     pt_pages (mem t) l pt = pt_pages (mem s) l pt \<union> set new \<and>
     pt_lookup (mem t) l pt = pt_lookup (mem s) l pt \<and>
     (\<forall>k. k \<notin> pgno ` pt_pages (mem t) l pt \<longrightarrow> agree (mem s) (mem t) k) \<and>
     (if r = 0 then ys = [] \<and> pt_node (mem s) l pt k = None
      else \<exists>n. pt_node (mem t) l pt k = Some n \<and> r = slot_of n k)"

lemma walk_postD:
  assumes "walk_post s xs l pt k r t new ys"
  shows "xs = new @ ys" "allocs s new ys t" "length new \<le> l" "pt_ok t l pt"
    "pt_pages (mem t) l pt = pt_pages (mem s) l pt \<union> set new"
    "pt_lookup (mem t) l pt = pt_lookup (mem s) l pt"
    "\<And>k. k \<notin> pgno ` pt_pages (mem t) l pt \<Longrightarrow> agree (mem s) (mem t) k"
    "r = 0 \<Longrightarrow> ys = [] \<and> pt_node (mem s) l pt k = None"
    "r \<noteq> 0 \<Longrightarrow> \<exists>n. pt_node (mem t) l pt k = Some n \<and> r = slot_of n k"
  using assms by (auto simp: walk_post_def)

lemma walk_post_graft:
  fixes s s0 t :: "'a kmem_scheme"
  assumes ok: "pt_ok s (Suc l) pt" and inv: "kmem_inv s xs" "xs = pre @ zs" "allocs s pre zs s0"
    and post: "walk_post s0 zs l c k r t new ys"
    and e: "\<And>j. j < 512 \<Longrightarrow> j \<noteq> pt_index (Suc l) k \<Longrightarrow> pte_at (mem s0) pt j = pte_at (mem s) pt j"
    and c: "pte_interior (pte_at (mem s0) pt (pt_index (Suc l) k))"
      "PTE2PA (pte_at (mem s0) pt (pt_index (Suc l) k)) = c"
    and pages: "pt_pages (mem s0) l c = set pre \<union> (if bit (pte_at (mem s) pt (pt_index (Suc l) k)) 0
      then pt_pages (mem s) l (PTE2PA (pte_at (mem s) pt (pt_index (Suc l) k))) else {})"
    and agr: "\<And>k. k \<notin> pgno ` insert pt (set pre) \<Longrightarrow> agree (mem s) (mem s0) k"
    and look: "\<And>j. pt_index (Suc l) j = pt_index (Suc l) k \<Longrightarrow>
      pt_lookup (mem s0) l c j = pt_lookup (mem s) (Suc l) pt j"
    and none: "pt_node (mem s0) l c k = None \<Longrightarrow> pt_node (mem s) (Suc l) pt k = None"
    and pre: "length pre \<le> 1"
  shows "walk_post s xs (Suc l) pt k r t (pre @ new) ys"
proof -
  let ?i = "pt_index (Suc l) k" and ?m = "mem s" and ?m' = "mem t"
  note P = walk_postD [OF post] and A = allocsD [OF inv(3)]
  have wf: "pt_wf ?m (Suc l) pt" and own: "\<And>p. p \<in> pt_pages ?m (Suc l) pt \<Longrightarrow> kpage s p \<and> get_kmem_ref p s = 1"
    using ok by (auto simp: pt_ok_def)
  have freed: "\<And>p. p \<in> set xs \<Longrightarrow> get_kmem_ref p s = 0" and dist: "distinct xs"
    using inv(1) by (auto simp: kmem_inv_def)
  have xs: "xs = (pre @ new) @ ys" using inv(2) P(1) by simp
  have notfree: "p \<notin> set xs" if "p \<in> pt_pages ?m (Suc l) pt" for p using own [OF that] freed by force
  have sub: "pt_pages ?m' l c \<subseteq> set (pre @ new) \<union>
      (if bit (pte_at ?m pt ?i) 0 then pt_pages ?m l (PTE2PA (pte_at ?m pt ?i)) else {})"
    unfolding P(5) pages by auto
  have ptn: "pt \<notin> pt_pages ?m' l c"
    using sub notfree [of pt] xs pt_wf_child(3) [OF wf pt_index_less] by (auto split: if_splits)
  have alp: "aligned pt" using own [of pt] by (simp add: kpage_def)
  have "agree (mem s0) ?m' (pgno pt)"
  proof (rule P(7))
    show "pgno pt \<notin> pgno ` pt_pages ?m' l c"
      using ptn alp aligned_pt_pages [of _ ?m' l c] c(2) by (auto simp: aligned_pgno_eq)
  qed
  then have e': "pte_at ?m' pt j = pte_at (mem s0) pt j" if "j < 512" for j
    using pte_at_agree [OF _ alp that] by metis
  have agr': "agree ?m ?m' k" if "k \<notin> pgno ` insert pt (pt_pages ?m' l c)" for k
    using that agr [of k] P(5) P(7) [of k] pages by (auto intro: agree_trans)
  have wfc: "pt_wf ?m' l c" using P(4) by (simp add: pt_ok_def)
  have g: "pt_graft ?m l pt ?i ?m'"
    using pt_graftI [OF ok inv(1), of "pre @ new" ?i ?m' c] e e' c wfc sub agr' xs by auto
  have c': "PTE2PA (pte_at ?m' pt ?i) = c" using e' c by simp
  have pg: "pt_pages ?m' (Suc l) pt = pt_rest ?m l pt ?i \<union> pt_pages ?m' l c"
    using pt_graft_pages [OF g wf pt_index_less] c' by simp
  have al: "allocs s (pre @ new) ys t"
    using allocs_trans [OF inv(3) P(2) inv(1)] dist xs by auto
  have rest: "pt_rest ?m l pt ?i \<subseteq> pt_pages ?m (Suc l) pt" by (auto simp: pt_rest_def)
  have own': "kpage t p \<and> get_kmem_ref p t = 1" if "p \<in> pt_pages ?m' (Suc l) pt" for p
  proof (cases "p \<in> pt_pages ?m' l c")
    case True
    then show ?thesis using P(4) by (simp add: pt_ok_def)
  next
    case False
    then have "p \<in> pt_pages ?m (Suc l) pt" using that pg rest by auto
    then show ?thesis using own [of p] notfree [of p] xs allocsD(5,7) [OF al] by simp
  qed
  have all: "pt_pages ?m' (Suc l) pt = pt_pages ?m (Suc l) pt \<union> set (pre @ new)"
    unfolding pg P(5) pages by (auto simp: pt_rest_def split: if_splits)
  have lk: "pt_lookup ?m' (Suc l) pt = pt_lookup ?m (Suc l) pt"
    using pt_graft_lookup [OF g wf] look P(6) c' by (auto simp: fun_eq_iff)
  have ok': "pt_ok t (Suc l) pt" using own' pt_graft_wf [OF g wf pt_index_less] unfolding pt_ok_def by blast
  have agr2: "agree ?m ?m' k" if "k \<notin> pgno ` pt_pages ?m' (Suc l) pt" for k
    using that pg by (intro agr') (auto simp: pt_rest_def simp del: pt_pages.simps)
  have nd: "pt_node ?m' (Suc l) pt k = pt_node ?m' l c k"
    using pt_graft_bits [OF g] c' by simp
  have "length (pre @ new) \<le> Suc l" using P(3) pre by simp
  moreover have "if r = 0 then ys = [] \<and> pt_node ?m (Suc l) pt k = None
      else \<exists>n. pt_node ?m' (Suc l) pt k = Some n \<and> r = slot_of n k"
    unfolding nd using P(8,9) none by (cases "r = 0") (simp_all del: pt_node.simps)
  ultimately show ?thesis unfolding walk_post_def using xs al ok' all lk agr2 by blast
qed

text \<open>A new interior page: zeroed, and entered at slot \<open>i\<close> of \<open>pt\<close>.\<close>

definition enter_table :: "memory \<Rightarrow> u64 \<Rightarrow> nat \<Rightarrow> u64 \<Rightarrow> memory" where
  "enter_table m pt i x = store64 (write_bytes m x (replicate 4096 0)) (pt + of_nat (8 * i)) (PA2PTE x OR PTE_V)"

lemma enter_table:
  assumes "aligned pt" "aligned x" "x \<noteq> pt" "i < 512"
  shows "\<And>j. j < 512 \<Longrightarrow> j \<noteq> i \<Longrightarrow> pte_at (enter_table m pt i x) pt j = pte_at m pt j"
    and "pte_at (enter_table m pt i x) pt i = PA2PTE x OR PTE_V"
    and "\<And>j. j < 512 \<Longrightarrow> pte_at (enter_table m pt i x) x j = 0"
    and "\<And>k. k \<noteq> pgno pt \<Longrightarrow> k \<noteq> pgno x \<Longrightarrow> agree m (enter_table m pt i x) k"
proof -
  let ?z = "write_bytes m x (replicate 4096 0)"
  have ne: "pgno pt \<noteq> pgno x" using assms by (simp add: aligned_pgno_eq)
  have agz: "agree m ?z k" if "k \<noteq> pgno x" for k using that assms by (intro agree_write_page) auto
  have ags: "agree ?z (enter_table m pt i x) k" if "k \<noteq> pgno pt" for k
    unfolding enter_table_def using that assms by (intro agree_store_slot) auto
  show "pte_at (enter_table m pt i x) pt j = pte_at m pt j" if "j < 512" "j \<noteq> i" for j
    using that assms pte_at_store [OF assms(1,4) that(1), of ?z] pte_at_agree [OF agz [OF ne] assms(1) that(1)]
    by (simp add: enter_table_def)
  show "pte_at (enter_table m pt i x) pt i = PA2PTE x OR PTE_V"
    using pte_at_store [OF assms(1,4,4)] by (simp add: enter_table_def)
  show "pte_at (enter_table m pt i x) x j = 0" if "j < 512" for j
    using pte_at_agree [OF ags assms(2) that] ne pte_zero_page [OF assms(2) that, of m] by simp
  show "agree m (enter_table m pt i x) k" if "k \<noteq> pgno pt" "k \<noteq> pgno x" for k
    using agz [OF that(2)] ags [OF that(1)] by (rule agree_trans)
qed

definition walk_returns :: "nat \<Rightarrow> u64 \<Rightarrow> u64 \<Rightarrow> 'a kmem_scheme \<Rightarrow> u64 list \<Rightarrow> bool" where
  "walk_returns l pt va s xs \<longleftrightarrow>
     (\<exists>r t new ys. walk_loop l pt va True s = Ok (r, t) \<and> walk_post s xs l pt (pgno va) r t new ys)"

lemma walk_returns_down:
  assumes "kmem_inv s xs" "pt_ok s (Suc l) pt" "bit (pte_at (mem s) pt (pt_index (Suc l) (pgno va))) 0"
    and IH: "\<And>c. pt_ok s l c \<Longrightarrow> walk_returns l c va s xs"
  shows "walk_returns (Suc l) pt va s xs"
proof -
  let ?e = "pte_at (mem s) pt (pt_index (Suc l) (pgno va))"
  have wf: "pt_wf (mem s) (Suc l) pt" using assms(2) by (simp add: pt_ok_def)
  have ld: "load64 (mem s) (pt + 8 * PX (Suc l) va) = ?e" by (simp add: slot_PX pte_at_def)
  have "pt_ok s l (PTE2PA ?e)"
    using assms(2) pt_wf_child(2) [OF wf pt_index_less assms(3)]
      pt_child_pages [OF pt_index_less assms(3), of l]
    by (auto simp: pt_ok_def simp del: pt_pages.simps)
  then obtain r t new ys where w: "walk_loop l (PTE2PA ?e) va True s = Ok (r, t)"
    and post: "walk_post s xs l (PTE2PA ?e) (pgno va) r t new ys"
    using IH unfolding walk_returns_def by blast
  have "walk_post s xs (Suc l) pt (pgno va) r t ([] @ new) ys"
    using pt_wf_child(1) [OF wf pt_index_less assms(3)] assms(3)
    by (intro walk_post_graft [OF assms(2,1) _ allocs_refl [OF assms(1)] post])
      (auto simp: pt_lookup_Suc simp del: pt_pages.simps)
  moreover have "walk_loop (Suc l) pt va True s = Ok (r, t)"
    using w assms(3) ld by (simp add: Let_def pte_flag_tests)
  ultimately show ?thesis unfolding walk_returns_def by blast
qed

lemma walk_enters_table:
  assumes "kmem_inv s (x # zs)" "pt_ok s (Suc l) pt" "\<not> bit (pte_at (mem s) pt (pt_index (Suc l) (pgno va))) 0"
    and page: "kpage s x" "allocs s [x] zs t0" "\<forall>k. k \<noteq> pgno x \<longrightarrow> agree (mem s) (mem t0) k"
    and s0: "s0 = t0\<lparr>mem := enter_table (mem t0) pt (pt_index (Suc l) (pgno va)) x\<rparr>"
  shows "allocs s [x] zs s0" "pt_ok s0 l x"
    and "walk_post s0 zs l x (pgno va) r t new ys \<Longrightarrow>
      walk_post s (x # zs) (Suc l) pt (pgno va) r t ([x] @ new) ys"
proof -
  let ?i = "pt_index (Suc l) (pgno va)"
  have own: "kpage s pt" "get_kmem_ref pt s = 1" using assms(2) by (auto simp: pt_ok_def)
  have ne: "x \<noteq> pt" using own assms(1) by (auto simp: kmem_inv_def)
  have al: "aligned pt" "aligned x" using own page(1) by (auto simp: kpage_def)
  note E = enter_table [OF al ne pt_index_less [of "Suc l" "pgno va"], where m = "mem t0"]
  have "pgno pt \<noteq> pgno x" using al ne by (simp add: aligned_pgno_eq)
  then have E1: "pte_at (mem s0) pt j = pte_at (mem s) pt j" if "j < 512" "j \<noteq> ?i" for j
    using E(1) [OF that] pte_at_agree [of "mem s" "mem t0" pt j] page(3) al(1) that(1) s0 by simp
  have zs: "aligned y \<and> y \<noteq> pt \<and> y \<noteq> x" if "y \<in> set zs" for y
    using that own assms(1) by (auto simp: kmem_inv_def kpage_def)
  show A: "allocs s [x] zs s0"
    unfolding s0 using zs E(4) al page(2) by (intro allocs_mem) (auto simp: aligned_pgno_eq)
  have "\<And>j. j < 512 \<Longrightarrow> pte_at (mem s0) x j = 0" using E(3) s0 by simp
  note emp = pt_empty [OF this]
  show "pt_ok s0 l x" using emp page(1) allocsD(5,6) [OF A] by (simp add: pt_ok_def)
  have agr: "agree (mem s) (mem s0) k" if "k \<notin> pgno ` insert pt (set [x])" for k
    using that page(3) E(4) [of k] s0 by (auto intro: agree_trans)
  have e: "pte_at (mem s0) pt ?i = PA2PTE x OR PTE_V" using E(2) s0 by simp
  show "walk_post s (x # zs) (Suc l) pt (pgno va) r t ([x] @ new) ys"
    if "walk_post s0 zs l x (pgno va) r t new ys"
    using assms(3) E1 agr e pte_interior_new [OF al(2)] emp
    by (intro walk_post_graft [OF assms(2,1) _ A that]) (auto simp: pt_lookup_Suc)
qed

lemma walk_returns_new:
  assumes "kmem_ready s" "kmem_inv s xs" "pt_ok s (Suc l) pt"
    and nv: "\<not> bit (pte_at (mem s) pt (pt_index (Suc l) (pgno va))) 0"
    and IH: "\<And>(s :: 'a kmem_scheme) xs c. kmem_ready s \<Longrightarrow> kmem_inv s xs \<Longrightarrow> pt_ok s l c \<Longrightarrow> walk_returns l c va s xs"
  shows "walk_returns (Suc l) pt va (s :: 'a kmem_scheme) xs"
proof -
  let ?i = "pt_index (Suc l) (pgno va)"
  have "load64 (mem s) (pt + 8 * PX (Suc l) va) = pte_at (mem s) pt ?i" by (simp add: slot_PX pte_at_def)
  then have step: "walk_loop (Suc l) pt va True s =
    bind_res (kalloc s) (\<lambda>(x, s). if x = 0 then Ok (0, s) else
       walk_loop l x va True (s\<lparr>mem := enter_table (mem s) pt ?i x\<rparr>))"
    using nv by (simp add: Let_def pte_flag_tests memset_eq PGSIZE_def enter_table_def slot_PX cong: if_cong)
  show ?thesis
    using assms(1,2)
  proof (cases rule: kalloc_cases)
    case none
    then have "walk_loop (Suc l) pt va True s = Ok (0, masked_once s)" using step by simp
    moreover have "walk_post s xs (Suc l) pt (pgno va) 0 (masked_once s) [] []"
      using none assms(2,3) nv allocs_masked [OF assms(2)]
      by (simp add: walk_post_def pt_ok_def kpage_def)
    ultimately show ?thesis unfolding walk_returns_def by blast
  next
    case (page x zs t0)
    define s0 where "s0 = t0\<lparr>mem := enter_table (mem t0) pt ?i x\<rparr>"
    have "allocs s [x] zs t0" "\<forall>k. k \<noteq> pgno x \<longrightarrow> agree (mem s) (mem t0) k"
      using page by (auto simp: allocs_def)
    note E = walk_enters_table [OF assms(2) [unfolded page(1)] assms(3) nv page(4) this s0_def]
    obtain r t new ys where w: "walk_loop l x va True s0 = Ok (r, t)"
      and post: "walk_post s0 zs l x (pgno va) r t new ys"
      using IH [OF allocsD(8) [OF E(1) assms(1)] allocsD(1) [OF E(1)] E(2)] unfolding walk_returns_def by blast
    have "walk_loop (Suc l) pt va True s = Ok (r, t)" using step page(2,5) w s0_def by simp
    then show ?thesis using E(3) [OF post] page(1) unfolding walk_returns_def by blast
  qed
qed

lemma walk_loop_alloc:
  assumes "kmem_ready s" "kmem_inv s xs" "pt_ok s l pt"
  shows "walk_returns l pt va s xs"
  using assms
proof (induction l arbitrary: pt s xs)
  case 0
  have "slot_of pt (pgno va) \<noteq> 0"
    using 0 by (intro slot_nonzero [of s]) (auto simp: kmem_inv_def pt_ok_def)
  then have "walk_post s xs 0 pt (pgno va) (slot_of pt (pgno va)) s [] xs"
    using 0 by (simp add: walk_post_def allocs_refl)
  moreover have "walk_loop 0 pt va True s = Ok (slot_of pt (pgno va), s)"
    by (simp add: slot_PX slot_of_def)
  ultimately show ?case unfolding walk_returns_def by blast
next
  case (Suc l)
  then show ?case using walk_returns_down [of s xs l pt va] walk_returns_new [of s xs l pt va] by blast
qed

end
