(* ===== verification/Vm_Map.thy ===== *)
theory Vm_Map
  imports Vm_Walk
begin

unbundle bit_operations_syntax

text \<open>
  Several page tables in one memory. \<open>vm_inv s xs R\<close> is the invariant of a set \<open>R\<close> of page
  tables: each is well formed, no two share a page, and the free list is \<open>xs\<close>. Every
  operation of \<^verbatim>\<open>kernel/vm.c\<close> is described by the entries \<open>ents\<close> it leaves in the tables of
  \<open>R\<close>, the pages it takes from the free list and the pages whose contents it keeps.
\<close>

section \<open>Sets of page tables\<close>

definition tables :: "memory \<Rightarrow> u64 set \<Rightarrow> u64 set" where
  "tables m R = (\<Union>pt \<in> R. pt_pages m 2 pt)"

definition ents :: "memory \<Rightarrow> u64 \<times> nat \<Rightarrow> u64" where
  "ents m x = pt_lookup m 2 (fst x) (snd x)"

definition vm_inv :: "'a kmem_scheme \<Rightarrow> u64 list \<Rightarrow> u64 set \<Rightarrow> bool" where
  "vm_inv s xs R \<longleftrightarrow> kmem_ready s \<and> kmem_inv s xs \<and> finite R \<and> (\<forall>pt \<in> R. pt_ok s 2 pt) \<and>
     (\<forall>pt \<in> R. \<forall>pt' \<in> R. pt \<noteq> pt' \<longrightarrow> pt_pages (mem s) 2 pt \<inter> pt_pages (mem s) 2 pt' = {})"

text \<open>All page numbers a three-level table can translate, and those below \<open>MAXVA\<close>.\<close>

definition VPAGES :: nat where "VPAGES = 512 ^ 3"

lemma VPAGES_simp [simp]: "VPAGES = 134217728"
  by (simp add: VPAGES_def)

lemma pgno_VPAGES: "va < MAXVA \<Longrightarrow> pgno va < 67108864"
  by (simp add: less_MAXVA pgno_def less_mult_imp_div_less)

lemma vm_invD:
  assumes "vm_inv s xs R"
  shows "kmem_ready s" "kmem_inv s xs" "kend_ok s" "finite R" "\<And>pt. pt \<in> R \<Longrightarrow> pt_ok s 2 pt"
    "\<And>pt pt'. pt \<in> R \<Longrightarrow> pt' \<in> R \<Longrightarrow> pt \<noteq> pt' \<Longrightarrow> pt_pages (mem s) 2 pt \<inter> pt_pages (mem s) 2 pt' = {}"
    "\<And>pt. pt \<in> R \<Longrightarrow> aligned pt"
  using assms by (auto simp: vm_inv_def kmem_inv_def pt_ok_def kpage_def)

lemma tables_owned:
  "vm_inv s xs R \<Longrightarrow> p \<in> tables (mem s) R \<Longrightarrow> kpage s p \<and> get_kmem_ref p s = 1 \<and> p \<notin> set xs"
  by (force simp: vm_inv_def tables_def pt_ok_def kmem_inv_def)

lemma free_page_facts:
  "vm_inv s xs R \<Longrightarrow> x \<in> set xs \<Longrightarrow> kpage s x \<and> get_kmem_ref x s = 0 \<and> x \<notin> tables (mem s) R \<and> x \<noteq> 0"
  using tables_owned [of s xs R x] kpage_bounds(4) [of s x] by (auto simp: vm_inv_def kmem_inv_def)

text \<open>
  \<open>vm_step s xs R t ys new L\<close>: from \<open>s\<close> to \<open>t\<close> the tables took the pages \<open>new\<close> from the
  free list, the entries became \<open>L\<close>, and memory outside the tables is untouched.
\<close>

definition vm_step :: "'a kmem_scheme \<Rightarrow> u64 list \<Rightarrow> u64 set \<Rightarrow> 'a kmem_scheme \<Rightarrow> u64 list \<Rightarrow> u64 list \<Rightarrow>
    (u64 \<times> nat \<Rightarrow> u64) \<Rightarrow> bool" where
  "vm_step s xs R t ys new L \<longleftrightarrow> xs = new @ ys \<and> vm_inv t ys R \<and> allocs s new ys t \<and>
     tables (mem t) R = tables (mem s) R \<union> set new \<and>
     (\<forall>k. k \<notin> pgno ` tables (mem t) R \<longrightarrow> agree (mem s) (mem t) k) \<and>
     (\<forall>x \<in> R \<times> {..<VPAGES}. ents (mem t) x = L x)"

lemma vm_stepD:
  assumes "vm_step s xs R t ys new L"
  shows "xs = new @ ys" "vm_inv t ys R" "allocs s new ys t" "tables (mem t) R = tables (mem s) R \<union> set new"
    "\<And>k. k \<notin> pgno ` tables (mem t) R \<Longrightarrow> agree (mem s) (mem t) k"
    "\<And>x. x \<in> R \<times> {..<VPAGES} \<Longrightarrow> ents (mem t) x = L x"
  using assms by (auto simp: vm_step_def)

lemma vm_step_trans:
  assumes "vm_inv s xs R" "vm_step s xs R t ys new L" "vm_step t ys R u zs new' L'"
  shows "vm_step s xs R u zs (new @ new') L'"
proof -
  note A = vm_stepD [OF assms(2)] and B = vm_stepD [OF assms(3)] and I = vm_invD [OF assms(1)]
  have "distinct xs" using I(2) by (simp add: kmem_inv_def)
  then have "allocs s (new @ new') zs u"
    using allocs_trans [OF A(3) B(3) I(2)] A(1) B(1) by auto
  moreover have "agree (mem s) (mem u) k" if "k \<notin> pgno ` tables (mem u) R" for k
    using that A(5) [of k] B(4) B(5) [of k] by (auto intro: agree_trans)
  ultimately show ?thesis unfolding vm_step_def using A(1,4) B(1,2,4,6) by auto
qed

section \<open>One table changes\<close>

lemma vm_step_one:
  assumes inv: "vm_inv s xs R" and pt: "pt \<in> R"
    and al: "xs = new @ ys" "allocs s new ys t" and ok: "pt_ok t 2 pt"
    and pages: "pt_pages (mem t) 2 pt = pt_pages (mem s) 2 pt \<union> set new"
    and agr: "\<And>k. k \<notin> pgno ` pt_pages (mem t) 2 pt \<Longrightarrow> agree (mem s) (mem t) k"
    and L: "\<And>k. k < VPAGES \<Longrightarrow> ents (mem t) (pt, k) = L (pt, k)"
      "\<And>pt' k. pt' \<noteq> pt \<Longrightarrow> L (pt', k) = ents (mem s) (pt', k)"
  shows "vm_step s xs R t ys new L"
proof -
  note I = vm_invD [OF inv]
  have same: "pt_pages (mem t) 2 q = pt_pages (mem s) 2 q \<and> pt_ok t 2 q \<and>
      pt_lookup (mem t) 2 q = pt_lookup (mem s) 2 q" if "q \<in> R" "q \<noteq> pt" for q
  proof -
    have own: "kpage s p \<and> get_kmem_ref p s = 1 \<and> p \<notin> set xs" if "p \<in> pt_pages (mem s) 2 q" for p
      using that \<open>q \<in> R\<close> by (intro tables_owned [OF inv]) (auto simp: tables_def)
    have fr: "agree (mem s) (mem t) (pgno p)" if "p \<in> pt_pages (mem s) 2 q" for p
    proof (rule agr)
      have "p \<notin> pt_pages (mem t) 2 pt"
        using that I(6) [of q pt] \<open>q \<in> R\<close> \<open>q \<noteq> pt\<close> pt pages own [OF that] al(1) by auto
      moreover have "aligned p" using own [OF that] by (simp add: kpage_def)
      moreover have "\<And>p'. p' \<in> pt_pages (mem t) 2 pt \<Longrightarrow> aligned p'"
        using ok by (auto simp: pt_ok_def kpage_def)
      ultimately show "pgno p \<notin> pgno ` pt_pages (mem t) 2 pt" by (auto simp: aligned_pgno_eq)
    qed
    note F = pt_frame [OF fr I(7) [OF that(1)]] pt_frame_lookup [OF fr I(7) [OF that(1)]]
    moreover have "kpage t p \<and> get_kmem_ref p t = 1" if "p \<in> pt_pages (mem s) 2 q" for p
      using own [OF that] allocsD(5,7) [OF al(2)] al(1) by simp
    ultimately show ?thesis using I(5) [OF that(1)] by (simp add: pt_ok_def)
  qed
  have dj: "pt_pages (mem t) 2 q \<inter> pt_pages (mem t) 2 pt = {}" if "q \<in> R" "q \<noteq> pt" for q
  proof -
    have "p \<notin> set xs" if "p \<in> pt_pages (mem s) 2 q" for p
      using tables_owned [OF inv, of p] that \<open>q \<in> R\<close> by (auto simp: tables_def)
    then show ?thesis using same [OF that] I(6) [of q pt] that pt pages al(1) by auto
  qed
  have "vm_inv t ys R"
    unfolding vm_inv_def
  proof (intro conjI ballI impI)
    show "pt_ok t 2 q" if "q \<in> R" for q using that same ok by (cases "q = pt") auto
    show "pt_pages (mem t) 2 q \<inter> pt_pages (mem t) 2 q' = {}" if "q \<in> R" "q' \<in> R" "q \<noteq> q'" for q q'
      using that same dj [of q] dj [of q'] I(6) [of q q'] by (cases "q = pt"; cases "q' = pt") auto
  qed (use allocsD(1,8) [OF al(2)] I in auto)
  moreover have "tables (mem t) R = tables (mem s) R \<union> set new"
    using same pages pt by (auto simp: tables_def)
  moreover have "agree (mem s) (mem t) k" if "k \<notin> pgno ` tables (mem t) R" for k
    using that pt by (intro agr) (auto simp: tables_def)
  moreover have "ents (mem t) (q, k) = L (q, k)" if "q \<in> R" "k < VPAGES" for q k
    using that L same [of q] by (cases "q = pt") (auto simp: ents_def)
  ultimately show ?thesis unfolding vm_step_def using al by auto
qed

lemma vm_step_refl: "vm_inv s xs R \<Longrightarrow> vm_step s xs R s xs [] (ents (mem s))"
  by (auto simp: vm_step_def vm_inv_def allocs_refl)

lemma vm_step_cong:
  "vm_step s xs R t ys new L \<Longrightarrow> (\<And>x. x \<in> R \<times> {..<VPAGES} \<Longrightarrow> L x = L' x) \<Longrightarrow> vm_step s xs R t ys new L'"
  by (auto simp: vm_step_def)

lemma store_step:
  assumes "vm_inv s xs R" "pt \<in> R" "pt_node (mem s) 2 pt k = Some n" "k < VPAGES"
  shows "vm_step s xs R (s\<lparr>mem := store64 (mem s) (slot_of n k) v\<rparr>) xs [] ((ents (mem s))((pt, k) := v))"
proof -
  let ?m = "store64 (mem s) (slot_of n k) v"
  note I = vm_invD [OF assms(1)]
  have wf: "pt_wf (mem s) 2 pt" and own: "\<And>p. p \<in> pt_pages (mem s) 2 pt \<Longrightarrow> kpage s p \<and> get_kmem_ref p s = 1"
    using I(5) [OF assms(2)] by (auto simp: pt_ok_def)
  have n: "n \<in> pt_pages (mem s) 2 pt" using assms(3) by (rule pt_node_in_pages)
  have an: "aligned n" using own [OF n] by (simp add: kpage_def)
  have agr: "agree (mem s) ?m j" if "j \<noteq> pgno n" for j
    unfolding slot_of_def using an that by (intro agree_store_slot) auto
  note P = pt_store [OF wf I(7) [OF assms(2)] assms(3), of ?m v, unfolded slot_of_def, OF refl]
  have nx: "n \<notin> set xs" using tables_owned [OF assms(1), of n] assms(2) n by (auto simp: tables_def)
  have "aligned x \<and> x \<noteq> n" if "x \<in> set xs" for x
    using that nx I(2) by (auto simp: kmem_inv_def kpage_def)
  then have "allocs s [] xs (s\<lparr>mem := ?m\<rparr>)"
    using agr an by (intro allocs_mem allocs_refl I(2)) (auto simp: aligned_pgno_eq)
  moreover have "pt_ok (s\<lparr>mem := ?m\<rparr>) 2 pt" using P own by (simp add: pt_ok_def slot_of_def)
  moreover have "ents ?m (pt, j) = ((ents (mem s))((pt, k) := v)) (pt, j)" if "j < VPAGES" for j
    using P that assms(4) by (simp add: ents_def slot_of_def)
  ultimately show ?thesis
    using P n agr by (intro vm_step_one [OF assms(1,2)]) (auto simp: slot_of_def)
qed

section \<open>Walking\<close>

lemma walk_found:
  "va < MAXVA \<Longrightarrow> pt_node (mem s) 2 pt (pgno va) = Some n \<Longrightarrow>
     walk pt va alloc s = Ok (slot_of n (pgno va), s)"
  using walk_loop_hit [of s 2 pt va n alloc] by (simp add: walk_def not_le)

lemma walk_absent:
  "va < MAXVA \<Longrightarrow> pt_node (mem s) 2 pt (pgno va) = None \<Longrightarrow> walk pt va False s = Ok (0, s)"
  using walk_loop_miss [of s 2 pt va] by (simp add: walk_def not_le)

lemma node_slot:
  assumes "vm_inv s xs R" "pt \<in> R" "pt_node (mem s) 2 pt k = Some n"
  shows "slot_of n k \<noteq> 0" "load64 (mem s) (slot_of n k) = ents (mem s) (pt, k)"
proof -
  have "n \<in> tables (mem s) R" using pt_node_in_pages [OF assms(3)] assms(2) by (auto simp: tables_def)
  then show "slot_of n k \<noteq> 0"
    using tables_owned [OF assms(1), of n] vm_invD(3) [OF assms(1)] by (intro slot_nonzero [of s]) auto
  show "load64 (mem s) (slot_of n k) = ents (mem s) (pt, k)"
    using assms(3) by (simp add: load64_slot ents_def pt_lookup_def)
qed

lemma walk_read:
  assumes "vm_inv s xs R" "pt \<in> R" "va < MAXVA" "bit (ents (mem s) (pt, pgno va)) 0"
  obtains n where "pt_node (mem s) 2 pt (pgno va) = Some n" "walk pt va alloc s = Ok (slot_of n (pgno va), s)"
    "slot_of n (pgno va) \<noteq> 0" "load64 (mem s) (slot_of n (pgno va)) = ents (mem s) (pt, pgno va)"
proof -
  obtain n where n: "pt_node (mem s) 2 pt (pgno va) = Some n"
    using assms(4) by (auto simp: ents_def pt_lookup_def split: option.splits)
  then show ?thesis using that walk_found [OF assms(3) n] node_slot [OF assms(1,2) n] by blast
qed

lemma walk_grow:
  assumes "vm_inv s xs R" "pt \<in> R" "va < MAXVA"
  obtains (fail) t where "walk pt va True s = Ok (0, t)" "vm_step s xs R t [] xs (ents (mem s))"
      "length xs \<le> 2" "pt_node (mem s) 2 pt (pgno va) = None"
  | (slot) n t new ys where "walk pt va True s = Ok (slot_of n (pgno va), t)" "slot_of n (pgno va) \<noteq> 0"
      "pt_node (mem t) 2 pt (pgno va) = Some n" "vm_step s xs R t ys new (ents (mem s))" "length new \<le> 2"
proof -
  note I = vm_invD [OF assms(1)]
  obtain r t new ys where w: "walk_loop 2 pt va True s = Ok (r, t)" and post: "walk_post s xs 2 pt (pgno va) r t new ys"
    using walk_loop_alloc [OF I(1,2) I(5) [OF assms(2)], of va] unfolding walk_returns_def by blast
  note P = walk_postD [OF post]
  have w': "walk pt va True s = Ok (r, t)" using w assms(3) by (simp add: walk_def)
  have st: "vm_step s xs R t ys new (ents (mem s))"
    using P(6) by (intro vm_step_one [OF assms(1,2) P(1,2,4,5,7)]) (auto simp: ents_def)
  show ?thesis
  proof (cases "r = 0")
    case True
    then show ?thesis using fail [of t] w' st P(1,3,8) by simp
  next
    case False
    then obtain n where "pt_node (mem t) 2 pt (pgno va) = Some n" "r = slot_of n (pgno va)" using P(9) by blast
    then show ?thesis using slot [of n t ys new] w' st P(3) False by simp
  qed
qed

lemma pgno_next: "va < MAXVA \<Longrightarrow> pgno (va + PGSIZE) = Suc (pgno va)"
  using unat_next_page [of va] by (simp add: less_MAXVA pgno_def)

lemma aligned_next: "aligned a \<Longrightarrow> aligned (a + PGSIZE)"
  by (simp add: aligned_def PGSIZE_def unat_word_ariths mod_mod_cancel)

section \<open>Mapping\<close>

text \<open>The entries after mapping \<open>n\<close> pages from page number \<open>k\<close> on to \<open>pa\<close> and the pages behind it.\<close>

definition map_range :: "(u64 \<times> nat \<Rightarrow> u64) \<Rightarrow> u64 \<Rightarrow> nat \<Rightarrow> nat \<Rightarrow> u64 \<Rightarrow> u64 \<Rightarrow> u64 \<times> nat \<Rightarrow> u64" where
  "map_range L pt k n pa perm = (\<lambda>(q, j).
     if q = pt \<and> k \<le> j \<and> j < k + n then PA2PTE (pa + of_nat (4096 * (j - k))) OR perm OR PTE_V else L (q, j))"

lemma map_range_0 [simp]: "map_range L pt k 0 pa perm = L"
  by (auto simp: map_range_def fun_eq_iff)

lemma map_range_Suc:
  "map_range L pt k (Suc n) pa perm =
     map_range (L((pt, k) := PA2PTE pa OR perm OR PTE_V)) pt (Suc k) n (pa + PGSIZE) perm"
proof (intro ext)
  fix x :: "u64 \<times> nat"
  obtain q j where x: "x = (q, j)" by fastforce
  show "map_range L pt k (Suc n) pa perm x =
      map_range (L((pt, k) := PA2PTE pa OR perm OR PTE_V)) pt (Suc k) n (pa + PGSIZE) perm x"
    unfolding x map_range_def by (cases "j = k") (auto simp: PGSIZE_def algebra_simps)
qed

lemma map_range_one: "map_range L pt k (Suc 0) pa perm = L((pt, k) := PA2PTE pa OR perm OR PTE_V)"
  by (simp add: map_range_Suc)

lemma map_range_cong:
  "(\<And>x. x \<in> R \<times> {..<VPAGES} \<Longrightarrow> L x = L' x) \<Longrightarrow> x \<in> R \<times> {..<VPAGES} \<Longrightarrow>
     map_range L pt k n pa perm x = map_range L' pt k n pa perm x"
  by (auto simp: map_range_def)

lemma map_step:
  assumes "vm_inv s xs R" "pt \<in> R" "va < MAXVA"
  obtains (fail) t where "walk pt va True s = Ok (0, t)" "vm_step s xs R t [] xs (ents (mem s))"
      "length xs \<le> 2" "pt_node (mem s) 2 pt (pgno va) = None"
  | (slot) r t new ys where "walk pt va True s = Ok (r, t)" "r \<noteq> 0" "length new \<le> 2"
      "vm_step s xs R (t\<lparr>mem := store64 (mem t) r v\<rparr>) ys new ((ents (mem s))((pt, pgno va) := v))"
  using assms
proof (cases rule: walk_grow)
  case (slot n t new ys)
  have k: "pgno va < VPAGES" using pgno_VPAGES [OF assms(3)] by simp
  note st = vm_stepD [OF slot(4)]
  have "vm_step s xs R (t\<lparr>mem := store64 (mem t) (slot_of n (pgno va)) v\<rparr>) ys (new @ [])
      ((ents (mem t))((pt, pgno va) := v))"
    by (rule vm_step_trans [OF assms(1) slot(4) store_step [OF st(2) assms(2) slot(3) k]])
  then have "vm_step s xs R (t\<lparr>mem := store64 (mem t) (slot_of n (pgno va)) v\<rparr>) ys new
      ((ents (mem s))((pt, pgno va) := v))"
    unfolding append_Nil2 by (rule vm_step_cong) (use st(6) in auto)
  then show ?thesis using that(2) slot by blast
qed (use that(1) in blast)

lemma mappages_run:
  fixes s :: "'a kmem_scheme"
  assumes "vm_inv s xs R" "pt \<in> R" "aligned a" "aligned lst" "lst < MAXVA" "pgno lst = pgno a + n"
  obtains (ok) t ys new where "mappages_loop pt a lst pa perm s = Ok (0, t)"
      "vm_step s xs R t ys new (map_range (ents (mem s)) pt (pgno a) (Suc n) pa perm)"
  | (fail) t i where "mappages_loop pt a lst pa perm s = Ok (-1, t)" "i \<le> n" "length xs \<le> 2 * Suc n"
      "vm_step s xs R t [] xs (map_range (ents (mem s)) pt (pgno a) i pa perm)"
  using assms
proof (induction n arbitrary: a pa s xs thesis)
  case (0 a pa s xs)
  have eq: "a = lst" using "0.prems"(5,6,8) by (simp add: aligned_pgno_eq)
  show ?case
  proof (rule map_step [OF "0.prems"(3,4), where va = a and v = "PA2PTE pa OR perm OR PTE_V"])
    show "a < MAXVA" using eq "0.prems"(7) by simp
  next
    fix t assume "walk pt a True s = Ok (0, t)" "vm_step s xs R t [] xs (ents (mem s))" "length xs \<le> 2"
    then show ?thesis using "0.prems"(2) [of t 0] by (simp add: mappages_loop.simps [of pt a])
  next
    fix r t new ys
    assume "walk pt a True s = Ok (r, t)" "r \<noteq> 0"
      "vm_step s xs R (t\<lparr>mem := store64 (mem t) r (PA2PTE pa OR perm OR PTE_V)\<rparr>) ys new
        ((ents (mem s))((pt, pgno a) := PA2PTE pa OR perm OR PTE_V))"
    moreover from this have "mappages_loop pt a lst pa perm s
        = Ok (0, t\<lparr>mem := store64 (mem t) r (PA2PTE pa OR perm OR PTE_V)\<rparr>)"
      using eq by (simp add: mappages_loop.simps [of pt lst])
    ultimately show ?thesis using "0.prems"(1) unfolding map_range_one by blast
  qed
next
  case (Suc n a pa s xs)
  have "unat a = pgno a * 4096" "unat lst = pgno lst * 4096" using Suc.prems(5,6) by (simp_all add: aligned_unat)
  then have "unat a < unat lst" using Suc.prems(8) by simp
  then have lt: "a < MAXVA" and ne: "a \<noteq> lst" using Suc.prems(7) by (auto simp: less_MAXVA)
  have nx: "aligned (a + PGSIZE)" "pgno lst = pgno (a + PGSIZE) + n"
    using Suc.prems(5,8) aligned_next pgno_next [OF lt] by simp_all
  show ?case
  proof (rule map_step [OF Suc.prems(3,4) lt, where v = "PA2PTE pa OR perm OR PTE_V"])
    fix t assume "walk pt a True s = Ok (0, t)" "vm_step s xs R t [] xs (ents (mem s))" "length xs \<le> 2"
    then show ?thesis using Suc.prems(2) [of t 0] by (simp add: mappages_loop.simps [of pt a])
  next
    fix r new ys and t :: "'a kmem_scheme"
    let ?t = "t\<lparr>mem := store64 (mem t) r (PA2PTE pa OR perm OR PTE_V)\<rparr>"
    let ?L = "(ents (mem s))((pt, pgno a) := PA2PTE pa OR perm OR PTE_V)"
    assume w: "walk pt a True s = Ok (r, t)" "r \<noteq> 0" "length new \<le> 2" and st: "vm_step s xs R ?t ys new ?L"
    note S = vm_stepD [OF st]
    have eq: "mappages_loop pt a lst pa perm s = mappages_loop pt (a + PGSIZE) lst (pa + PGSIZE) perm ?t"
      using w ne by (simp add: mappages_loop.simps [of pt a])
    have comb: "vm_step s xs R u zs (new @ new') (map_range (ents (mem s)) pt (pgno a) (Suc i) pa perm)"
      if "vm_step ?t ys R u zs new' (map_range (ents (mem ?t)) pt (pgno (a + PGSIZE)) i (pa + PGSIZE) perm)"
      for u zs new' i
      using vm_step_trans [OF Suc.prems(3) st that] unfolding map_range_Suc pgno_next [OF lt]
      by (rule vm_step_cong) (rule map_range_cong [OF S(6)])
    show ?thesis
    proof (rule Suc.IH [OF _ _ S(2) Suc.prems(4) nx(1) Suc.prems(6,7) nx(2), where pa = "pa + PGSIZE"])
      fix u zs new'
      assume "mappages_loop pt (a + PGSIZE) lst (pa + PGSIZE) perm ?t = Ok (0, u)"
        "vm_step ?t ys R u zs new' (map_range (ents (mem ?t)) pt (pgno (a + PGSIZE)) (Suc n) (pa + PGSIZE) perm)"
      then show ?thesis using Suc.prems(1) comb unfolding eq by blast
    next
      fix u i
      assume "mappages_loop pt (a + PGSIZE) lst (pa + PGSIZE) perm ?t = Ok (- 1, u)" "i \<le> n" "length ys \<le> 2 * Suc n"
        "vm_step ?t ys R u [] ys (map_range (ents (mem ?t)) pt (pgno (a + PGSIZE)) i (pa + PGSIZE) perm)"
      moreover from this have "length xs \<le> 2 * Suc (Suc n)" "xs = new @ ys" using S(1) w(3) by simp_all
      ultimately show ?thesis using Suc.prems(2) [of u "Suc i"] comb [of u "[]" ys i] unfolding eq by blast
    qed
  qed
qed

lemma PGROUNDDOWN_last: "aligned va \<Longrightarrow> PGROUNDDOWN (va + PGSIZE - 1) = va"
  using PGROUNDUP_aligned [of va] by (simp add: PGROUNDUP_down PGSIZE_def add.commute)

lemma mappages_one:
  assumes "vm_inv s xs R" "pt \<in> R" "aligned va" "va < MAXVA"
  obtains (fail) t where "mappages pt va PGSIZE pa perm s = Ok (-1, t)"
      "vm_step s xs R t [] xs (ents (mem s))" "length xs \<le> 2" "pt_node (mem s) 2 pt (pgno va) = None"
  | (ok) t new ys where "mappages pt va PGSIZE pa perm s = Ok (0, t)" "length new \<le> 2"
      "vm_step s xs R t ys new ((ents (mem s))((pt, pgno va) := PA2PTE pa OR perm OR PTE_V))"
proof -
  have eq: "mappages pt va PGSIZE pa perm s = mappages_loop pt va va pa perm s"
    using assms(3) PGROUNDDOWN_last [OF assms(3)] by (simp add: mappages_def) (simp add: PGSIZE_def)
  show ?thesis
  proof (rule map_step [OF assms(1,2,4), where v = "PA2PTE pa OR perm OR PTE_V"])
    fix t assume "walk pt va True s = Ok (0, t)" "vm_step s xs R t [] xs (ents (mem s))" "length xs \<le> 2"
      "pt_node (mem s) 2 pt (pgno va) = None"
    then show ?thesis using fail [of t] eq by (simp add: mappages_loop.simps [of pt va])
  next
    fix r t new ys assume "walk pt va True s = Ok (r, t)" "r \<noteq> 0" "length new \<le> 2"
      "vm_step s xs R (t\<lparr>mem := store64 (mem t) r (PA2PTE pa OR perm OR PTE_V)\<rparr>) ys new
         ((ents (mem s))((pt, pgno va) := PA2PTE pa OR perm OR PTE_V))"
    moreover from this have "mappages pt va PGSIZE pa perm s
        = Ok (0, t\<lparr>mem := store64 (mem t) r (PA2PTE pa OR perm OR PTE_V)\<rparr>)"
      using eq by (simp add: mappages_loop.simps [of pt va])
    ultimately show ?thesis using ok by blast
  qed
qed

section \<open>Reading translations\<close>

lemma walkaddr_eq:
  assumes "vm_inv s xs R" "pt \<in> R"
  shows "walkaddr pt va s = Ok (if va < MAXVA \<and> bit (ents (mem s) (pt, pgno va)) 0 \<and>
    bit (ents (mem s) (pt, pgno va)) 4 then PTE2PA (ents (mem s) (pt, pgno va)) else 0)"
proof (cases "va < MAXVA")
  case True
  show ?thesis
  proof (cases "pt_node (mem s) 2 pt (pgno va)")
    case None
    then have "ents (mem s) (pt, pgno va) = 0" by (simp add: ents_def pt_lookup_def)
    then show ?thesis using walk_absent [OF True None] True by (simp add: walkaddr_def)
  next
    case (Some n)
    then show ?thesis
      using walk_found [OF True Some] node_slot [OF assms Some] True less_le_not_le [of va MAXVA]
      by (auto simp: walkaddr_def pte_flag_tests)
  qed
qed (auto simp: walkaddr_def not_less dest: leD)

section \<open>Freeing a page that is not a table\<close>

lemma kfree_data:
  assumes "vm_inv s xs R" "kpage s p" "get_kmem_ref p s \<noteq> 0" "p \<notin> tables (mem s) R"
  obtains t where "kfree p s = Ok t" "vm_inv t (if get_kmem_ref p s = 1 then p # xs else xs) R"
    "tables (mem t) R = tables (mem s) R"
    "\<And>pt k. pt \<in> R \<Longrightarrow> pt_node (mem t) 2 pt k = pt_node (mem s) 2 pt k"
    "\<And>x. fst x \<in> R \<Longrightarrow> ents (mem t) x = ents (mem s) x" "get_kmem_ref p t = get_kmem_ref p s - 1"
    "\<And>q. kpage s q \<Longrightarrow> q \<noteq> p \<Longrightarrow> get_kmem_ref q t = get_kmem_ref q s"
    "\<And>k. k \<noteq> pgno p \<or> get_kmem_ref p s \<noteq> 1 \<Longrightarrow> agree (mem s) (mem t) k"
    "lock_ctx s t" "kend t = kend s" "kmem.more t = kmem.more s"
proof -
  note I = vm_invD [OF assms(1)]
  obtain t where t: "kfree p s = Ok t" "kmem_inv t (if get_kmem_ref p s = 1 then p # xs else xs)"
    "get_kmem_ref p t = get_kmem_ref p s - 1" "\<And>q. kpage s q \<Longrightarrow> q \<noteq> p \<Longrightarrow> get_kmem_ref q t = get_kmem_ref q s"
    "\<And>k. k \<noteq> pgno p \<or> get_kmem_ref p s \<noteq> 1 \<Longrightarrow> agree (mem s) (mem t) k"
    "lock_ctx s t" "kend t = kend s" "kmem.more t = kmem.more s"
    by (rule kfree_cases [OF I(1,2) assms(2,3)]) blast
  have fr: "agree (mem s) (mem t) (pgno q)" if "q \<in> tables (mem s) R" for q
  proof -
    have "aligned q" "q \<noteq> p" using that tables_owned [OF assms(1), of q] assms(4) by (auto simp: kpage_def)
    then show ?thesis using t(5) assms(2) by (simp add: aligned_pgno_eq kpage_def)
  qed
  have F: "pt_pages (mem t) 2 pt = pt_pages (mem s) 2 pt \<and> pt_wf (mem t) 2 pt = pt_wf (mem s) 2 pt \<and>
      pt_node (mem t) 2 pt = pt_node (mem s) 2 pt" "pt_lookup (mem t) 2 pt = pt_lookup (mem s) 2 pt"
    if "pt \<in> R" for pt
    using that fr I(7) [OF that] by (auto simp: tables_def intro!: pt_frame [of "mem s"] pt_frame_lookup [of "mem s"])
  have kp: "kpage t = kpage s" using t(7) by (intro ext kpage_cong)
  have "pt_ok t 2 pt" if "pt \<in> R" for pt
  proof -
    have "get_kmem_ref q t = 1" if "q \<in> pt_pages (mem s) 2 pt" for q
    proof -
      have q: "q \<in> tables (mem s) R" using that \<open>pt \<in> R\<close> by (auto simp: tables_def)
      then have "q \<noteq> p" using assms(4) by blast
      then show ?thesis using tables_owned [OF assms(1) q] t(4) [of q] by simp
    qed
    then show ?thesis using I(5) [OF that] F(1) [OF that] kp by (simp add: pt_ok_def)
  qed
  moreover have "kmem_ready t" using kmem_ready_ctx [OF t(6)] I(1) by simp
  ultimately have "vm_inv t (if get_kmem_ref p s = 1 then p # xs else xs) R"
    using t(2) I(4,6) F(1) by (simp add: vm_inv_def)
  moreover have "tables (mem t) R = tables (mem s) R" using F by (simp add: tables_def)
  ultimately show ?thesis using that [of t] t F by (simp add: ents_def)
qed

end
