(* ===== verification/Cow_Refs.thy ===== *)
theory Cow_Refs
  imports Riscv
begin

unbundle bit_operations_syntax

text \<open>
  Copy-on-write sharing, without the memory that implements it: slots \<open>x\<close> of a finite set
  \<open>D\<close> hold page-table entries \<open>L x\<close>, and \<open>ref p\<close> counts the valid entries that point to
  page \<open>p\<close>. \<open>refs_ok\<close> says that the counters are exact and that an entry with the write bit
  is the only one for its page. The lemmas are the changes that \<^verbatim>\<open>kernel/vm.c\<close> and the page
  fault handler make: map a new page, share a page, drop a mapping, change the flags.
\<close>

definition maps :: "'x set \<Rightarrow> ('x \<Rightarrow> u64) \<Rightarrow> u64 \<Rightarrow> 'x set" where
  "maps D L p = {x \<in> D. bit (L x) 0 \<and> PTE2PA (L x) = p}"

definition refs_ok :: "'x set \<Rightarrow> ('x \<Rightarrow> u64) \<Rightarrow> (u64 \<Rightarrow> u32) \<Rightarrow> bool" where
  "refs_ok D L ref \<longleftrightarrow> (\<forall>p. maps D L p \<noteq> {} \<longrightarrow> unat (ref p) = card (maps D L p) \<and>
     (\<forall>x \<in> maps D L p. bit (L x) 2 \<longrightarrow> maps D L p = {x}))"

lemma refs_okD:
  assumes "refs_ok D L ref" "x \<in> D" "bit (L x) 0"
  shows "unat (ref (PTE2PA (L x))) = card (maps D L (PTE2PA (L x)))"
    "bit (L x) 2 \<Longrightarrow> maps D L (PTE2PA (L x)) = {x}" "x \<in> maps D L (PTE2PA (L x))"
  using assms by (auto simp: refs_ok_def maps_def)

lemma refs_ok_pos:
  "refs_ok D L ref \<Longrightarrow> finite D \<Longrightarrow> x \<in> D \<Longrightarrow> bit (L x) 0 \<Longrightarrow> ref (PTE2PA (L x)) \<noteq> 0"
  using refs_okD [of D L ref x] by (auto simp: maps_def)

lemma finite_maps: "finite D \<Longrightarrow> finite (maps D L p)"
  by (simp add: maps_def)

lemma maps_cong: "(\<And>x. x \<in> D \<Longrightarrow> L x = L' x) \<Longrightarrow> maps D L p = maps D L' p"
  by (auto simp: maps_def)

lemma refs_ok_cong:
  assumes ok: "refs_ok D L ref" and L: "\<And>x. x \<in> D \<Longrightarrow> L' x = L x"
    and r: "\<And>p. maps D L p \<noteq> {} \<Longrightarrow> ref' p = ref p"
  shows "refs_ok D L' ref'"
proof -
  have m: "maps D L' p = maps D L p" for p by (rule maps_cong) (rule L)
  have "L' x = L x" if "x \<in> maps D L p" for x p using that by (intro L) (simp add: maps_def)
  then show ?thesis using ok r unfolding refs_ok_def m by simp
qed

lemma maps_upd:
  "x \<in> D \<Longrightarrow> maps D (L(x := e)) p = (if bit e 0 \<and> PTE2PA e = p then insert x (maps D L p) else maps D L p - {x})"
  by (auto simp: maps_def)

text \<open>A page that nobody maps, mapped once.\<close>

lemma refs_ok_map:
  assumes "refs_ok D L ref" "x \<in> D" "\<not> bit (L x) 0" "maps D L (PTE2PA e) = {}"
    and "\<And>p. maps D L p \<noteq> {} \<Longrightarrow> ref' p = ref p" "bit e 0 \<Longrightarrow> ref' (PTE2PA e) = 1"
  shows "refs_ok D (L(x := e)) ref'"
proof -
  have "x \<notin> maps D L p" for p using assms(3) by (simp add: maps_def)
  then have m: "maps D (L(x := e)) p = (if bit e 0 \<and> PTE2PA e = p then {x} else maps D L p)" for p
    using maps_upd [OF assms(2)] assms(4) by auto
  show ?thesis
    unfolding refs_ok_def
  proof (intro allI impI conjI ballI)
    fix p assume ne: "maps D (L(x := e)) p \<noteq> {}"
    show "unat (ref' p) = card (maps D (L(x := e)) p)"
      using ne assms(1) assms(5) [of p] assms(6) m [of p]
      by (cases "bit e 0 \<and> PTE2PA e = p") (auto simp: refs_ok_def)
    fix y assume "y \<in> maps D (L(x := e)) p" "bit ((L(x := e)) y) 2"
    then show "maps D (L(x := e)) p = {y}"
      using assms(1,3) m [of p] by (cases "y = x") (auto simp: refs_ok_def maps_def split: if_splits)
  qed
qed

text \<open>One more mapping of a page, none of them writable.\<close>

lemma refs_ok_share:
  assumes "refs_ok D L ref" "finite D" "x \<in> D" "\<not> bit (L x) 0" "bit e 0" "\<not> bit e 2"
    and "maps D L (PTE2PA e) \<noteq> {}" "\<And>y. y \<in> maps D L (PTE2PA e) \<Longrightarrow> \<not> bit (L y) 2"
    and "\<And>p. maps D L p \<noteq> {} \<Longrightarrow> p \<noteq> PTE2PA e \<Longrightarrow> ref' p = ref p"
    and "ref' (PTE2PA e) = ref (PTE2PA e) + 1" "card (maps D L (PTE2PA e)) + 1 < 2 ^ 32"
  shows "refs_ok D (L(x := e)) ref'"
proof -
  have nx: "x \<notin> maps D L p" for p using assms(4) by (simp add: maps_def)
  then have m: "maps D (L(x := e)) p = (if PTE2PA e = p then insert x (maps D L p) else maps D L p)" for p
    using maps_upd [OF assms(3)] assms(5) by auto
  have u: "unat (ref (PTE2PA e)) = card (maps D L (PTE2PA e))" using assms(1,7) by (simp add: refs_ok_def)
  show ?thesis
    unfolding refs_ok_def
  proof (intro allI impI conjI ballI)
    fix p assume ne: "maps D (L(x := e)) p \<noteq> {}"
    show "unat (ref' p) = card (maps D (L(x := e)) p)"
    proof (cases "p = PTE2PA e")
      case True
      then show ?thesis using m [of p] nx u assms(10,11) finite_maps [OF assms(2), of L p]
        by (simp add: unat_word_ariths)
    next
      case False
      then show ?thesis using ne m [of p] assms(1) assms(9) [of p] by (simp add: refs_ok_def)
    qed
    fix y assume y: "y \<in> maps D (L(x := e)) p" "bit ((L(x := e)) y) 2"
    then have "y \<noteq> x" using assms(6) by auto
    moreover from this have "p \<noteq> PTE2PA e" using y assms(8) [of y] m [of p] by auto
    ultimately show "maps D (L(x := e)) p = {y}" using y assms(1) m [of p] by (auto simp: refs_ok_def)
  qed
qed

text \<open>A mapping dropped.\<close>

lemma refs_ok_drop:
  assumes "refs_ok D L ref" "finite D" "x \<in> D" "bit (L x) 0" "\<not> bit e 0"
    and "\<And>p. maps D L p \<noteq> {} \<Longrightarrow> p \<noteq> PTE2PA (L x) \<Longrightarrow> ref' p = ref p"
    and "ref' (PTE2PA (L x)) = ref (PTE2PA (L x)) - 1"
  shows "refs_ok D (L(x := e)) ref'"
proof -
  let ?q = "PTE2PA (L x)"
  have m: "maps D (L(x := e)) p = (if p = ?q then maps D L p - {x} else maps D L p)" for p
    using maps_upd [OF assms(3), of L e p] assms(5) by (auto simp: maps_def)
  have xq: "x \<in> maps D L ?q" and u: "unat (ref ?q) = card (maps D L ?q)"
    using refs_okD [OF assms(1,3,4)] by auto
  then have c: "card (maps D L ?q - {x}) = card (maps D L ?q) - 1" "card (maps D L ?q) \<noteq> 0"
    using finite_maps [OF assms(2), of L ?q] by (auto simp: card_Diff_singleton)
  then have "ref ?q \<noteq> 0" using u by auto
  then have ur: "unat (ref ?q - 1) = unat (ref ?q) - 1" by (simp add: unat_sub_if' unat_gt_0 Suc_le_eq)
  show ?thesis
    unfolding refs_ok_def
  proof (intro allI impI conjI ballI)
    fix p assume ne: "maps D (L(x := e)) p \<noteq> {}"
    then have "maps D L p \<noteq> {}" using m [of p] by (auto split: if_splits)
    then show "unat (ref' p) = card (maps D (L(x := e)) p)"
      using m [of p] c u ur assms(1,7) assms(6) [of p] by (cases "p = ?q") (auto simp: refs_ok_def)
    fix y assume y: "y \<in> maps D (L(x := e)) p" "bit ((L(x := e)) y) 2"
    then have "y \<noteq> x" using assms(5) by (auto simp: maps_def)
    with y have "y \<in> maps D L p" "bit (L y) 2" using m [of p] by (auto split: if_splits)
    then have "maps D L p = {y}" using assms(1) by (auto simp: refs_ok_def)
    then show "maps D (L(x := e)) p = {y}" using y m [of p] by (auto split: if_splits)
  qed
qed

text \<open>Other flags for the same page. The write bit is only set where the mapping is the only one.\<close>

lemma refs_ok_flags:
  assumes "refs_ok D L ref" "x \<in> D" "bit (L x) 0" "bit e 0" "PTE2PA e = PTE2PA (L x)"
    and "bit e 2 \<Longrightarrow> bit (L x) 2 \<or> ref (PTE2PA e) = 1"
  shows "refs_ok D (L(x := e)) ref"
proof -
  have m: "maps D (L(x := e)) p = maps D L p" for p
    using maps_upd [OF assms(2), of L e p] assms by (auto simp: maps_def)
  have xq: "x \<in> maps D L (PTE2PA e)" and u: "unat (ref (PTE2PA e)) = card (maps D L (PTE2PA e))"
    using refs_okD [OF assms(1-3)] assms(5) by auto
  have "maps D L (PTE2PA e) = {x}" if "bit e 2"
    using assms(6) [OF that]
  proof
    assume "bit (L x) 2"
    then show ?thesis using refs_okD(2) [OF assms(1-3)] assms(5) by simp
  next
    assume "ref (PTE2PA e) = 1"
    then have "card (maps D L (PTE2PA e)) = 1" using u by simp
    then show ?thesis using xq by (auto simp: card_1_singleton_iff)
  qed
  moreover have "p = PTE2PA e" if "x \<in> maps D L p" for p using that assms(5) by (simp add: maps_def)
  ultimately show ?thesis
    using assms(1) unfolding refs_ok_def m by (metis fun_upd_apply)
qed

end
