(* ===== verification/Cow.thy ===== *)
theory Cow
  imports Vm_Map Cow_Refs
begin

unbundle bit_operations_syntax

text \<open>
  Copy-on-write address spaces. \<open>cow_inv s xs R\<close> is the invariant of the user page tables
  \<open>R\<close>: the counter of every user page is the number of entries that map it, an entry with
  the write bit is the only one for its page, and no user page is a page-table page.
\<close>

section \<open>Invariant\<close>

text \<open>User memory is what a page table maps below the trapframe page.\<close>

definition UPAGES :: nat where "UPAGES = pgno TRAPFRAME"

lemma UPAGES_simp [simp]: "UPAGES = 67108862"
  by (simp add: UPAGES_def pgno_def riscv_consts)

definition uslots :: "u64 set \<Rightarrow> (u64 \<times> nat) set" where
  "uslots R = R \<times> {..<UPAGES}"

definition umaps :: "'a kmem_scheme \<Rightarrow> u64 set \<Rightarrow> u64 \<Rightarrow> (u64 \<times> nat) set" where
  "umaps s R p = maps (uslots R) (ents (mem s)) p"

definition cow_inv :: "'a kmem_scheme \<Rightarrow> u64 list \<Rightarrow> u64 set \<Rightarrow> bool" where
  "cow_inv s xs R \<longleftrightarrow> vm_inv s xs R \<and>
     (\<forall>x \<in> uslots R. bit (ents (mem s) x) 0 \<longrightarrow> kpage s (PTE2PA (ents (mem s) x)) \<and>
        PTE2PA (ents (mem s) x) \<notin> tables (mem s) R \<and> PTE_FLAGS (ents (mem s) x) \<noteq> PTE_V) \<and>
     refs_ok (uslots R) (ents (mem s)) (\<lambda>p. get_kmem_ref p s)"

lemma uslots_sub: "x \<in> uslots R \<Longrightarrow> x \<in> R \<times> {..<VPAGES}"
  by (auto simp: uslots_def)

lemma finite_uslots: "finite R \<Longrightarrow> finite (uslots R)"
  by (simp add: uslots_def)

lemma cow_invD:
  assumes "cow_inv s xs R"
  shows "vm_inv s xs R" "refs_ok (uslots R) (ents (mem s)) (\<lambda>p. get_kmem_ref p s)" "finite (uslots R)"
    "\<And>x. x \<in> uslots R \<Longrightarrow> bit (ents (mem s) x) 0 \<Longrightarrow> kpage s (PTE2PA (ents (mem s) x))"
    "\<And>x. x \<in> uslots R \<Longrightarrow> bit (ents (mem s) x) 0 \<Longrightarrow> PTE2PA (ents (mem s) x) \<notin> tables (mem s) R"
    "\<And>x. x \<in> uslots R \<Longrightarrow> bit (ents (mem s) x) 0 \<Longrightarrow> PTE_FLAGS (ents (mem s) x) \<noteq> PTE_V"
    "\<And>x. x \<in> uslots R \<Longrightarrow> bit (ents (mem s) x) 0 \<Longrightarrow> get_kmem_ref (PTE2PA (ents (mem s) x)) s \<noteq> 0"
  using assms refs_ok_pos [of "uslots R" "ents (mem s)"]
  by (auto simp: cow_inv_def vm_inv_def finite_uslots)

text \<open>A user page: mapped by some entry. A kernel page: allocated, neither a table nor a user page.\<close>

lemma upage_facts:
  assumes "cow_inv s xs R" "umaps s R p \<noteq> {}"
  shows "kpage s p" "get_kmem_ref p s \<noteq> 0" "p \<notin> tables (mem s) R" "p \<notin> set xs"
proof -
  obtain x where x: "x \<in> uslots R" "bit (ents (mem s) x) 0" "PTE2PA (ents (mem s) x) = p"
    using assms(2) by (auto simp: umaps_def maps_def)
  then show "kpage s p" "get_kmem_ref p s \<noteq> 0" "p \<notin> tables (mem s) R"
    using cow_invD(4,5,7) [OF assms(1) x(1,2)] by auto
  then show "p \<notin> set xs" using cow_invD(1) [OF assms(1)] by (auto simp: vm_inv_def kmem_inv_def)
qed

definition kown :: "'a kmem_scheme \<Rightarrow> u64 set \<Rightarrow> u64 \<Rightarrow> bool" where
  "kown s R p \<longleftrightarrow> kpage s p \<and> get_kmem_ref p s \<noteq> 0 \<and> p \<notin> tables (mem s) R \<and> umaps s R p = {}"

section \<open>The counters cannot overflow\<close>

lemma card_kpages: "kend_ok s \<Longrightarrow> finite {p. kpage s p} \<and> card {p. kpage s p} \<le> 32768"
proof -
  assume ok: "kend_ok s"
  have inj: "inj_on pgno {p. kpage s p}"
    by (rule inj_onI) (auto simp: kpage_def aligned_pgno_eq)
  have sub: "pgno ` {p. kpage s p} \<subseteq> {524288..<557056}"
  proof
    fix k assume "k \<in> pgno ` {p. kpage s p}"
    then obtain p where p: "kpage s p" "k = pgno p" by auto
    have "524288 * 4096 \<le> unat p" "unat p < 557056 * 4096" using kpage_bounds(1,2) [OF ok p(1)] by simp_all
    then show "k \<in> {524288..<557056}"
      using p(2) by (simp add: pgno_def less_mult_imp_div_less)
  qed
  have fin: "finite {p. kpage s p}" by (rule finite_imageD [OF finite_subset [OF sub] inj]) simp
  have "card (pgno ` {p. kpage s p}) \<le> card {524288..<557056 :: nat}" using sub by (intro card_mono) auto
  then show ?thesis using fin card_image [OF inj] by simp
qed

lemma node_of_valid: "bit (ents m (pt, k)) 0 \<Longrightarrow> \<exists>n. pt_node m 2 pt k = Some n"
  by (auto simp: ents_def pt_lookup_def split: option.splits)

lemma card_mappings:
  assumes "vm_inv s xs R"
  shows "card (maps (R \<times> {..<VPAGES}) (ents (mem s)) p) \<le> 16777216"
proof -
  let ?M = "maps (R \<times> {..<VPAGES}) (ents (mem s)) p"
  let ?f = "\<lambda>(pt, k). (the (pt_node (mem s) 2 pt k), k mod 512)"
  note I = vm_invD [OF assms]
  have node: "\<exists>n. pt_node (mem s) 2 pt k = Some n \<and> n \<in> pt_pages (mem s) 2 pt \<and> pt \<in> R \<and> kpage s n"
    if "(pt, k) \<in> ?M" for pt k
  proof -
    have pt: "pt \<in> R" and "bit (ents (mem s) (pt, k)) 0" using that by (auto simp: maps_def)
    then obtain n where n: "pt_node (mem s) 2 pt k = Some n" using node_of_valid by blast
    then show ?thesis using pt_node_in_pages [OF n] pt I(5) [OF pt] by (auto simp: pt_ok_def)
  qed
  have inj: "inj_on ?f ?M"
  proof (rule inj_onI, clarify)
    fix pt k pt' k'
    assume M: "(pt, k) \<in> ?M" "(pt', k') \<in> ?M"
      and eq: "the (pt_node (mem s) 2 pt k) = the (pt_node (mem s) 2 pt' k')" "k mod 512 = k' mod 512"
    obtain n where n: "pt_node (mem s) 2 pt k = Some n" "pt_node (mem s) 2 pt' k' = Some n"
        "n \<in> pt_pages (mem s) 2 pt" "n \<in> pt_pages (mem s) 2 pt'" "pt \<in> R" "pt' \<in> R"
      using node [OF M(1)] node [OF M(2)] eq(1) by auto
    then have pt: "pt = pt'" using I(6) [of pt pt'] by blast
    have "pt_wf (mem s) 2 pt" using I(5) [OF n(5)] by (simp add: pt_ok_def)
    then have "k mod 512 ^ Suc 2 div 512 = k' mod 512 ^ Suc 2 div 512"
      using pt_node_inj [of "mem s" 2 pt k n k'] n pt by simp
    moreover have "k < 134217728" "k' < 134217728" using M by (auto simp: maps_def)
    ultimately have "k div 512 = k' div 512" by simp
    then show "pt = pt' \<and> k = k'" using pt eq(2) by (metis div_mult_mod_eq)
  qed
  have "?f ` ?M \<subseteq> {p. kpage s p} \<times> {..<512}" using node by force
  then have "card (?f ` ?M) \<le> card ({p. kpage s p} \<times> {..<512 :: nat})"
    using card_kpages [OF I(3)] by (intro card_mono) auto
  also have "\<dots> \<le> 32768 * 512" using card_kpages [OF I(3)] by (simp add: card_cartesian_product)
  finally show ?thesis using card_image [OF inj] by simp
qed

lemma card_umaps:
  assumes "vm_inv s xs R"
  shows "card (umaps s R p) \<le> 16777216"
proof -
  have "umaps s R p \<subseteq> maps (R \<times> {..<VPAGES}) (ents (mem s)) p"
    using uslots_sub by (auto simp: umaps_def maps_def)
  moreover have "finite (maps (R \<times> {..<VPAGES}) (ents (mem s)) p)"
    using vm_invD(4) [OF assms] by (intro finite_maps) auto
  ultimately show ?thesis using card_mappings [OF assms, of p] by (meson card_mono le_trans)
qed

section \<open>Frames\<close>

text \<open>
  \<open>cow_rel s R t\<close>: locks, harts and the other state are as before, and the kernel's own pages
  keep their contents and counters.
\<close>

definition cow_rel :: "'a kmem_scheme \<Rightarrow> u64 set \<Rightarrow> 'a kmem_scheme \<Rightarrow> bool" where
  "cow_rel s R t \<longleftrightarrow> lock_ctx s t \<and> kend t = kend s \<and> kmem.more t = kmem.more s \<and>
     (\<forall>p. kown s R p \<longrightarrow> kown t R p \<and> get_kmem_ref p t = get_kmem_ref p s \<and> agree (mem s) (mem t) (pgno p))"

lemma cow_rel_refl: "cow_rel s R s"
  by (simp add: cow_rel_def)

lemma cow_rel_trans: "cow_rel s R t \<Longrightarrow> cow_rel t R u \<Longrightarrow> cow_rel s R u"
  unfolding cow_rel_def by (auto intro: lock_ctx_trans agree_trans)

text \<open>User pages that are mapped before and after keep their contents.\<close>

definition ukeeps :: "'a kmem_scheme \<Rightarrow> u64 set \<Rightarrow> 'a kmem_scheme \<Rightarrow> bool" where
  "ukeeps s R t \<longleftrightarrow> (\<forall>p. umaps s R p \<noteq> {} \<longrightarrow> umaps t R p \<noteq> {} \<longrightarrow> agree (mem s) (mem t) (pgno p))"

lemma ukeepsI: "(\<And>p. umaps s R p \<noteq> {} \<Longrightarrow> umaps t R p \<noteq> {} \<Longrightarrow> agree (mem s) (mem t) (pgno p)) \<Longrightarrow> ukeeps s R t"
  by (simp add: ukeeps_def)

lemma ukeeps_trans:
  "ukeeps s R t \<Longrightarrow> ukeeps t R u \<Longrightarrow> (\<And>p. umaps s R p \<noteq> {} \<Longrightarrow> umaps u R p \<noteq> {} \<Longrightarrow> umaps t R p \<noteq> {}) \<Longrightarrow> ukeeps s R u"
  unfolding ukeeps_def by (meson agree_trans)

lemma umaps_eq: "(\<And>x. x \<in> R \<times> {..<VPAGES} \<Longrightarrow> ents (mem t) x = L x) \<Longrightarrow> umaps t R p = maps (uslots R) L p"
  unfolding umaps_def by (rule maps_cong) (use uslots_sub in blast)

lemma cow_of_step:
  assumes inv: "cow_inv s xs R" and st: "vm_step s xs R t ys new L"
    and L: "\<And>x. x \<in> uslots R \<Longrightarrow> bit (L x) 0 \<Longrightarrow> kpage s (PTE2PA (L x)) \<and>
      PTE2PA (L x) \<notin> tables (mem s) R \<and> PTE2PA (L x) \<notin> set new \<and> PTE_FLAGS (L x) \<noteq> PTE_V"
    and refs: "refs_ok (uslots R) L (\<lambda>p. get_kmem_ref p t)"
  shows "cow_inv t ys R"
proof -
  note S = vm_stepD [OF st]
  have e: "ents (mem t) x = L x" if "x \<in> uslots R" for x using S(6) uslots_sub that by blast
  have "refs_ok (uslots R) (ents (mem t)) (\<lambda>p. get_kmem_ref p t)"
    using refs by (rule refs_ok_cong) (auto simp: e)
  then show ?thesis unfolding cow_inv_def using S(2) L e allocsD(5) [OF S(3)] S(4) by auto
qed

lemma step_frames:
  assumes inv: "cow_inv s xs R" and st: "vm_step s xs R t ys new L"
    and L: "\<And>x. x \<in> uslots R \<Longrightarrow> bit (L x) 0 \<Longrightarrow> \<not> kown s R (PTE2PA (L x))"
  shows "cow_rel s R t" "ukeeps s R t"
proof -
  note S = vm_stepD [OF st] and A = allocsD [OF vm_stepD(3) [OF st]]
  have agr: "agree (mem s) (mem t) (pgno p) \<and> p \<notin> tables (mem t) R \<and> get_kmem_ref p t = get_kmem_ref p s"
    if "kpage s p" "get_kmem_ref p s \<noteq> 0" "p \<notin> tables (mem s) R" for p
  proof -
    have n: "p \<notin> set new" using that S(1) free_page_facts [OF cow_invD(1) [OF inv], of p] by auto
    then have pt: "p \<notin> tables (mem t) R" using that(3) S(4) by simp
    have "pgno p \<notin> pgno ` tables (mem t) R"
      using pt that(1) tables_owned [OF S(2)] by (auto simp: kpage_def aligned_pgno_eq)
    then show ?thesis using S(5) pt A(7) [OF that(1) n] by simp
  qed
  have um: "umaps t R p = maps (uslots R) L p" for p using S(6) by (rule umaps_eq)
  have "umaps t R p = {}" if "kown s R p" for p using that L unfolding um by (auto simp: maps_def)
  then show "cow_rel s R t"
    unfolding cow_rel_def using A agr by (auto simp: kown_def)
  show "ukeeps s R t" using agr upage_facts [OF inv] by (intro ukeepsI) blast
qed

section \<open>Unmapping\<close>

lemma unmap_step:
  assumes inv: "cow_inv s xs R" and pt: "pt \<in> R" and va: "va < MAXVA" "pgno va < UPAGES"
    and v: "bit (ents (mem s) (pt, pgno va)) 0"
  obtains t where
    "\<And>e. va < e \<Longrightarrow> uvmunmap_loop pt va e True s = uvmunmap_loop pt (va + PGSIZE) e True t"
    "cow_inv t (if get_kmem_ref (PTE2PA (ents (mem s) (pt, pgno va))) s = 1
       then PTE2PA (ents (mem s) (pt, pgno va)) # xs else xs) R"
    "\<And>x. x \<in> R \<times> {..<VPAGES} \<Longrightarrow> ents (mem t) x = ((ents (mem s))((pt, pgno va) := 0)) x"
    "tables (mem t) R = tables (mem s) R" "cow_rel s R t" "ukeeps s R t"
    "get_kmem_ref (PTE2PA (ents (mem s) (pt, pgno va))) t = get_kmem_ref (PTE2PA (ents (mem s) (pt, pgno va))) s - 1"
    "\<And>q. kpage s q \<Longrightarrow> q \<noteq> PTE2PA (ents (mem s) (pt, pgno va)) \<Longrightarrow> get_kmem_ref q t = get_kmem_ref q s"
proof -
  let ?x = "(pt, pgno va)"
  let ?p = "PTE2PA (ents (mem s) ?x)"
  let ?ys = "if get_kmem_ref ?p s = 1 then ?p # xs else xs"
  note I = cow_invD [OF inv]
  have x: "?x \<in> uslots R" using pt va by (simp add: uslots_def)
  have k: "pgno va < VPAGES" using va by simp
  obtain n where n: "pt_node (mem s) 2 pt (pgno va) = Some n" "walk pt va False s = Ok (slot_of n (pgno va), s)"
      "slot_of n (pgno va) \<noteq> 0" "load64 (mem s) (slot_of n (pgno va)) = ents (mem s) ?x"
    by (rule walk_read [OF I(1) pt va(1) v])
  obtain u where u: "kfree ?p s = Ok u" "vm_inv u ?ys R" "tables (mem u) R = tables (mem s) R"
      "\<And>pt k. pt \<in> R \<Longrightarrow> pt_node (mem u) 2 pt k = pt_node (mem s) 2 pt k"
      "\<And>x. fst x \<in> R \<Longrightarrow> ents (mem u) x = ents (mem s) x" "get_kmem_ref ?p u = get_kmem_ref ?p s - 1"
      "\<And>q. kpage s q \<Longrightarrow> q \<noteq> ?p \<Longrightarrow> get_kmem_ref q u = get_kmem_ref q s"
      "\<And>k. k \<noteq> pgno ?p \<or> get_kmem_ref ?p s \<noteq> 1 \<Longrightarrow> agree (mem s) (mem u) k"
      "lock_ctx s u" "kend u = kend s" "kmem.more u = kmem.more s"
    by (rule kfree_data [OF I(1) I(4) [OF x v] I(7) [OF x v] I(5) [OF x v]]) blast
  let ?t = "u\<lparr>mem := store64 (mem u) (slot_of n (pgno va)) 0\<rparr>"
  have "pt_node (mem u) 2 pt (pgno va) = Some n" using u(4) [OF pt] n(1) by simp
  note st = store_step [OF u(2) pt this k, of 0]
  note S = vm_stepD [OF st]
  have e: "ents (mem ?t) y = ((ents (mem s))(?x := 0)) y" if "y \<in> R \<times> {..<VPAGES}" for y
    using S(6) [OF that] u(5) [of y] that by auto
  have loop: "uvmunmap_loop pt va e True s = uvmunmap_loop pt (va + PGSIZE) e True ?t" if "va < e" for e
    using that n(2-4) v u(1) I(6) [OF x v] by (simp add: uvmunmap_loop.simps [of pt va] pte_flag_tests)
  have kp: "kpage ?t = kpage s" using u(10) by (auto simp: kpage_def fun_eq_iff)
  have um: "umaps ?t R p = maps (uslots R) ((ents (mem s))(?x := 0)) p" for p using e by (rule umaps_eq)
  have shrink: "umaps ?t R p \<subseteq> umaps s R p" for p
    unfolding um by (auto simp: umaps_def maps_def split: if_splits)
  have "refs_ok (uslots R) ((ents (mem s))(?x := 0)) (\<lambda>p. get_kmem_ref p ?t)"
  proof (rule refs_ok_drop [OF I(2,3) x v])
    show "get_kmem_ref p ?t = get_kmem_ref p s" if "maps (uslots R) (ents (mem s)) p \<noteq> {}" "p \<noteq> ?p" for p
      using upage_facts(1) [OF inv, of p] that u(7) [of p] by (simp add: umaps_def)
  qed (use u(6) in simp_all)
  then have "refs_ok (uslots R) (ents (mem ?t)) (\<lambda>p. get_kmem_ref p ?t)"
    by (rule refs_ok_cong) (use e uslots_sub in blast)+
  moreover have "kpage ?t (PTE2PA (ents (mem ?t) y)) \<and> PTE2PA (ents (mem ?t) y) \<notin> tables (mem ?t) R \<and>
      PTE_FLAGS (ents (mem ?t) y) \<noteq> PTE_V" if "y \<in> uslots R" "bit (ents (mem ?t) y) 0" for y
    using that e [OF uslots_sub [OF that(1)]] I(4-6) [of y] S(4) u(3) unfolding kp by (auto split: if_splits)
  ultimately have cow: "cow_inv ?t ?ys R" unfolding cow_inv_def using S(2) by blast
  have tab: "tables (mem ?t) R = tables (mem s) R" using S(4) u(3) by simp
  have keep: "agree (mem s) (mem ?t) (pgno p)"
    if "kpage s p" "p \<notin> tables (mem s) R" "p \<noteq> ?p \<or> get_kmem_ref ?p s \<noteq> 1" for p
  proof -
    have "pgno p \<notin> pgno ` tables (mem ?t) R"
      using that(1,2) tables_owned [OF I(1)] tab by (auto simp: kpage_def aligned_pgno_eq)
    then have "agree (mem u) (mem ?t) (pgno p)" by (rule S(5))
    moreover have "agree (mem s) (mem u) (pgno p)"
      using u(8) that(1,3) I(4) [OF x v] by (auto simp: kpage_def aligned_pgno_eq)
    ultimately show ?thesis by (blast intro: agree_trans)
  qed
  have xp: "?x \<in> umaps s R ?p" using x v by (simp add: umaps_def maps_def)
  have "cow_rel s R ?t"
    unfolding cow_rel_def
  proof (intro conjI allI impI)
    fix p assume p: "kown s R p"
    then have ne: "p \<noteq> ?p" using xp by (auto simp: kown_def)
    show "get_kmem_ref p ?t = get_kmem_ref p s" using p ne u(7) by (simp add: kown_def)
    then show "kown ?t R p" using p shrink [of p] kp tab by (auto simp: kown_def)
    show "agree (mem s) (mem ?t) (pgno p)" using p ne keep by (simp add: kown_def)
  qed (use u(9-11) in simp_all)
  moreover have "ukeeps s R ?t"
  proof (rule ukeepsI)
    fix p assume p: "umaps s R p \<noteq> {}" "umaps ?t R p \<noteq> {}"
    have "get_kmem_ref ?p s \<noteq> 1" if "p = ?p"
      using upage_facts(2) [OF cow p(2)] that u(6) by auto
    then show "agree (mem s) (mem ?t) (pgno p)" using keep upage_facts(1,3) [OF inv p(1)] by blast
  qed
  ultimately show ?thesis using that [of ?t] loop cow e tab u(6,7) by simp
qed

definition clear_range :: "(u64 \<times> nat \<Rightarrow> u64) \<Rightarrow> u64 \<Rightarrow> nat \<Rightarrow> nat \<Rightarrow> u64 \<times> nat \<Rightarrow> u64" where
  "clear_range L pt k n = (\<lambda>(q, j). if q = pt \<and> k \<le> j \<and> j < k + n then 0 else L (q, j))"

lemma clear_range_0 [simp]: "clear_range L pt k 0 = L"
  by (auto simp: clear_range_def fun_eq_iff)

lemma clear_range_Suc: "clear_range L pt k (Suc n) = clear_range (L((pt, k) := 0)) pt (Suc k) n"
  by (auto simp: clear_range_def fun_eq_iff)

text \<open>What unmapping gives back to the free list: the pages that lost their last mapping.\<close>

definition released :: "'a kmem_scheme \<Rightarrow> u64 set \<Rightarrow> 'a kmem_scheme \<Rightarrow> u64 set" where
  "released s R t = {p. umaps s R p \<noteq> {} \<and> umaps t R p = {}}"

definition unmap_post :: "'a kmem_scheme \<Rightarrow> u64 list \<Rightarrow> u64 set \<Rightarrow> 'a kmem_scheme \<Rightarrow> u64 list \<Rightarrow>
    (u64 \<times> nat \<Rightarrow> u64) \<Rightarrow> bool" where
  "unmap_post s xs R t ys L \<longleftrightarrow> cow_inv t ys R \<and> (\<forall>x \<in> R \<times> {..<VPAGES}. ents (mem t) x = L x) \<and>
     tables (mem t) R = tables (mem s) R \<and> cow_rel s R t \<and> ukeeps s R t \<and>
     (\<forall>p. umaps t R p \<subseteq> umaps s R p) \<and> set ys = set xs \<union> released s R t"

lemma unmap_postD:
  assumes "unmap_post s xs R t ys L"
  shows "cow_inv t ys R" "\<And>x. x \<in> R \<times> {..<VPAGES} \<Longrightarrow> ents (mem t) x = L x"
    "tables (mem t) R = tables (mem s) R" "cow_rel s R t" "ukeeps s R t"
    "\<And>p. umaps t R p \<subseteq> umaps s R p" "set ys = set xs \<union> released s R t"
  using assms by (auto simp: unmap_post_def)

lemma unmap_post_refl: "cow_inv s xs R \<Longrightarrow> unmap_post s xs R s xs (ents (mem s))"
  by (auto simp: unmap_post_def cow_rel_refl ukeeps_def released_def)

lemma unmap_post_trans:
  assumes "unmap_post s xs R t ys L" "unmap_post t ys R u zs L'"
  shows "unmap_post s xs R u zs L'"
proof -
  note A = unmap_postD [OF assms(1)] and B = unmap_postD [OF assms(2)]
  have "umaps t R p \<noteq> {}" if "umaps u R p \<noteq> {}" for p using B(6) [of p] that by blast
  then have "ukeeps s R u" using ukeeps_trans [OF A(5) B(5)] by blast
  moreover have "released s R t \<union> released t R u = released s R u"
    using A(6) B(6) unfolding released_def by blast
  ultimately show ?thesis
    unfolding unmap_post_def using B(1-3) A(3) cow_rel_trans [OF A(4) B(4)] A(6,7) B(6,7) by blast
qed

lemma unmap_post_cong:
  "unmap_post s xs R t ys L \<Longrightarrow> (\<And>x. x \<in> R \<times> {..<VPAGES} \<Longrightarrow> L x = L' x) \<Longrightarrow> unmap_post s xs R t ys L'"
  by (auto simp: unmap_post_def)

lemma unmap_one:
  assumes inv: "cow_inv s xs R" and pt: "pt \<in> R" and va: "va < MAXVA" "pgno va < UPAGES"
    and v: "bit (ents (mem s) (pt, pgno va)) 0"
  obtains t ys where
    "\<And>e. va < e \<Longrightarrow> uvmunmap_loop pt va e True s = uvmunmap_loop pt (va + PGSIZE) e True t"
    "unmap_post s xs R t ys ((ents (mem s))((pt, pgno va) := 0))"
proof -
  let ?x = "(pt, pgno va)"
  let ?p = "PTE2PA (ents (mem s) ?x)"
  obtain t where t: "\<And>e. va < e \<Longrightarrow> uvmunmap_loop pt va e True s = uvmunmap_loop pt (va + PGSIZE) e True t"
    "cow_inv t (if get_kmem_ref ?p s = 1 then ?p # xs else xs) R"
    "\<And>x. x \<in> R \<times> {..<VPAGES} \<Longrightarrow> ents (mem t) x = ((ents (mem s))(?x := 0)) x"
    "tables (mem t) R = tables (mem s) R" "cow_rel s R t" "ukeeps s R t"
    by (rule unmap_step [OF assms]) blast
  note I = cow_invD [OF inv]
  have x: "?x \<in> uslots R" using pt va by (simp add: uslots_def)
  have "umaps t R p = maps (uslots R) ((ents (mem s))(?x := 0)) p" for p using t(3) by (rule umaps_eq)
  then have um: "umaps t R p = umaps s R p - {?x}" for p
    by (simp only:) (auto simp: umaps_def maps_def split: if_splits)
  have "unat (get_kmem_ref ?p s) = card (umaps s R ?p)" and xp: "?x \<in> umaps s R ?p"
    using refs_okD [OF I(2) x v] by (simp_all add: umaps_def)
  then have one: "get_kmem_ref ?p s = 1 \<longleftrightarrow> umaps s R ?p = {?x}"
    by (auto simp: word_unat_eq_iff card_1_singleton_iff)
  have "p = ?p" if "?x \<in> umaps s R p" for p using that by (simp add: umaps_def maps_def)
  then have sub: "released s R t \<subseteq> {?p}" unfolding released_def um by blast
  have "(A \<noteq> {} \<and> A - {?x} = {}) = (A = {?x})" if "?x \<in> A" for A using that by auto
  from this [OF xp] have "?p \<in> released s R t \<longleftrightarrow> umaps s R ?p = {?x}"
    unfolding released_def mem_Collect_eq um .
  with subset_singletonD [OF sub] one have "released s R t = (if get_kmem_ref ?p s = 1 then {?p} else {})"
    by (metis empty_iff singletonI)
  then have "unmap_post s xs R t (if get_kmem_ref ?p s = 1 then ?p # xs else xs) ((ents (mem s))(?x := 0))"
    unfolding unmap_post_def using t(2-6) um by auto
  then show ?thesis using that t(1) by blast
qed

lemma uvmunmap_run:
  assumes "cow_inv s xs R" "pt \<in> R" "pgno va + n \<le> UPAGES" "unat e = unat va + 4096 * n"
    and "\<And>k. pgno va \<le> k \<Longrightarrow> k < pgno va + n \<Longrightarrow> bit (ents (mem s) (pt, k)) 0"
  shows "\<exists>t ys. uvmunmap_loop pt va e True s = Ok t \<and>
    unmap_post s xs R t ys (clear_range (ents (mem s)) pt (pgno va) n)"
  using assms
proof (induction n arbitrary: va s xs)
  case 0
  then have "\<not> va < e" by (simp add: word_less_nat_alt)
  then show ?case using unmap_post_refl [OF "0.prems"(1)] by (auto simp: uvmunmap_loop.simps [of pt va])
next
  case (Suc n)
  have "pgno va < UPAGES" using Suc.prems(3) by simp
  then have va: "va < MAXVA" by (simp add: less_MAXVA pgno_def div_less_iff_less_mult)
  have lt: "va < e" using Suc.prems(4) by (simp add: word_less_nat_alt)
  obtain t ys where t: "uvmunmap_loop pt va e True s = uvmunmap_loop pt (va + PGSIZE) e True t"
      "unmap_post s xs R t ys ((ents (mem s))((pt, pgno va) := 0))"
    by (rule unmap_one [OF Suc.prems(1,2) va \<open>pgno va < UPAGES\<close>]) (use Suc.prems(5) lt in auto)
  note P = unmap_postD [OF t(2)]
  have nx: "pgno (va + PGSIZE) = Suc (pgno va)" by (rule pgno_next [OF va])
  have "unat e = unat (va + PGSIZE) + 4096 * n"
    using Suc.prems(4) unat_next_page [of va] va by (simp add: less_MAXVA)
  moreover have "bit (ents (mem t) (pt, k)) 0" if "pgno (va + PGSIZE) \<le> k" "k < pgno (va + PGSIZE) + n" for k
    using P(2) [of "(pt, k)"] Suc.prems(2,3) Suc.prems(5) [of k] that nx by auto
  ultimately obtain u zs where u: "uvmunmap_loop pt (va + PGSIZE) e True t = Ok u"
      "unmap_post t ys R u zs (clear_range (ents (mem t)) pt (pgno (va + PGSIZE)) n)"
    using Suc.IH [OF P(1) Suc.prems(2), of "va + PGSIZE"] Suc.prems(3) nx by auto
  have "unmap_post s xs R u zs (clear_range (ents (mem s)) pt (pgno va) (Suc n))"
    by (rule unmap_post_cong [OF unmap_post_trans [OF t(2) u(2)]])
      (use P(2) nx in \<open>auto simp: clear_range_Suc clear_range_def\<close>)
  then show ?case using t(1) u(1) by auto
qed

end
