(* ===== verification/Cow_Fork.thy ===== *)
theory Cow_Fork
  imports Cow
begin

unbundle bit_operations_syntax

text \<open>
  \<open>uvmcopy\<close>: the child gets the parent's pages, both lose the write bit and both are marked
  with \<open>PTE_RSW\<close>; on failure the pages already shared are dropped again.
\<close>

section \<open>Entries of parent and child\<close>

definition copy_entry :: "u64 \<Rightarrow> u64" where
  "copy_entry e = e AND NOT PTE_W OR PTE_RSW"

definition child_entry :: "u64 \<Rightarrow> u64" where
  "child_entry e = PA2PTE (PTE2PA (copy_entry e)) OR PTE_FLAGS (copy_entry e) OR PTE_V"

lemma bit_copy_entry: "bit (copy_entry e) n \<longleftrightarrow> n = 8 \<or> (n \<noteq> 2 \<and> bit e n)"
  by (auto simp: copy_entry_def bit_simps dest: bit_imp_le_length)

lemma PTE2PA_copy_entry [simp]: "PTE2PA (copy_entry e) = PTE2PA e"
  by (rule PTE2PA_flags_eq) (auto simp: bit_copy_entry)

lemma PTE2PA_child_entry [simp]: "PTE2PA (child_entry e) = PTE2PA e"
  by (simp add: child_entry_def PTE2PA_make)

lemma bit_child_entry: "n < 10 \<Longrightarrow> bit (child_entry e) n \<longleftrightarrow> bit (copy_entry e) n \<or> n = 0"
  by (simp add: child_entry_def bit_make_flag bit_PTE_FLAGS)

lemma leaf_bit: "bit e n \<Longrightarrow> 0 < n \<Longrightarrow> n < 10 \<Longrightarrow> PTE_FLAGS e \<noteq> PTE_V"
  using bit_PTE_FLAGS [of e n] bit_PTE_flags(1) [of n] by auto

lemma PTE_FLAGS_child_entry: "bit e 0 \<Longrightarrow> PTE_FLAGS (child_entry e) = PTE_FLAGS (copy_entry e)"
  by (rule bit_word_eqI) (auto simp: bit_PTE_FLAGS bit_child_entry bit_copy_entry)

section \<open>Changing the flags of one entry\<close>

text \<open>
  What an operation that keeps every user page mapped leaves: the invariant, the entries \<open>L\<close>,
  the contents of user and kernel pages.
\<close>

definition cow_post :: "'a kmem_scheme \<Rightarrow> u64 list \<Rightarrow> u64 set \<Rightarrow> 'a kmem_scheme \<Rightarrow> u64 list \<Rightarrow>
    (u64 \<times> nat \<Rightarrow> u64) \<Rightarrow> bool" where
  "cow_post s xs R t ys L \<longleftrightarrow> cow_inv t ys R \<and> (\<forall>x \<in> R \<times> {..<VPAGES}. ents (mem t) x = L x) \<and>
     cow_rel s R t \<and> ukeeps s R t \<and> (\<forall>p. umaps s R p \<noteq> {} \<longrightarrow> umaps t R p \<noteq> {})"

lemma cow_postD:
  assumes "cow_post s xs R t ys L"
  shows "cow_inv t ys R" "\<And>x. x \<in> R \<times> {..<VPAGES} \<Longrightarrow> ents (mem t) x = L x" "cow_rel s R t" "ukeeps s R t"
    "\<And>p. umaps s R p \<noteq> {} \<Longrightarrow> umaps t R p \<noteq> {}"
  using assms by (auto simp: cow_post_def)

lemma cow_post_refl: "cow_inv s xs R \<Longrightarrow> cow_post s xs R s xs (ents (mem s))"
  by (auto simp: cow_post_def cow_rel_refl ukeeps_def)

lemma cow_post_trans:
  assumes "cow_post s xs R t ys L" "cow_post t ys R u zs L'"
  shows "cow_post s xs R u zs L'"
proof -
  note A = cow_postD [OF assms(1)] and B = cow_postD [OF assms(2)]
  have "ukeeps s R u" using ukeeps_trans [OF A(4) B(4)] A(5) by blast
  then show ?thesis
    unfolding cow_post_def using cow_rel_trans [OF A(3) B(3)] A(5) B(1,2,5) by simp
qed

lemma cow_post_cong:
  "cow_post s xs R t ys L \<Longrightarrow> (\<And>x. x \<in> R \<times> {..<VPAGES} \<Longrightarrow> L x = L' x) \<Longrightarrow> cow_post s xs R t ys L'"
  by (auto simp: cow_post_def)

lemma umapsI: "x \<in> uslots R \<Longrightarrow> bit (ents (mem s) x) 0 \<Longrightarrow> x \<in> umaps s R (PTE2PA (ents (mem s) x))"
  by (simp add: umaps_def maps_def)

lemma not_kown:
  assumes "x \<in> uslots R" "bit (ents (mem s) x) 0"
  shows "\<not> kown s R (PTE2PA (ents (mem s) x))"
  using umapsI [OF assms] by (auto simp: kown_def)

text \<open>A step that only grows the tables.\<close>

lemma cow_post_same:
  assumes inv: "cow_inv s xs R" and st: "vm_step s xs R t ys new (ents (mem s))"
  shows "cow_post s xs R t ys (ents (mem s))"
proof -
  note I = cow_invD [OF inv] and S = vm_stepD [OF st]
  have un: "umaps t R p = umaps s R p" for p using umaps_eq [OF S(6)] by (simp add: umaps_def)
  have new: "PTE2PA (ents (mem s) x) \<notin> set new" if "x \<in> uslots R" "bit (ents (mem s) x) 0" for x
    using free_page_facts [OF I(1)] I(7) [OF that] S(1) by auto
  have "refs_ok (uslots R) (ents (mem s)) (\<lambda>p. get_kmem_ref p t)"
    using I(2)
  proof (rule refs_ok_cong)
    fix p assume "maps (uslots R) (ents (mem s)) p \<noteq> {}"
    then show "get_kmem_ref p t = get_kmem_ref p s"
      using allocsD(7) [OF S(3)] new I(4) by (auto simp: maps_def)
  qed simp
  then have "cow_inv t ys R" using I(4-6) new by (intro cow_of_step [OF inv st]) auto
  then show ?thesis
    unfolding cow_post_def using step_frames [OF inv st not_kown] S(6) un by simp
qed

lemma flag_step:
  assumes inv: "cow_inv s xs R" and x: "(pt, k) \<in> uslots R" and n: "pt_node (mem s) 2 pt k = Some n"
    and v: "bit (ents (mem s) (pt, k)) 0" "bit e 0" "PTE2PA e = PTE2PA (ents (mem s) (pt, k))" "PTE_FLAGS e \<noteq> PTE_V"
    and w: "bit e 2 \<Longrightarrow> bit (ents (mem s) (pt, k)) 2 \<or> get_kmem_ref (PTE2PA e) s = 1"
  shows "cow_post s xs R (s\<lparr>mem := store64 (mem s) (slot_of n k) e\<rparr>) xs ((ents (mem s))((pt, k) := e))"
proof -
  let ?L = "(ents (mem s))((pt, k) := e)" and ?t = "s\<lparr>mem := store64 (mem s) (slot_of n k) e\<rparr>"
  note I = cow_invD [OF inv]
  have "pt \<in> R" "k < VPAGES" using x by (auto simp: uslots_def)
  note st = store_step [OF I(1) this(1) n this(2), of e]
  note S = vm_stepD [OF st]
  have "maps (uslots R) ?L p = umaps s R p" for p
    using v x by (auto simp: umaps_def maps_def)
  moreover have "umaps ?t R p = maps (uslots R) ?L p" for p using S(6) by (rule umaps_eq)
  ultimately have un: "umaps ?t R p = umaps s R p" for p by (simp only:)
  have refs: "refs_ok (uslots R) ?L (\<lambda>p. get_kmem_ref p ?t)"
    using refs_ok_flags [OF I(2) x v(1,2,3) w] by simp
  have pa: "\<exists>z \<in> uslots R. bit (ents (mem s) z) 0 \<and> PTE2PA (?L y) = PTE2PA (ents (mem s) z)"
    if "y \<in> uslots R" "bit (?L y) 0" for y
    using that v x by (cases "y = (pt, k)") auto
  have fl: "PTE_FLAGS (?L y) \<noteq> PTE_V" if "y \<in> uslots R" "bit (?L y) 0" for y
    using that v(4) I(6) [of y] by auto
  have ok: "kpage s (PTE2PA (?L y)) \<and> PTE2PA (?L y) \<notin> tables (mem s) R \<and> PTE2PA (?L y) \<notin> set [] \<and>
      PTE_FLAGS (?L y) \<noteq> PTE_V" if "y \<in> uslots R" "bit (?L y) 0" for y
    using pa [OF that] fl [OF that] I(4,5) by auto
  have "cow_inv ?t xs R" by (rule cow_of_step [OF inv st ok refs])
  moreover have "\<not> kown s R (PTE2PA (?L y))" if "y \<in> uslots R" "bit (?L y) 0" for y
    using pa [OF that] not_kown by metis
  ultimately show ?thesis
    unfolding cow_post_def using step_frames [OF inv st] S(6) un by simp
qed

section \<open>Sharing one page\<close>

lemma add_ref_frame [simp]:
  "mem (add_kmem_ref p s) = mem s" "kend (add_kmem_ref p s) = kend s"
  "kmem.more (add_kmem_ref p s) = kmem.more s" "freelist (add_kmem_ref p s) = freelist s"
  "lock_ctx u (add_kmem_ref p s) = lock_ctx u s" "kpage (add_kmem_ref p s) q = kpage s q"
  by (simp_all add: add_kmem_ref_def kpage_def) (simp_all add: set_ref_def)

lemma get_ref_add:
  "kend_ok s \<Longrightarrow> kpage s p \<Longrightarrow> kpage s q \<Longrightarrow>
     get_kmem_ref q (add_kmem_ref p s) = (if q = p then get_kmem_ref p s + 1 else get_kmem_ref q s)"
  using get_kmem_ref_set_ref [of s q p] by (simp add: add_kmem_ref_def get_kmem_ref_def [of p s])

lemma vm_inv_add_ref:
  assumes "vm_inv s xs R" "kpage s p" "p \<notin> tables (mem s) R" "p \<notin> set xs"
  shows "vm_inv (add_kmem_ref p s) xs R"
proof -
  note I = vm_invD [OF assms(1)]
  have ref: "get_kmem_ref q (add_kmem_ref p s) = get_kmem_ref q s" if "kpage s q" "q \<noteq> p" for q
    using get_ref_add [OF I(3) assms(2) that(1)] that(2) by simp
  have "get_kmem_ref q (add_kmem_ref p s) = 0" if "q \<in> set xs" for q
    using ref [of q] that assms(4) I(2) by (cases "q = p") (auto simp: kmem_inv_def)
  then have "kmem_inv (add_kmem_ref p s) xs"
    using I(2) by (simp add: kmem_inv_def kend_ok_def)
  moreover have "pt_ok (add_kmem_ref p s) 2 pt" if "pt \<in> R" for pt
  proof -
    have "get_kmem_ref q (add_kmem_ref p s) = 1" if "q \<in> pt_pages (mem s) 2 pt" for q
      using ref [of q] that \<open>pt \<in> R\<close> assms(3) I(5) [OF \<open>pt \<in> R\<close>]
      by (cases "q = p") (auto simp: pt_ok_def tables_def)
    then show ?thesis using I(5) [OF that] by (simp add: pt_ok_def)
  qed
  moreover have "kmem_ready (add_kmem_ref p s)"
    using kmem_ready_ctx [of s "add_kmem_ref p s"] I(1) by simp
  ultimately show ?thesis using I(4,6) by (simp add: vm_inv_def)
qed

lemma share_step:
  assumes inv: "cow_inv s xs R" and x: "x \<in> uslots R" "\<not> bit (ents (mem s) x) 0"
    and st: "vm_step s xs R t ys nw ((ents (mem s))(x := e))"
    and e: "bit e 0" "\<not> bit e 2" "PTE_FLAGS e \<noteq> PTE_V" "umaps s R (PTE2PA e) \<noteq> {}"
    and ro: "\<And>y. y \<in> umaps s R (PTE2PA e) \<Longrightarrow> \<not> bit (ents (mem s) y) 2"
  shows "cow_post s xs R (add_kmem_ref (PTE2PA e) t) ys ((ents (mem s))(x := e))"
proof -
  let ?p = "PTE2PA e" and ?L = "(ents (mem s))(x := e)"
  let ?t = "add_kmem_ref ?p t"
  note I = cow_invD [OF inv] and S = vm_stepD [OF st] and U = upage_facts [OF inv]
  note A = allocsD [OF S(3)]
  have nw: "p \<notin> set nw" if "umaps s R p \<noteq> {}" for p using U(4) [OF that] S(1) by simp
  have p: "kpage t ?p" "?p \<notin> tables (mem t) R" "?p \<notin> set ys"
    using U [OF e(4)] nw [OF e(4)] S(1,4) A(5) by auto
  have vm: "vm_inv ?t ys R" by (rule vm_inv_add_ref [OF S(2) p])
  have ref: "get_kmem_ref q ?t = (if q = ?p then get_kmem_ref q s + 1 else get_kmem_ref q s)"
    if "kpage s q" "q \<notin> set nw" for q
    using get_ref_add [OF vm_invD(3) [OF S(2)] p(1), of q] that A(5) A(7) [OF that] by (cases "q = ?p") simp_all
  have refs: "refs_ok (uslots R) ?L (\<lambda>q. get_kmem_ref q ?t)"
  proof (rule refs_ok_share [OF I(2,3) x e(1,2)])
    show "get_kmem_ref q ?t = get_kmem_ref q s" if "maps (uslots R) (ents (mem s)) q \<noteq> {}" "q \<noteq> ?p" for q
      using ref [of q] U(1) [of q] nw [of q] that by (simp add: umaps_def)
    show "get_kmem_ref ?p ?t = get_kmem_ref ?p s + 1" using ref U(1) [OF e(4)] nw [OF e(4)] by simp
    show "card (maps (uslots R) (ents (mem s)) ?p) + 1 < 2 ^ 32"
      using card_umaps [OF I(1), of ?p] by (simp add: umaps_def)
  qed (use e(4) ro in \<open>simp_all add: umaps_def\<close>)
  have ents: "ents (mem ?t) y = ?L y" if "y \<in> uslots R" for y using S(6) [OF uslots_sub [OF that]] by simp
  have pa: "umaps s R (PTE2PA (?L y)) \<noteq> {} \<and> PTE_FLAGS (?L y) \<noteq> PTE_V" if "y \<in> uslots R" "bit (?L y) 0" for y
    using that e(3,4) I(6) [of y] umapsI [of y R s] by (cases "y = x") auto
  have "cow_inv ?t ys R"
    unfolding cow_inv_def
  proof (intro conjI ballI impI vm)
    show "refs_ok (uslots R) (ents (mem ?t)) (\<lambda>p. get_kmem_ref p ?t)"
      using refs by (rule refs_ok_cong) (rule ents, assumption, rule refl)
    fix y assume y: "y \<in> uslots R" "bit (ents (mem ?t) y) 0"
    then have m: "umaps s R (PTE2PA (?L y)) \<noteq> {}" "PTE_FLAGS (?L y) \<noteq> PTE_V" using pa ents by auto
    show "kpage ?t (PTE2PA (ents (mem ?t) y))" "PTE2PA (ents (mem ?t) y) \<notin> tables (mem ?t) R"
      "PTE_FLAGS (ents (mem ?t) y) \<noteq> PTE_V"
      using U(1,3) [OF m(1)] m(2) nw [OF m(1)] ents [OF y(1)] A(5) S(4) by simp_all
  qed
  moreover have fr: "cow_rel s R t" "ukeeps s R t"
    using pa by (intro step_frames [OF inv st]; simp add: kown_def)+
  have um: "umaps ?t R q = umaps t R q" for q by (simp add: umaps_def)
  have "get_kmem_ref q ?t = get_kmem_ref q s" if "kown s R q" for q
  proof -
    have "q \<notin> set nw" using that free_page_facts [OF I(1), of q] S(1) by (auto simp: kown_def)
    moreover have "q \<noteq> ?p" using that e(4) by (auto simp: kown_def)
    ultimately show ?thesis using ref [of q] that by (simp add: kown_def)
  qed
  then have "cow_rel s R ?t" using fr(1) unfolding cow_rel_def by (simp add: kown_def um)
  moreover have "ukeeps s R ?t" using fr(2) by (simp add: ukeeps_def um)
  moreover have "umaps t R q \<noteq> {}" if "umaps s R q \<noteq> {}" for q
  proof -
    have "umaps t R q = maps (uslots R) ?L q" using S(6) by (rule umaps_eq)
    then show ?thesis using that x by (auto simp: umaps_def maps_def)
  qed
  ultimately show ?thesis unfolding cow_post_def using S(6) by (simp add: um)
qed

section \<open>The loop of uvmcopy\<close>

lemma copy_step:
  assumes inv: "cow_inv s xs R" and R: "old \<in> R" "new \<in> R" "old \<noteq> new"
    and va: "aligned va" "va < MAXVA" "pgno va < UPAGES" "va < sz"
    and v: "bit (ents (mem s) (old, pgno va)) 0" "\<not> bit (ents (mem s) (new, pgno va)) 0"
  obtains (fail) t where
    "uvmcopy_loop old new sz va s = bind_res (uvmunmap new 0 (va div PGSIZE) True t) (\<lambda>s. Ok (-1, s))"
    "cow_post s xs R t [] ((ents (mem s))((old, pgno va) := copy_entry (ents (mem s) (old, pgno va))))"
    "length xs \<le> 2"
  | (ok) t ys where
    "uvmcopy_loop old new sz va s = uvmcopy_loop old new sz (va + PGSIZE) t"
    "cow_post s xs R t ys ((ents (mem s))((old, pgno va) := copy_entry (ents (mem s) (old, pgno va)),
       (new, pgno va) := child_entry (ents (mem s) (old, pgno va))))"
    "length xs \<le> length ys + 2"
proof -
  let ?k = "pgno va"
  let ?e = "ents (mem s) (old, ?k)"
  let ?c = "copy_entry ?e"
  note I = cow_invD [OF inv]
  have x: "(old, ?k) \<in> uslots R" "(new, ?k) \<in> uslots R" using R va by (simp_all add: uslots_def)
  obtain n where n: "pt_node (mem s) 2 old ?k = Some n" "walk old va False s = Ok (slot_of n ?k, s)"
      "slot_of n ?k \<noteq> 0" "load64 (mem s) (slot_of n ?k) = ?e"
    by (rule walk_read [OF I(1) R(1) va(2) v(1)])
  let ?s1 = "s\<lparr>mem := store64 (mem s) (slot_of n ?k) ?c\<rparr>"
  have c: "bit ?c 0" "\<not> bit ?c 2" "PTE_FLAGS ?c \<noteq> PTE_V"
    using v(1) leaf_bit [of ?c 8] by (auto simp: bit_copy_entry)
  have P1: "cow_post s xs R ?s1 xs ((ents (mem s))((old, ?k) := ?c))"
    by (rule flag_step [OF inv x(1) n(1) v(1)]) (use c in auto)
  note D = cow_postD [OF P1]
  have e1: "ents (mem ?s1) (old, ?k) = ?c" "ents (mem ?s1) (new, ?k) = ents (mem s) (new, ?k)"
    using D(2) [OF uslots_sub [OF x(1)]] D(2) [OF uslots_sub [OF x(2)]] R(3) by auto
  have loop: "uvmcopy_loop old new sz va s =
     bind_res (mappages new va PGSIZE (PTE2PA ?e) (PTE_FLAGS ?c) ?s1) (\<lambda>(r, s).
       if r \<noteq> 0 then bind_res (uvmunmap new 0 (va div PGSIZE) True s) (\<lambda>s. Ok (-1, s))
       else uvmcopy_loop old new sz (va + PGSIZE) (add_kmem_ref (PTE2PA ?e) s))"
    using n(2-4) v(1) va(4)
    by (simp add: uvmcopy_loop.simps [of old new sz va] pte_flag_tests Let_def flip: copy_entry_def cong: if_cong)
  note J = cow_invD [OF D(1)]
  show ?thesis
    using J(1) R(2) va(1,2)
  proof (cases rule: mappages_one [where pa = "PTE2PA ?e" and perm = "PTE_FLAGS ?c"])
    case (fail t)
    have "cow_post s xs R t [] (ents (mem ?s1))"
      by (rule cow_post_trans [OF P1 cow_post_same [OF D(1) fail(2)]])
    then have "cow_post s xs R t [] ((ents (mem s))((old, ?k) := ?c))"
      by (rule cow_post_cong) (rule D(2))
    then show ?thesis using that(1) loop fail(1,3) by simp
  next
    case (ok t nw ys)
    have ch: "PA2PTE (PTE2PA ?e) OR PTE_FLAGS ?c OR PTE_V = child_entry ?e" by (simp add: child_entry_def)
    have be: "bit (child_entry ?e) 0" "\<not> bit (child_entry ?e) 2" "PTE_FLAGS (child_entry ?e) \<noteq> PTE_V"
      using leaf_bit [of "child_entry ?e" 8] by (auto simp: bit_child_entry bit_copy_entry)
    have mp: "(old, ?k) \<in> umaps ?s1 R (PTE2PA (child_entry ?e))"
      using umapsI [OF x(1), of ?s1] e1(1) c(1) by simp
    have ro: "\<not> bit (ents (mem ?s1) y) 2" if y: "y \<in> umaps ?s1 R (PTE2PA (child_entry ?e))" for y
    proof
      assume b: "bit (ents (mem ?s1) y) 2"
      have "y \<in> uslots R" "bit (ents (mem ?s1) y) 0" "PTE2PA (ents (mem ?s1) y) = PTE2PA (child_entry ?e)"
        using y by (auto simp: umaps_def maps_def)
      then have "umaps ?s1 R (PTE2PA (child_entry ?e)) = {y}"
        using refs_okD(2) [OF J(2) _ _ b] by (simp add: umaps_def)
      then have "y = (old, ?k)" using mp by simp
      then show False using b e1(1) c(2) by simp
    qed
    have "cow_post ?s1 xs R (add_kmem_ref (PTE2PA (child_entry ?e)) t) ys
        ((ents (mem ?s1))((new, ?k) := child_entry ?e))"
      using e1(2) v(2) mp ro be ok(3) ch by (intro share_step [OF D(1) x(2)]) auto
    from cow_post_trans [OF P1 this] have "cow_post s xs R (add_kmem_ref (PTE2PA ?e) t) ys
        ((ents (mem s))((old, ?k) := ?c, (new, ?k) := child_entry ?e))"
      unfolding PTE2PA_child_entry by (rule cow_post_cong) (use D(2) in auto)
    moreover have "length xs \<le> length ys + 2" using ok(2) vm_stepD(1) [OF ok(3)] by simp
    ultimately show ?thesis using that(2) loop ok(1) by simp
  qed
qed

text \<open>The entries when the pages below \<open>k\<close> are copied.\<close>

definition copy_ents :: "(u64 \<times> nat \<Rightarrow> u64) \<Rightarrow> u64 \<Rightarrow> u64 \<Rightarrow> nat \<Rightarrow> nat \<Rightarrow> u64 \<times> nat \<Rightarrow> u64" where
  "copy_ents L old new k n = (\<lambda>(q, j).
     if q = old \<and> k \<le> j \<and> j < k + n then copy_entry (L (old, j))
     else if q = new \<and> k \<le> j \<and> j < k + n then child_entry (L (old, j)) else L (q, j))"

lemma copy_ents_0 [simp]: "copy_ents L old new k 0 = L"
  by (auto simp: copy_ents_def fun_eq_iff)

lemma copy_ents_Suc:
  "old \<noteq> new \<Longrightarrow> copy_ents L old new k (Suc n) =
     copy_ents (L((old, k) := copy_entry (L (old, k)), (new, k) := child_entry (L (old, k)))) old new (Suc k) n"
  by (auto simp: copy_ents_def fun_eq_iff not_less_eq_eq le_Suc_eq)

text \<open>The entries after a failure at page \<open>i\<close>.\<close>

definition undo_ents :: "(u64 \<times> nat \<Rightarrow> u64) \<Rightarrow> u64 \<Rightarrow> u64 \<Rightarrow> nat \<Rightarrow> u64 \<times> nat \<Rightarrow> u64" where
  "undo_ents L old new i = (\<lambda>(q, j).
     if q = old \<and> j \<le> i then copy_entry (L (old, j)) else if q = new \<and> j < i then 0 else L (q, j))"

lemma uvmcopy_loop_run:
  assumes "cow_inv s xs R" "old \<in> R" "new \<in> R" "old \<noteq> new" "aligned va" "pgno va + n \<le> UPAGES"
    and "unat sz \<le> unat va + 4096 * n" "unat va + 4096 * n < unat sz + 4096"
    and "\<And>k. pgno va \<le> k \<Longrightarrow> k < pgno va + n \<Longrightarrow> bit (ents (mem s) (old, k)) 0 \<and> \<not> bit (ents (mem s) (new, k)) 0"
  obtains (ok) t ys where "uvmcopy_loop old new sz va s = Ok (0, t)"
      "cow_post s xs R t ys (copy_ents (ents (mem s)) old new (pgno va) n)"
  | (fail) t i where "i < n" "length xs \<le> 2 * n"
      "uvmcopy_loop old new sz va s = bind_res (uvmunmap new 0 (of_nat (pgno va + i)) True t) (\<lambda>s. Ok (-1, s))"
      "cow_post s xs R t [] ((copy_ents (ents (mem s)) old new (pgno va) i)
         ((old, pgno va + i) := copy_entry (ents (mem s) (old, pgno va + i))))"
  using assms
proof (induction n arbitrary: va s xs thesis)
  case (0 va s xs)
  have "\<not> va < sz" using "0.prems"(9) by (simp add: word_less_nat_alt)
  then have "uvmcopy_loop old new sz va s = Ok (0, s)" by (simp add: uvmcopy_loop.simps [of old new sz va])
  then show ?case using "0.prems"(1) [of s xs] cow_post_refl [OF "0.prems"(3)] by simp
next
  case (Suc n va s xs)
  note prems = Suc.prems(3-11)
  have k: "pgno va < UPAGES" using prems(6) by simp
  then have va: "va < MAXVA" by (simp add: less_MAXVA pgno_def div_less_iff_less_mult)
  have lt: "va < sz" using prems(8) by (simp add: word_less_nat_alt)
  have v: "bit (ents (mem s) (old, pgno va)) 0" "\<not> bit (ents (mem s) (new, pgno va)) 0"
    using prems(9) [of "pgno va"] by auto
  have nx: "pgno (va + PGSIZE) = Suc (pgno va)" "unat (va + PGSIZE) = unat va + 4096"
    using pgno_next [OF va] unat_next_page [of va] va by (auto simp: less_MAXVA)
  show ?case
    using prems(1-5) va k lt v
  proof (cases rule: copy_step)
    case (fail t)
    have "va div PGSIZE = of_nat (pgno va)"
      using pgno_VPAGES [OF va] by (simp add: word_unat_eq_iff unat_div pgno_def PGSIZE_def unat_of_nat_u64)
    then show ?thesis using fail by (intro Suc.prems(2) [of 0 t]) (simp_all del: fun_upd_apply)
  next
    case (ok t ys)
    let ?L = "(ents (mem s))((old, pgno va) := copy_entry (ents (mem s) (old, pgno va)),
       (new, pgno va) := child_entry (ents (mem s) (old, pgno va)))"
    note P = cow_postD [OF ok(2)]
    have hyps: "aligned (va + PGSIZE)" "pgno (va + PGSIZE) + n \<le> UPAGES"
      "unat sz \<le> unat (va + PGSIZE) + 4096 * n" "unat (va + PGSIZE) + 4096 * n < unat sz + 4096"
      using prems(5-8) aligned_next nx by auto
    have v': "bit (ents (mem t) (old, k)) 0 \<and> \<not> bit (ents (mem t) (new, k)) 0"
      if "pgno (va + PGSIZE) \<le> k" "k < pgno (va + PGSIZE) + n" for k
      using P(2) [of "(old, k)"] P(2) [of "(new, k)"] prems(2,3,6) prems(9) [of k] that nx by auto
    have comb: "cow_post s xs R u zs L'"
      if "cow_post t ys R u zs L''" "\<And>x. x \<in> R \<times> {..<VPAGES} \<Longrightarrow> L'' x = L' x" for u zs L' L''
      using cow_post_trans [OF ok(2) that(1)] that(2) by (rule cow_post_cong)
    have ce: "copy_ents (ents (mem t)) old new (pgno (va + PGSIZE)) j x = copy_ents (ents (mem s)) old new (pgno va) (Suc j) x"
      if "x \<in> R \<times> {..<VPAGES}" for j x
    proof -
      have "copy_ents (ents (mem t)) old new (Suc (pgno va)) j x = copy_ents ?L old new (Suc (pgno va)) j x"
        using P(2) [of x] P(2) [of "(old, snd x)"] that prems(2) by (auto simp: copy_ents_def split: prod.split)
      then show ?thesis unfolding copy_ents_Suc [OF prems(4)] nx .
    qed
    show ?thesis
    proof (rule Suc.IH [OF _ _ P(1) prems(2-4) hyps])
      fix u zs
      assume u: "uvmcopy_loop old new sz (va + PGSIZE) t = Ok (0, u)"
        "cow_post t ys R u zs (copy_ents (ents (mem t)) old new (pgno (va + PGSIZE)) n)"
      then show ?thesis using ok(1) comb [OF u(2)] ce by (intro Suc.prems(1) [of u zs]) (simp_all del: fun_upd_apply)
    next
      fix i u
      assume u: "i < n" "length ys \<le> 2 * n" "uvmcopy_loop old new sz (va + PGSIZE) t =
          bind_res (uvmunmap new 0 (of_nat (pgno (va + PGSIZE) + i)) True u) (\<lambda>s. Ok (-1, s))"
        "cow_post t ys R u [] ((copy_ents (ents (mem t)) old new (pgno (va + PGSIZE)) i)
         ((old, pgno (va + PGSIZE) + i) := copy_entry (ents (mem t) (old, pgno (va + PGSIZE) + i))))"
      have "cow_post s xs R u [] ((copy_ents (ents (mem s)) old new (pgno va) (Suc i))
         ((old, pgno va + Suc i) := copy_entry (ents (mem s) (old, pgno va + Suc i))))"
        using ce [of _ i] P(2) [of "(old, Suc (pgno va + i))"] prems(2,6) u(1) nx by (intro comb [OF u(4)]) auto
      then show ?thesis using ok(1,3) u(1-3) nx
        by (intro Suc.prems(2) [of "Suc i" u]) (simp_all del: fun_upd_apply)
    qed (rule v')
  qed
qed

lemma undo_post:
  assumes "cow_inv s xs R" "old \<in> R" "new \<in> R" "old \<noteq> new" "i < UPAGES"
    and nv: "\<And>k. k < i \<Longrightarrow> \<not> bit (ents (mem s) (new, k)) 0" and v: "\<And>k. k \<le> i \<Longrightarrow> bit (ents (mem s) (old, k)) 0"
    and P: "cow_post s xs R t1 [] ((copy_ents (ents (mem s)) old new 0 i)((old, i) := copy_entry (ents (mem s) (old, i))))"
    and U: "unmap_post t1 [] R t ys (clear_range (ents (mem t1)) new 0 i)"
  shows "cow_post s xs R t ys (undo_ents (ents (mem s)) old new i)"
proof -
  let ?L = "undo_ents (ents (mem s)) old new i"
  note C = cow_postD [OF P] and D = unmap_postD [OF U]
  have e: "ents (mem t) x = ?L x" if "x \<in> R \<times> {..<VPAGES}" for x
    using C(2) [OF that] D(2) [OF that] assms(4)
    by (cases x) (auto simp: undo_ents_def copy_ents_def clear_range_def split: if_splits)
  have um: "umaps t R p = maps (uslots R) ?L p" for p using e by (rule umaps_eq)
  have "umaps t R p \<noteq> {}" if ne: "umaps s R p \<noteq> {}" for p
  proof -
    obtain q j where x: "(q, j) \<in> uslots R" "bit (ents (mem s) (q, j)) 0" "PTE2PA (ents (mem s) (q, j)) = p"
      using ne by (auto simp: umaps_def maps_def)
    have "bit (?L (q, j)) 0" "PTE2PA (?L (q, j)) = p"
      using x nv [of j] v [of j] by (auto simp: undo_ents_def bit_copy_entry)
    then have "(q, j) \<in> umaps t R p" unfolding um using x by (simp add: maps_def)
    then show ?thesis by blast
  qed
  moreover have "ukeeps s R t" using ukeeps_trans [OF C(4) D(5)] C(5) by blast
  ultimately show ?thesis
    unfolding cow_post_def using D(1) e cow_rel_trans [OF C(3) D(4)] by blast
qed

text \<open>The number of pages that \<open>sz\<close> bytes take.\<close>

definition npages :: "u64 \<Rightarrow> nat" where
  "npages sz = (unat sz + 4095) div 4096"

lemma npages_bounds: "unat sz \<le> 4096 * npages sz" "4096 * npages sz < unat sz + 4096"
  using div_mult_mod_eq [of "unat sz + 4095" 4096] mod_less_divisor [of 4096 "unat sz + 4095"]
  unfolding npages_def by linarith+

lemma uvmcopy_result:
  assumes "cow_inv s xs R" "old \<in> R" "new \<in> R" "old \<noteq> new" "npages sz \<le> UPAGES"
    and v: "\<And>k. k < npages sz \<Longrightarrow> bit (ents (mem s) (old, k)) 0 \<and> \<not> bit (ents (mem s) (new, k)) 0"
  obtains (ok) t ys where "uvmcopy old new sz s = Ok (0, t)"
      "cow_post s xs R t ys (copy_ents (ents (mem s)) old new 0 (npages sz))"
  | (fail) t ys i where "uvmcopy old new sz s = Ok (-1, t)" "i < npages sz" "length xs \<le> 2 * npages sz"
      "cow_post s xs R t ys (undo_ents (ents (mem s)) old new i)"
proof -
  have z: "aligned 0" "pgno 0 = 0" by (simp_all add: aligned_def pgno_def)
  show ?thesis
  proof (rule uvmcopy_loop_run [OF assms(1-4) z(1), of "npages sz" sz])
    fix t ys assume "uvmcopy_loop old new sz 0 s = Ok (0, t)"
      "cow_post s xs R t ys (copy_ents (ents (mem s)) old new (pgno 0) (npages sz))"
    then show ?thesis using ok z by (simp add: uvmcopy_def)
  next
    fix t i
    assume i: "i < npages sz" and len: "length xs \<le> 2 * npages sz" and run: "uvmcopy_loop old new sz 0 s
        = bind_res (uvmunmap new 0 (of_nat (pgno 0 + i)) True t) (\<lambda>s. Ok (-1, s))"
      and post: "cow_post s xs R t [] ((copy_ents (ents (mem s)) old new (pgno 0) i)
         ((old, pgno 0 + i) := copy_entry (ents (mem s) (old, pgno 0 + i))))"
    note C = cow_postD [OF post]
    have iu: "i < UPAGES" using i assms(5) by simp
    have "unat (of_nat i * PGSIZE :: u64) = 4096 * i"
      using iu unat_of_nat_u64 [of "4096 * i"] by (simp add: PGSIZE_def mult.commute)
    moreover have "bit (ents (mem t) (new, k)) 0" if "k < i" for k
      using C(2) [of "(new, k)"] that assms(3,4) iu z by (simp add: copy_ents_def bit_child_entry)
    ultimately obtain u ys where u: "uvmunmap_loop new 0 (0 + of_nat i * PGSIZE) True t = Ok u"
        "unmap_post t [] R u ys (clear_range (ents (mem t)) new (pgno 0) i)"
      using uvmunmap_run [OF C(1) assms(3), of 0 i "0 + of_nat i * PGSIZE"] iu z by auto
    have "uvmcopy old new sz s = Ok (-1, u)" using run u(1) z by (simp add: uvmcopy_def uvmunmap_def)
    moreover have "cow_post s xs R u ys (undo_ents (ents (mem s)) old new i)"
      using undo_post [OF assms(1-4) iu _ _ post [unfolded z(2) add_0] u(2) [unfolded z(2)]] v i by simp
    ultimately show ?thesis using fail i len by blast
  qed (use assms(5) v npages_bounds z in simp_all)
qed

section \<open>The address space seen by user code\<close>

definition user_addr :: "memory \<Rightarrow> u64 \<Rightarrow> u64 \<Rightarrow> u64" where
  "user_addr m pt va = PTE2PA (ents m (pt, pgno va)) + of_nat (unat va mod 4096)"

definition user_byte :: "memory \<Rightarrow> u64 \<Rightarrow> u64 \<Rightarrow> u8" where
  "user_byte m pt va = m (user_addr m pt va)"

lemma pgno_user_addr: "pgno (user_addr m pt va) = pgno (PTE2PA (ents m (pt, pgno va)))"
  unfolding user_addr_def by (rule pgno_page_offset) simp_all

lemma cow_post_byte:
  assumes "cow_inv s xs R" "cow_post s xs R t ys L" "pt \<in> R" "pt' \<in> R" "pgno va < UPAGES"
    and "bit (ents (mem s) (pt, pgno va)) 0"
    and "PTE2PA (L (pt', pgno va)) = PTE2PA (ents (mem s) (pt, pgno va))"
  shows "user_byte (mem t) pt' va = user_byte (mem s) pt va"
proof -
  let ?p = "PTE2PA (ents (mem s) (pt, pgno va))"
  note C = cow_postD [OF assms(2)]
  have "ents (mem t) (pt', pgno va) = L (pt', pgno va)" using C(2) assms(4,5) by simp
  then have a: "user_addr (mem t) pt' va = user_addr (mem s) pt va" using assms(7) by (simp add: user_addr_def)
  have ne: "umaps s R ?p \<noteq> {}" using umapsI [of "(pt, pgno va)" R s] assms(3,5,6) by (auto simp: uslots_def)
  then have "agree (mem s) (mem t) (pgno ?p)" using C(4,5) by (simp add: ukeeps_def)
  then show ?thesis unfolding user_byte_def a using pgno_user_addr [of "mem s" pt va] by (simp add: agree_def)
qed

end
