(* ===== verification/Cow_Alloc.thy ===== *)
theory Cow_Alloc
  imports Cow_Fork
begin

unbundle bit_operations_syntax

text \<open>
  Growing and shrinking address spaces: \<open>uvmcreate\<close>, \<open>uvmalloc\<close>, \<open>uvmdealloc\<close>. A page
  handed out by \<open>kalloc\<close> is first the kernel's own (\<open>kown\<close>), is filled, and then mapped.
\<close>

section \<open>A page of the kernel's own\<close>

text \<open>Like \<open>cow_rel\<close>, with one page excepted.\<close>

definition cow_rel_but :: "u64 \<Rightarrow> 'a kmem_scheme \<Rightarrow> u64 set \<Rightarrow> 'a kmem_scheme \<Rightarrow> bool" where
  "cow_rel_but x s R t \<longleftrightarrow> lock_ctx s t \<and> kend t = kend s \<and> kmem.more t = kmem.more s \<and>
     (\<forall>p. p \<noteq> x \<longrightarrow> kown s R p \<longrightarrow>
        kown t R p \<and> get_kmem_ref p t = get_kmem_ref p s \<and> agree (mem s) (mem t) (pgno p))"

lemma cow_rel_but_trans:
  "cow_rel_but x s R t \<Longrightarrow> cow_rel_but x t R u \<Longrightarrow> cow_rel_but x s R u"
  unfolding cow_rel_but_def by (auto intro: lock_ctx_trans agree_trans)

lemma cow_rel_weaken: "cow_rel s R t \<Longrightarrow> cow_rel_but x s R t"
  unfolding cow_rel_but_def cow_rel_def by blast

lemma cow_rel_strengthen: "cow_rel_but x s R t \<Longrightarrow> \<not> kown s R x \<Longrightarrow> cow_rel s R t"
  unfolding cow_rel_but_def cow_rel_def by metis

lemma kalloc_cow:
  assumes "cow_inv s xs R"
  obtains (none) "xs = []" "kalloc s = Ok (0, masked_once s)" "cow_post s xs R (masked_once s) xs (ents (mem s))"
  | (page) x ys t where "xs = x # ys" "kalloc s = Ok (x, t)" "x \<noteq> 0" "\<not> kown s R x" "kown t R x"
      "get_kmem_ref x t = 1" "cow_post s xs R t ys (ents (mem s))" "tables (mem t) R = tables (mem s) R"
      "\<And>pt. pt \<in> R \<Longrightarrow> pt_node (mem t) 2 pt = pt_node (mem s) 2 pt"
proof -
  note I = cow_invD [OF assms] and V = vm_invD [OF cow_invD(1) [OF assms]]
  show ?thesis
    using V(1,2)
  proof (cases rule: kalloc_cases)
    case none
    have "vm_step s xs R (masked_once s) xs [] (ents (mem s))"
      unfolding vm_step_def using none I(1) allocs_masked [OF V(2)] kmem_ready_ctx [of s "masked_once s"]
      by (auto simp: vm_inv_def pt_ok_def kpage_def)
    then show ?thesis using that(1) none cow_post_same [OF assms] by blast
  next
    case (page x ys t)
    note F = free_page_facts [OF I(1), of x]
    have A: "allocs s [x] ys t" using page by (simp add: allocs_def)
    note A = A allocsD [OF this]
    have fr: "agree (mem s) (mem t) (pgno p)" if "p \<in> tables (mem s) R" for p
      using that F page(1) tables_owned [OF I(1) that] page(4) by (intro page(8)) (auto simp: aligned_pgno_eq kpage_def)
    have T: "pt_pages (mem t) 2 pt = pt_pages (mem s) 2 pt \<and> pt_wf (mem t) 2 pt = pt_wf (mem s) 2 pt \<and>
        pt_node (mem t) 2 pt = pt_node (mem s) 2 pt" "pt_lookup (mem t) 2 pt = pt_lookup (mem s) 2 pt" if "pt \<in> R" for pt
      using that fr V(7) [OF that] by (auto simp: tables_def intro!: pt_frame [of "mem s"] pt_frame_lookup [of "mem s"])
    have ents: "ents (mem t) y = ents (mem s) y" if "fst y \<in> R" for y using T(2) [OF that] by (simp add: ents_def)
    have tab: "tables (mem t) R = tables (mem s) R" using T(1) by (simp add: tables_def)
    have refs: "get_kmem_ref p t = get_kmem_ref p s" if "kpage s p" "get_kmem_ref p s \<noteq> 0" for p
      using A(8) [OF that(1)] that(2) F page(1) by (cases "p = x") auto
    have "pt_ok t 2 pt" if "pt \<in> R" for pt
    proof -
      have "kpage s p \<and> get_kmem_ref p t = 1" if "p \<in> pt_pages (mem s) 2 pt" for p
      proof -
        have "p \<in> tables (mem s) R" using that \<open>pt \<in> R\<close> by (auto simp: tables_def)
        then show ?thesis using tables_owned [OF I(1), of p] refs [of p] by simp
      qed
      then show ?thesis using V(5) [OF that] T(1) [OF that] A(6) by (simp add: pt_ok_def)
    qed
    then have vm: "vm_inv t ys R" unfolding vm_inv_def using V(4,6) T(1) A(2,9) V(1) by simp
    have e: "ents (mem t) y = ents (mem s) y" if "y \<in> uslots R" for y using ents that by (auto simp: uslots_def)
    have um: "umaps t R p = umaps s R p" for p unfolding umaps_def using e by (rule maps_cong)
    have "refs_ok (uslots R) (ents (mem t)) (\<lambda>p. get_kmem_ref p t)"
      using I(2) by (rule refs_ok_cong) (use e refs upage_facts [OF assms, unfolded umaps_def] in blast)+
    then have cow: "cow_inv t ys R" unfolding cow_inv_def using vm e I(4-6) tab A(6) by auto
    have nk: "\<not> kown s R x" using F page(1) by (simp add: kown_def)
    have mx: "umaps s R x = {}" using upage_facts(4) [OF assms, of x] page(1) by auto
    have kx: "kown t R x" using page(4,6) tab F page(1) A(6) um mx by (simp add: kown_def)
    have agr: "agree (mem s) (mem t) (pgno p)" if "kpage s p" "get_kmem_ref p s \<noteq> 0" for p
      using that F page(1,4) by (intro page(8)) (auto simp: aligned_pgno_eq kpage_def)
    have "cow_rel s R t" unfolding cow_rel_def using A agr refs um tab by (auto simp: kown_def)
    moreover have "ukeeps s R t" using agr upage_facts [OF assms] by (intro ukeepsI) blast
    ultimately have "cow_post s xs R t ys (ents (mem s))" unfolding cow_post_def using cow ents um by auto
    then show ?thesis using that(2) page(1,2,5,6) nk kx tab T(1) by blast
  qed
qed

text \<open>Writing to a page in use that is not a table.\<close>

lemma write_page:
  assumes inv: "cow_inv s xs R" and x: "kpage s x" "get_kmem_ref x s \<noteq> 0" "x \<notin> tables (mem s) R"
    and agr: "\<And>k. k \<noteq> pgno x \<Longrightarrow> agree (mem s) m k"
  shows "cow_inv (s\<lparr>mem := m\<rparr>) xs R" "\<And>y. fst y \<in> R \<Longrightarrow> ents m y = ents (mem s) y"
    "tables m R = tables (mem s) R" "\<And>p. aligned p \<Longrightarrow> p \<noteq> x \<Longrightarrow> agree (mem s) m (pgno p)"
    "\<And>p. umaps (s\<lparr>mem := m\<rparr>) R p = umaps s R p" "\<And>p. kown (s\<lparr>mem := m\<rparr>) R p = kown s R p"
    "\<And>pt. pt \<in> R \<Longrightarrow> pt_node m 2 pt = pt_node (mem s) 2 pt"
proof -
  let ?t = "s\<lparr>mem := m\<rparr>"
  note I = cow_invD [OF inv] and V = vm_invD [OF cow_invD(1) [OF inv]]
  show other: "agree (mem s) m (pgno p)" if "aligned p" "p \<noteq> x" for p
    using that x by (intro agr) (simp add: aligned_pgno_eq kpage_def)
  have fr: "agree (mem s) m (pgno p)" if "p \<in> tables (mem s) R" for p
    using that x tables_owned [OF I(1) that] by (intro other) (auto simp: kpage_def)
  have T: "pt_pages m 2 pt = pt_pages (mem s) 2 pt \<and> pt_wf m 2 pt = pt_wf (mem s) 2 pt \<and>
      pt_node m 2 pt = pt_node (mem s) 2 pt" "pt_lookup m 2 pt = pt_lookup (mem s) 2 pt" if "pt \<in> R" for pt
    using that fr V(7) [OF that] by (auto simp: tables_def intro!: pt_frame [of "mem s"] pt_frame_lookup [of "mem s"])
  show ents: "ents m y = ents (mem s) y" if "fst y \<in> R" for y using T(2) [OF that] by (simp add: ents_def)
  show tab: "tables m R = tables (mem s) R" using T(1) by (simp add: tables_def)
  show "pt_node m 2 pt = pt_node (mem s) 2 pt" if "pt \<in> R" for pt using T(1) [OF that] by simp
  have "kmem_inv ?t xs"
    using V(2) x other by (intro kmem_inv_mem) (auto simp: kmem_inv_def kpage_def)
  moreover have "kmem_ready ?t" using kmem_ready_ctx [of s ?t] V(1) by simp
  moreover have "pt_ok ?t 2 pt" if "pt \<in> R" for pt using V(5) [OF that] T(1) [OF that] by (simp add: pt_ok_def)
  ultimately have vm: "vm_inv ?t xs R" unfolding vm_inv_def using V(4,6) T(1) by simp
  have e: "ents (mem ?t) y = ents (mem s) y" if "y \<in> uslots R" for y using ents that by (auto simp: uslots_def)
  show um: "umaps ?t R p = umaps s R p" for p unfolding umaps_def using e by (rule maps_cong)
  show "kown ?t R p = kown s R p" for p using um [of p] tab by (simp add: kown_def)
  have "refs_ok (uslots R) (ents (mem ?t)) (\<lambda>p. get_kmem_ref p ?t)"
    using I(2) by (rule refs_ok_cong) (use e in simp_all)
  then show "cow_inv ?t xs R" unfolding cow_inv_def using vm e I(4-6) tab by auto
qed

text \<open>Filling a page of the kernel's own.\<close>

lemma write_kown:
  assumes inv: "cow_inv s xs R" and x: "kown s R x" and agr: "\<And>k. k \<noteq> pgno x \<Longrightarrow> agree (mem s) m k"
  shows "cow_inv (s\<lparr>mem := m\<rparr>) xs R" "\<And>y. fst y \<in> R \<Longrightarrow> ents m y = ents (mem s) y"
    "tables m R = tables (mem s) R" "cow_rel_but x s R (s\<lparr>mem := m\<rparr>)" "ukeeps s R (s\<lparr>mem := m\<rparr>)"
    "\<And>p. umaps (s\<lparr>mem := m\<rparr>) R p = umaps s R p" "\<And>p. kown (s\<lparr>mem := m\<rparr>) R p = kown s R p"
    "\<And>pt. pt \<in> R \<Longrightarrow> pt_node m 2 pt = pt_node (mem s) 2 pt"
proof -
  have k: "kpage s x" "get_kmem_ref x s \<noteq> 0" "x \<notin> tables (mem s) R" "umaps s R x = {}" using x by (auto simp: kown_def)
  note W = write_page [OF inv k(1-3) agr]
  show "cow_inv (s\<lparr>mem := m\<rparr>) xs R" "\<And>y. fst y \<in> R \<Longrightarrow> ents m y = ents (mem s) y"
    "tables m R = tables (mem s) R" "\<And>p. umaps (s\<lparr>mem := m\<rparr>) R p = umaps s R p"
    "\<And>p. kown (s\<lparr>mem := m\<rparr>) R p = kown s R p" "\<And>pt. pt \<in> R \<Longrightarrow> pt_node m 2 pt = pt_node (mem s) 2 pt"
    using W by simp_all
  show "cow_rel_but x s R (s\<lparr>mem := m\<rparr>)" unfolding cow_rel_but_def using W(4,6) by (auto simp: kown_def kpage_def)
  show "ukeeps s R (s\<lparr>mem := m\<rparr>)"
    using upage_facts(1) [OF inv] k(4) by (intro ukeepsI) (auto intro!: W(4) simp: kpage_def)
qed

text \<open>Mapping a page of the kernel's own at a free slot.\<close>

lemma map_kown:
  assumes inv: "cow_inv s xs R" and x: "kown s R x" "get_kmem_ref x s = 1"
    and y: "y \<in> uslots R" "\<not> bit (ents (mem s) y) 0" and st: "vm_step s xs R t ys nw ((ents (mem s))(y := e))"
    and e: "bit e 0" "PTE2PA e = x" "PTE_FLAGS e \<noteq> PTE_V"
  shows "cow_inv t ys R" "cow_rel_but x s R t" "ukeeps s R t" "agree (mem s) (mem t) (pgno x)"
    "umaps t R x = {y}" "\<And>p. p \<noteq> x \<Longrightarrow> umaps t R p = umaps s R p"
proof -
  let ?L = "(ents (mem s))(y := e)"
  note I = cow_invD [OF inv] and S = vm_stepD [OF st]
  note A = allocsD [OF S(3)]
  have mx: "umaps s R x = {}" using x by (simp add: kown_def)
  have notnew: "p \<notin> set nw" if "get_kmem_ref p s \<noteq> 0" for p using that free_page_facts [OF I(1), of p] S(1) by auto
  have ref: "get_kmem_ref p t = get_kmem_ref p s" if "kpage s p" "get_kmem_ref p s \<noteq> 0" for p
    using A(7) [OF that(1)] notnew [OF that(2)] by simp
  have refs: "refs_ok (uslots R) ?L (\<lambda>p. get_kmem_ref p t)"
    using I(2) y
  proof (rule refs_ok_map)
    show "maps (uslots R) (ents (mem s)) (PTE2PA e) = {}" using mx e(2) by (simp add: umaps_def)
    show "get_kmem_ref (PTE2PA e) t = 1" using ref [of x] x e(2) by (simp add: kown_def)
    show "get_kmem_ref p t = get_kmem_ref p s" if "maps (uslots R) (ents (mem s)) p \<noteq> {}" for p
      using upage_facts(1,2) [OF inv, of p] that ref by (simp add: umaps_def)
  qed
  have L: "kpage s (PTE2PA (?L z)) \<and> PTE2PA (?L z) \<notin> tables (mem s) R \<and> PTE2PA (?L z) \<notin> set nw \<and>
      PTE_FLAGS (?L z) \<noteq> PTE_V" if "z \<in> uslots R" "bit (?L z) 0" for z
    using that x e I(4-7) [of z] notnew by (cases "z = y") (auto simp: kown_def)
  show "cow_inv t ys R" by (rule cow_of_step [OF inv st L refs])
  have um: "umaps t R p = maps (uslots R) ?L p" for p using S(6) by (rule umaps_eq)
  have xy: "y \<notin> umaps s R p" for p using y(2) by (simp add: umaps_def maps_def)
  show "umaps t R x = {y}" unfolding um maps_upd [OF y(1)] using e mx by (simp add: umaps_def)
  show um': "umaps t R p = umaps s R p" if "p \<noteq> x" for p
    unfolding um maps_upd [OF y(1)] using that e(2) xy [of p] by (simp add: umaps_def)
  have agr: "agree (mem s) (mem t) (pgno p) \<and> p \<notin> tables (mem t) R"
    if "kpage s p" "get_kmem_ref p s \<noteq> 0" "p \<notin> tables (mem s) R" for p
  proof -
    have pt: "p \<notin> tables (mem t) R" using that(3) S(4) notnew [OF that(2)] by simp
    then have "pgno p \<notin> pgno ` tables (mem t) R"
      using that(1) tables_owned [OF S(2)] by (auto simp: kpage_def aligned_pgno_eq)
    then show ?thesis using S(5) pt by simp
  qed
  show "agree (mem s) (mem t) (pgno x)" using agr x by (simp add: kown_def)
  show "cow_rel_but x s R t"
    unfolding cow_rel_but_def using A agr ref um' by (auto simp: kown_def)
  show "ukeeps s R t" using agr upage_facts [OF inv] by (intro ukeepsI) blast
qed

text \<open>Giving back a page of the kernel's own.\<close>

lemma kfree_kown:
  assumes inv: "cow_inv s xs R" and x: "kown s R x" "get_kmem_ref x s = 1"
  obtains t where "kfree x s = Ok t" "cow_inv t (x # xs) R" "\<And>y. fst y \<in> R \<Longrightarrow> ents (mem t) y = ents (mem s) y"
    "cow_rel_but x s R t" "ukeeps s R t" "\<And>p. umaps t R p = umaps s R p" "tables (mem t) R = tables (mem s) R"
proof -
  note I = cow_invD [OF inv] and V = vm_invD [OF cow_invD(1) [OF inv]]
  have kx: "kpage s x" "get_kmem_ref x s \<noteq> 0" "x \<notin> tables (mem s) R" using x by (auto simp: kown_def)
  obtain t where t: "kfree x s = Ok t" "vm_inv t (if get_kmem_ref x s = 1 then x # xs else xs) R"
    "tables (mem t) R = tables (mem s) R" "\<And>y. fst y \<in> R \<Longrightarrow> ents (mem t) y = ents (mem s) y"
    "\<And>q. kpage s q \<Longrightarrow> q \<noteq> x \<Longrightarrow> get_kmem_ref q t = get_kmem_ref q s"
    "\<And>k. k \<noteq> pgno x \<or> get_kmem_ref x s \<noteq> 1 \<Longrightarrow> agree (mem s) (mem t) k"
    "lock_ctx s t" "kend t = kend s" "kmem.more t = kmem.more s"
    by (rule kfree_data [OF I(1) kx]) blast
  have e: "ents (mem t) y = ents (mem s) y" if "y \<in> uslots R" for y using t(4) that by (auto simp: uslots_def)
  have um: "umaps t R p = umaps s R p" for p unfolding umaps_def using e by (rule maps_cong)
  have kp: "kpage t = kpage s" using t(8) by (intro ext kpage_cong)
  have nx: "p \<noteq> x" if "umaps s R p \<noteq> {}" for p using that x by (auto simp: kown_def)
  have "refs_ok (uslots R) (ents (mem t)) (\<lambda>p. get_kmem_ref p t)"
    using I(2) by (rule refs_ok_cong) (use e nx t(5) upage_facts(1) [OF inv] in \<open>auto simp: umaps_def\<close>)
  then have "cow_inv t (x # xs) R" unfolding cow_inv_def using t(2) x(2) e I(4-6) t(3) kp by auto
  moreover have other: "agree (mem s) (mem t) (pgno p)" if "kpage s p" "p \<noteq> x" for p
    using that kx(1) by (intro t(6)) (auto simp: aligned_pgno_eq kpage_def)
  have "cow_rel_but x s R t"
    unfolding cow_rel_but_def using t(3,5,7-9) other um kp by (auto simp: kown_def)
  moreover have "ukeeps s R t" using other nx upage_facts(1) [OF inv] by (intro ukeepsI) blast
  ultimately show ?thesis using that [of t] t(1,3,4) um by blast
qed

section \<open>A new page table\<close>

lemma zero_page_byte:
  assumes "aligned x" "off < 4096"
  shows "write_bytes m x (replicate 4096 v) (x + of_nat off) = v"
proof -
  have "unat (of_nat off :: u64) = off" using assms by (intro unat_of_nat_u64) simp
  then show ?thesis using assms by (simp add: write_bytes_def)
qed

lemma uvmcreate_cow:
  assumes "cow_inv s xs R"
  obtains (none) "xs = []" "uvmcreate s = Ok (0, masked_once s)" "cow_post s xs R (masked_once s) xs (ents (mem s))"
  | (table) pt ys t where "xs = pt # ys" "uvmcreate s = Ok (pt, t)" "pt \<noteq> 0" "pt \<notin> R" "cow_inv t ys (insert pt R)"
      "\<And>k. ents (mem t) (pt, k) = 0" "cow_post s xs R t ys (ents (mem s))"
  using assms
proof (cases rule: kalloc_cow)
  case none
  then show ?thesis using that(1) by (simp add: uvmcreate_def)
next
  case (page x ys t0)
  let ?t = "t0\<lparr>mem := write_bytes (mem t0) x (replicate 4096 0)\<rparr>"
  note C = cow_postD [OF page(7)]
  have al: "aligned x" "kpage t0 x" using page(5) by (auto simp: kown_def kpage_def)
  have agr: "\<And>k. k \<noteq> pgno x \<Longrightarrow> agree (mem t0) (mem ?t) k" using al by (simp add: agree_write_page)
  note W = write_kown [OF C(1) page(5), of "mem ?t", OF agr, simplified]
  note I = cow_invD [OF W(1)] and V = vm_invD [OF cow_invD(1) [OF W(1)]]
  have xR: "x \<notin> tables (mem ?t) R" using W(3) page(5) by (simp add: kown_def)
  then have nR: "x \<notin> R" by (auto simp: tables_def)
  have z: "pt_wf (mem ?t) 2 x \<and> pt_pages (mem ?t) 2 x = {x} \<and> pt_lookup (mem ?t) 2 x k = 0" for k
    using pte_zero_page [OF al(1)] by (intro pt_empty) simp
  have "vm_inv ?t ys (insert x R)"
    unfolding vm_inv_def
  proof (intro conjI ballI impI)
    show "pt_ok ?t 2 pt" if "pt \<in> insert x R" for pt
      using that z V(5) al(2) page(6) by (auto simp: pt_ok_def)
    show "pt_pages (mem ?t) 2 pt \<inter> pt_pages (mem ?t) 2 pt' = {}"
      if "pt \<in> insert x R" "pt' \<in> insert x R" "pt \<noteq> pt'" for pt pt'
      using that z V(6) [of pt pt'] xR by (auto simp: tables_def)
  qed (use V in auto)
  moreover have m: "maps (uslots (insert x R)) (ents (mem ?t)) p = maps (uslots R) (ents (mem ?t)) p" for p
    using z by (auto simp: maps_def uslots_def ents_def)
  have "refs_ok (uslots (insert x R)) (ents (mem ?t)) (\<lambda>p. get_kmem_ref p ?t)"
    using I(2) unfolding refs_ok_def m .
  moreover have "kpage ?t (PTE2PA (ents (mem ?t) y)) \<and> PTE2PA (ents (mem ?t) y) \<notin> tables (mem ?t) (insert x R) \<and>
      PTE_FLAGS (ents (mem ?t) y) \<noteq> PTE_V" if "y \<in> uslots (insert x R)" "bit (ents (mem ?t) y) 0" for y
  proof -
    have y: "y \<in> uslots R" using that z by (auto simp: uslots_def ents_def)
    have "PTE2PA (ents (mem ?t) y) \<noteq> x"
      using umapsI [OF y that(2)] W(7) [of x] page(5) by (auto simp: kown_def)
    then show ?thesis using I(4-6) [OF y that(2)] z by (auto simp: tables_def)
  qed
  ultimately have cow: "cow_inv ?t ys (insert x R)" unfolding cow_inv_def by blast
  have "cow_rel s R ?t"
    by (rule cow_rel_strengthen [OF cow_rel_but_trans [OF cow_rel_weaken [OF C(3)] W(4)] page(4)])
  moreover have "ukeeps s R ?t" using ukeeps_trans [OF C(4) W(5)] C(5) by blast
  ultimately have "cow_post s xs R ?t ys (ents (mem s))"
    unfolding cow_post_def using W(1) W(2) C(2,5) W(6) by auto
  moreover have "uvmcreate s = Ok (x, ?t)" using page(2,3) by (simp add: uvmcreate_def memset_eq PGSIZE_def)
  ultimately show ?thesis using that(2) page(1,3) nR cow z by (simp add: ents_def)
qed

section \<open>Shrinking\<close>

lemma unat_PGROUNDUP_npages: "unat sz + 4095 < 18446744073709551616 \<Longrightarrow> unat (PGROUNDUP sz) = npages sz * 4096"
  by (simp add: unat_PGROUNDUP npages_def)

lemma npages_mono: "unat a \<le> unat b \<Longrightarrow> npages a \<le> npages b"
  by (simp add: npages_def div_le_mono)

lemma scast_small:
  assumes "n < 2 ^ 31"
  shows "(scast (ucast (of_nat n :: u64) :: u32) :: u64) = of_nat n"
proof -
  have "(ucast (of_nat n :: u64) :: u32) = of_nat n"
    using assms by (simp add: unsigned_of_nat take_bit_nat_eq_self)
  moreover
  have "sint (of_nat n :: u32) = int n" using assms
    by (simp add: signed_of_nat signed_take_bit_int_eq_self)
  ultimately show ?thesis by (simp add: scast_eq)
qed

lemma uvmdealloc_cow:
  assumes "cow_inv s xs R" "pt \<in> R" "npages oldsz \<le> UPAGES" "newsz < oldsz"
    and "\<And>k. npages newsz \<le> k \<Longrightarrow> k < npages oldsz \<Longrightarrow> bit (ents (mem s) (pt, k)) 0"
  shows "\<exists>t ys. uvmdealloc pt oldsz newsz s = Ok (newsz, t) \<and>
    unmap_post s xs R t ys (clear_range (ents (mem s)) pt (npages newsz) (npages oldsz - npages newsz))"
proof -
  have lt: "unat newsz < unat oldsz" using assms(4) by (simp add: word_less_nat_alt)
  have o: "unat oldsz \<le> 4096 * 67108862" using npages_bounds(1) [of oldsz] assms(3) by simp
  have up: "unat (PGROUNDUP oldsz) = npages oldsz * 4096" "unat (PGROUNDUP newsz) = npages newsz * 4096"
    using o lt by (simp_all add: unat_PGROUNDUP_npages)
  have le: "npages newsz \<le> npages oldsz" using lt by (simp add: npages_mono)
  let ?n = "npages oldsz - npages newsz"
  have nle: "\<not> oldsz \<le> newsz" using assms(4) by simp
  show ?thesis
  proof (cases "?n = 0")
    case True
    then have "\<not> PGROUNDUP newsz < PGROUNDUP oldsz" using up by (simp add: word_less_nat_alt)
    then show ?thesis
      using nle True unmap_post_refl [OF assms(1)] by (auto simp: uvmdealloc_def)
  next
    case False
    then have "PGROUNDUP newsz < PGROUNDUP oldsz" using up le by (simp add: word_less_nat_alt)
    have "unat ((PGROUNDUP oldsz - PGROUNDUP newsz) div PGSIZE) = ?n"
      using up le by (simp add: unat_div PGSIZE_def unat_sub word_le_nat_alt flip: diff_mult_distrib)
    then have "(PGROUNDUP oldsz - PGROUNDUP newsz) div PGSIZE = of_nat ?n"
      by (metis of_nat_unat ucast_id)
    then have n: "scast (ucast ((PGROUNDUP oldsz - PGROUNDUP newsz) div PGSIZE) :: u32) = (of_nat ?n :: u64)"
      using scast_small [of ?n] assms(3) by simp
    have pg: "pgno (PGROUNDUP newsz) = npages newsz" using up by (simp add: pgno_def)
    have e: "unat (PGROUNDUP newsz + of_nat ?n * PGSIZE) = unat (PGROUNDUP newsz) + 4096 * ?n"
      using up le assms(3) unat_add_no_wrap [of "PGROUNDUP newsz" "4096 * ?n"]
      by (simp add: PGSIZE_def mult.commute)
    have "PGROUNDUP newsz mod PGSIZE = 0"
      using up by (simp add: word_unat_eq_iff unat_mod PGSIZE_def)
    then have run: "uvmunmap pt (PGROUNDUP newsz) (of_nat ?n) True s =
        uvmunmap_loop pt (PGROUNDUP newsz) (PGROUNDUP newsz + of_nat ?n * PGSIZE) True s"
      by (simp add: uvmunmap_def)
    obtain t ys where "uvmunmap_loop pt (PGROUNDUP newsz) (PGROUNDUP newsz + of_nat ?n * PGSIZE) True s = Ok t"
      "unmap_post s xs R t ys (clear_range (ents (mem s)) pt (npages newsz) ?n)"
      using uvmunmap_run [OF assms(1,2) _ e] pg le assms(3,5) by auto
    then show ?thesis
      using nle \<open>PGROUNDUP newsz < PGROUNDUP oldsz\<close> run n by (auto simp: uvmdealloc_def Let_def)
  qed
qed

section \<open>Growing\<close>

abbreviation RWXU :: u64 where
  "RWXU \<equiv> PTE_W OR PTE_X OR PTE_R OR PTE_U"

lemma new_entry:
  assumes "aligned x"
  shows "bit (PA2PTE x OR RWXU OR PTE_V) 0" "PTE2PA (PA2PTE x OR RWXU OR PTE_V) = x"
    "PTE_FLAGS (PA2PTE x OR RWXU OR PTE_V) \<noteq> PTE_V"
  using PTE2PA_make [OF assms, of RWXU] leaf_bit [of "PA2PTE x OR RWXU OR PTE_V" 2]
  by (auto simp: bit_make_flag bit_or_iff)

lemma grow_step:
  assumes inv: "cow_inv s xs R" and pt: "pt \<in> R" and a: "aligned a" "pgno a < UPAGES" "a < newsz"
    and nv: "\<not> bit (ents (mem s) (pt, pgno a)) 0"
  obtains (fail) t ys where
      "uvmalloc_loop pt oldsz newsz a s = bind_res (uvmdealloc pt a oldsz t) (\<lambda>(_, s). Ok (0, s))"
      "cow_post s xs R t ys (ents (mem s))" "length xs \<le> 3"
  | (ok) t ys x where "uvmalloc_loop pt oldsz newsz a s = uvmalloc_loop pt oldsz newsz (a + PGSIZE) t"
      "cow_post s xs R t ys ((ents (mem s))((pt, pgno a) := PA2PTE x OR RWXU OR PTE_V))" "aligned x"
      "umaps s R x = {}" "umaps t R x = {(pt, pgno a)}" "\<And>p. p \<noteq> x \<Longrightarrow> umaps t R p = umaps s R p"
      "\<And>off. off < 4096 \<Longrightarrow> mem t (x + of_nat off) = 0" "length xs \<le> length ys + 3"
  using inv
proof (cases rule: kalloc_cow)
  case none
  have "uvmalloc_loop pt oldsz newsz a s = bind_res (uvmdealloc pt a oldsz (masked_once s)) (\<lambda>(_, s). Ok (0, s))"
    using none a(3) by (simp add: uvmalloc_loop.simps [of pt oldsz newsz a])
  then show ?thesis using that(1) none(1,3) by simp
next
  case (page x ys t0)
  let ?t1 = "t0\<lparr>mem := write_bytes (mem t0) x (replicate 4096 0)\<rparr>"
  let ?e = "PA2PTE x OR RWXU OR PTE_V"
  note C = cow_postD [OF page(7)]
  have al: "aligned x" using page(5) by (simp add: kown_def kpage_def)
  have agr: "\<And>k. k \<noteq> pgno x \<Longrightarrow> agree (mem t0) (mem ?t1) k" using al by (simp add: agree_write_page)
  note W = write_kown [OF C(1) page(5), of "mem ?t1", OF agr, simplified]
  have kx: "kown ?t1 R x" "get_kmem_ref x ?t1 = 1" using W(7) page(5,6) by simp_all
  have e1: "ents (mem ?t1) y = ents (mem s) y" if "y \<in> R \<times> {..<VPAGES}" for y
    using W(2) [of y] C(2) [OF that] that by auto
  have um0: "umaps t0 R p = umaps s R p" for p
    using umaps_eq [OF C(2)] by (simp add: umaps_def)
  have mx: "umaps s R x = {}" using um0 [of x] page(5) by (simp add: kown_def)
  have k: "(pt, pgno a) \<in> uslots R" using pt a by (simp add: uslots_def)
  have va: "a < MAXVA" using a(2) by (simp add: less_MAXVA pgno_def div_less_iff_less_mult)
  have loop: "uvmalloc_loop pt oldsz newsz a s = bind_res (mappages pt a PGSIZE x RWXU ?t1) (\<lambda>(r, s).
      if r \<noteq> 0 then bind_res (kfree x s) (\<lambda>s. bind_res (uvmdealloc pt a oldsz s) (\<lambda>(_, s). Ok (0, s)))
      else uvmalloc_loop pt oldsz newsz (a + PGSIZE) s)"
    using page(2,3) a(3) by (simp add: uvmalloc_loop.simps [of pt oldsz newsz a] memset_eq PGSIZE_def Let_def)
  have r01: "cow_rel_but x s R ?t1" by (rule cow_rel_but_trans [OF cow_rel_weaken [OF C(3)] W(4)])
  have k01: "ukeeps s R ?t1" using ukeeps_trans [OF C(4) W(5)] C(5) by blast
  show ?thesis
    using cow_invD(1) [OF W(1)] pt a(1) va
  proof (cases rule: mappages_one [where pa = x and perm = RWXU])
    case (fail t2)
    note P = cow_postD [OF cow_post_same [OF W(1) fail(2)]]
    have k2: "kown t2 R x" "get_kmem_ref x t2 = 1" using P(3) kx by (auto simp: cow_rel_def)
    obtain t where t: "kfree x t2 = Ok t" "cow_inv t [x] R" "\<And>y. fst y \<in> R \<Longrightarrow> ents (mem t) y = ents (mem t2) y"
        "cow_rel_but x t2 R t" "ukeeps t2 R t" "\<And>p. umaps t R p = umaps t2 R p"
      by (rule kfree_kown [OF P(1) k2]) blast
    have um2: "umaps t2 R p = umaps s R p" for p
      using umaps_eq [OF P(2)] W(6) [of p] um0 [of p] by (simp add: umaps_def)
    have "cow_rel s R t"
      by (rule cow_rel_strengthen [OF cow_rel_but_trans [OF cow_rel_but_trans [OF r01 cow_rel_weaken [OF P(3)]] t(4)] page(4)])
    moreover have "ukeeps s R t2" using ukeeps_trans [OF k01 P(4)] W(6) um0 by simp
    then have "ukeeps s R t" using ukeeps_trans [OF _ t(5)] um2 by simp
    moreover have "ents (mem t) y = ents (mem s) y" if "y \<in> R \<times> {..<VPAGES}" for y
      using t(3) [of y] P(2) [OF that] e1 [OF that] that by auto
    ultimately have "cow_post s xs R t [x] (ents (mem s))"
      unfolding cow_post_def using t(2,6) um2 by simp
    then show ?thesis using that(1) loop fail(1,3) t(1) page(1) by simp
  next
    case (ok t nw zs)
    have "\<not> bit (ents (mem ?t1) (pt, pgno a)) 0" using e1 [OF uslots_sub [OF k]] nv by simp
    note M = map_kown [OF W(1) kx k this ok(3) new_entry [OF al]]
    have e2: "ents (mem t) y = ((ents (mem s))((pt, pgno a) := ?e)) y" if "y \<in> R \<times> {..<VPAGES}" for y
      using vm_stepD(6) [OF ok(3) that] e1 [OF that] by simp
    have um: "umaps t R p = umaps s R p" if "p \<noteq> x" for p using M(6) [OF that] W(6) um0 by simp
    have "cow_rel s R t"
      by (rule cow_rel_strengthen [OF cow_rel_but_trans [OF r01 M(2)] page(4)])
    moreover have "ukeeps s R t" using ukeeps_trans [OF k01 M(3)] W(6) um0 by simp
    moreover have "umaps t R p \<noteq> {}" if "umaps s R p \<noteq> {}" for p using that um [of p] mx by (cases "p = x") auto
    ultimately have "cow_post s xs R t zs ((ents (mem s))((pt, pgno a) := ?e))"
      unfolding cow_post_def using M(1) e2 by blast
    moreover have "mem t (x + of_nat off) = 0" if "off < 4096" for off
      using M(4) zero_page_byte [OF al that, of "mem t0" 0] pgno_page_offset [OF al that] by (simp add: agree_def)
    moreover have "length xs \<le> length zs + 3" using page(1) ok(2) vm_stepD(1) [OF ok(3)] by simp
    ultimately show ?thesis using that(2) [of t zs x] loop ok(1) al mx M(5) um by simp
  qed
qed

text \<open>
  From \<open>s\<close> to \<open>t\<close> the table \<open>pt\<close> got \<open>n\<close> pages from page number \<open>k\<close> on: each of its own,
  zeroed, with all permissions; every other entry is as before.
\<close>

definition grown :: "'a kmem_scheme \<Rightarrow> u64 set \<Rightarrow> 'a kmem_scheme \<Rightarrow> u64 \<Rightarrow> nat \<Rightarrow> nat \<Rightarrow> bool" where
  "grown s R t pt k n \<longleftrightarrow>
     (\<forall>x \<in> R \<times> {..<VPAGES}. fst x = pt \<and> k \<le> snd x \<and> snd x < k + n \<or> ents (mem t) x = ents (mem s) x) \<and>
     (\<forall>j. k \<le> j \<and> j < k + n \<longrightarrow> (\<exists>x. ents (mem t) (pt, j) = PA2PTE x OR RWXU OR PTE_V \<and> aligned x \<and>
        umaps t R x = {(pt, j)} \<and> (\<forall>off < 4096. mem t (x + of_nat off) = 0)))"

lemma grownD:
  assumes "grown s R t pt k n"
  shows "\<And>x. x \<in> R \<times> {..<VPAGES} \<Longrightarrow> \<not> (fst x = pt \<and> k \<le> snd x \<and> snd x < k + n) \<Longrightarrow> ents (mem t) x = ents (mem s) x"
    "\<And>j. k \<le> j \<Longrightarrow> j < k + n \<Longrightarrow> \<exists>x. ents (mem t) (pt, j) = PA2PTE x OR RWXU OR PTE_V \<and> aligned x \<and>
        umaps t R x = {(pt, j)} \<and> (\<forall>off < 4096. mem t (x + of_nat off) = 0)"
  using assms unfolding grown_def by blast+

lemma grown_refl: "grown s R s pt k 0"
  unfolding grown_def by auto

lemma grown_Suc:
  assumes g: "grown s R t pt k n" and inv: "cow_inv t xs R" and pt: "pt \<in> R" and b: "k + n < UPAGES"
    and post: "cow_post t xs R u ys ((ents (mem t))((pt, k + n) := PA2PTE x OR RWXU OR PTE_V))" and x: "aligned x"
    and um: "umaps t R x = {}" "umaps u R x = {(pt, k + n)}" "\<And>p. p \<noteq> x \<Longrightarrow> umaps u R p = umaps t R p"
    and z: "\<And>off. off < 4096 \<Longrightarrow> mem u (x + of_nat off) = 0"
  shows "grown s R u pt k (Suc n)"
proof -
  note C = cow_postD [OF post]
  have "\<exists>x. ents (mem u) (pt, j) = PA2PTE x OR RWXU OR PTE_V \<and> aligned x \<and>
      umaps u R x = {(pt, j)} \<and> (\<forall>off < 4096. mem u (x + of_nat off) = 0)" if j: "k \<le> j" "j < k + Suc n" for j
  proof (cases "j = k + n")
    case True
    then show ?thesis using C(2) [of "(pt, j)"] pt b x um z by auto
  next
    case False
    then obtain y where y: "ents (mem t) (pt, j) = PA2PTE y OR RWXU OR PTE_V" "aligned y"
        "umaps t R y = {(pt, j)}" "\<forall>off < 4096. mem t (y + of_nat off) = 0"
      using g j unfolding grown_def by auto
    then have "y \<noteq> x" using um(1) by auto
    then have uy: "umaps u R y = {(pt, j)}" using um(3) y(3) by simp
    have "agree (mem t) (mem u) (pgno y)" using C(4) y(3) uy by (auto simp: ukeeps_def)
    then have "\<forall>off < 4096. mem u (y + of_nat off) = 0"
      using y(4) pgno_page_offset [OF y(2)] by (simp add: agree_def)
    then show ?thesis using C(2) [of "(pt, j)"] False pt b j y uy by auto
  qed
  moreover have "fst y = pt \<and> k \<le> snd y \<and> snd y < k + Suc n \<or> ents (mem u) y = ents (mem s) y"
    if "y \<in> R \<times> {..<VPAGES}" for y
  proof -
    have "fst y = pt \<and> k \<le> snd y \<and> snd y < k + n \<or> ents (mem t) y = ents (mem s) y"
      using g that unfolding grown_def by blast
    then show ?thesis using C(2) [OF that] by (cases "y = (pt, k + n)") auto
  qed
  ultimately show ?thesis unfolding grown_def by blast
qed

lemma npages_aligned: "aligned a \<Longrightarrow> npages a = pgno a"
  using aligned_unat [of a] by (simp add: npages_def)

text \<open>Undoing a partial growth leaves the entries outside the range as they were.\<close>

lemma grow_undo:
  assumes inv: "cow_inv s0 xs0 R" and pt: "pt \<in> R" and oz: "aligned oz" "aligned a" "pgno a = pgno oz + i" "pgno a \<le> UPAGES"
    and nv: "\<And>k. pgno oz \<le> k \<Longrightarrow> k < pgno a \<Longrightarrow> \<not> bit (ents (mem s0) (pt, k)) 0"
    and g: "grown s0 R s pt (pgno oz) i" and post: "cow_post s0 xs0 R t xs (ents (mem s))"
  shows "\<exists>u ys r. uvmdealloc pt a oz t = Ok (r, u) \<and> cow_post s0 xs0 R u ys (clear_range (ents (mem s0)) pt (pgno oz) i)"
proof -
  note C = cow_postD [OF post]
  have ua: "unat a = unat oz + 4096 * i" using oz aligned_unat [of a] aligned_unat [of oz] by simp
  have valid: "bit (ents (mem t) (pt, k)) 0" if k: "pgno oz \<le> k" "k < pgno a" for k
  proof -
    have "k < pgno oz + i" using k(2) oz(3) by simp
    then obtain x where "ents (mem s) (pt, k) = PA2PTE x OR RWXU OR PTE_V" "aligned x"
      using grownD(2) [OF g k(1)] by blast
    moreover have "ents (mem t) (pt, k) = ents (mem s) (pt, k)" using C(2) [of "(pt, k)"] pt k(2) oz(4) by simp
    ultimately show ?thesis using new_entry(1) by simp
  qed
  show ?thesis
  proof (cases "i = 0")
    case True
    then have "a = oz" using ua by (simp add: word_unat_eq_iff)
    moreover have "cow_post s0 xs0 R t xs (ents (mem s0))"
      using grownD(1) [OF g] True by (intro cow_post_cong [OF post]) auto
    ultimately show ?thesis using True by (auto simp: uvmdealloc_def)
  next
    case False
    then have "oz < a" using ua by (simp add: word_less_nat_alt)
    then obtain u ys where u: "uvmdealloc pt a oz t = Ok (oz, u)"
      "unmap_post t xs R u ys (clear_range (ents (mem t)) pt (pgno oz) i)"
      using uvmdealloc_cow [OF C(1) pt, of a oz] valid oz(3,4) npages_aligned [OF oz(1)] npages_aligned [OF oz(2)] by auto
    note D = unmap_postD [OF u(2)]
    let ?L = "clear_range (ents (mem s0)) pt (pgno oz) i"
    have e: "ents (mem u) x = ?L x" if "x \<in> R \<times> {..<VPAGES}" for x
      using D(2) [OF that] C(2) [OF that] grownD(1) [OF g that] by (cases x) (auto simp: clear_range_def)
    have um: "umaps u R p = maps (uslots R) ?L p" for p using e by (rule umaps_eq)
    have "umaps u R p \<noteq> {}" if ne: "umaps s0 R p \<noteq> {}" for p
    proof -
      obtain q j where x: "(q, j) \<in> uslots R" "bit (ents (mem s0) (q, j)) 0" "PTE2PA (ents (mem s0) (q, j)) = p"
        using ne by (auto simp: umaps_def maps_def)
      then have "?L (q, j) = ents (mem s0) (q, j)" using nv [of j] oz(3) by (auto simp: clear_range_def)
      then have "(q, j) \<in> umaps u R p" unfolding um using x by (simp add: maps_def)
      then show ?thesis by blast
    qed
    moreover have "ukeeps s0 R u" using ukeeps_trans [OF C(4) D(5)] C(5) by blast
    ultimately have "cow_post s0 xs0 R u ys ?L"
      unfolding cow_post_def using D(1) e cow_rel_trans [OF C(3) D(4)] by blast
    then show ?thesis using u(1) by blast
  qed
qed

lemma uvmalloc_loop_run:
  assumes inv: "cow_inv s0 xs0 R" and pt: "pt \<in> R" and oz: "aligned oz"
    and nv: "\<And>k. pgno oz \<le> k \<Longrightarrow> k < pgno oz + i + n \<Longrightarrow> \<not> bit (ents (mem s0) (pt, k)) 0"
    and b: "pgno oz + i + n \<le> UPAGES" and a: "aligned a" "pgno a = pgno oz + i"
    and sz: "unat newsz \<le> unat a + 4096 * n" "unat a + 4096 * n < unat newsz + 4096"
    and post: "cow_post s0 xs0 R s xs (ents (mem s))" and g: "grown s0 R s pt (pgno oz) i"
  shows "(\<exists>t ys. uvmalloc_loop pt oz newsz a s = Ok (newsz, t) \<and> cow_post s0 xs0 R t ys (ents (mem t)) \<and>
      grown s0 R t pt (pgno oz) (i + n) \<and> length xs \<le> length ys + 3 * n) \<or>
    (\<exists>t ys j. uvmalloc_loop pt oz newsz a s = Ok (0, t) \<and> j < i + n \<and> length xs \<le> 3 * n \<and>
      cow_post s0 xs0 R t ys (clear_range (ents (mem s0)) pt (pgno oz) j))"
  using nv b a sz post g
proof (induction n arbitrary: i a s xs)
  case 0
  have "\<not> a < newsz" using "0.prems"(5) by (simp add: word_less_nat_alt)
  then show ?case using "0.prems"(7,8) by (auto simp: uvmalloc_loop.simps [of pt oz newsz a])
next
  case (Suc n)
  note C = cow_postD [OF Suc.prems(7)]
  have k: "pgno a < UPAGES" using Suc.prems(2,4) by simp
  have va: "a < MAXVA" using k by (simp add: less_MAXVA pgno_def div_less_iff_less_mult)
  have lt: "a < newsz" using Suc.prems(6) by (simp add: word_less_nat_alt)
  have "ents (mem s) (pt, pgno a) = ents (mem s0) (pt, pgno a)"
    using grownD(1) [OF Suc.prems(8), of "(pt, pgno a)"] Suc.prems(4) pt k by simp
  then have nva: "\<not> bit (ents (mem s) (pt, pgno a)) 0" using Suc.prems(1) [of "pgno a"] Suc.prems(4) by simp
  show ?case
    using C(1) pt Suc.prems(3) k lt nva
  proof (cases rule: grow_step [where oldsz = oz])
    case (fail t ys)
    have "\<exists>u zs r. uvmdealloc pt a oz t = Ok (r, u) \<and>
        cow_post s0 xs0 R u zs (clear_range (ents (mem s0)) pt (pgno oz) i)"
      using Suc.prems(1,2,4) k
      by (intro grow_undo [OF inv pt oz Suc.prems(3,4) _ _ Suc.prems(8) cow_post_trans [OF Suc.prems(7) fail(2)]]) auto
    then obtain u zs r where "uvmdealloc pt a oz t = Ok (r, u)"
      "cow_post s0 xs0 R u zs (clear_range (ents (mem s0)) pt (pgno oz) i)" by blast
    then show ?thesis using fail(1,3) by (auto intro!: exI [of _ i])
  next
    case (ok t ys x)
    have g': "grown s0 R t pt (pgno oz) (Suc i)"
      using ok k by (intro grown_Suc [OF Suc.prems(8) C(1) pt]) (auto simp: Suc.prems(4))
    have p': "cow_post s0 xs0 R t ys (ents (mem t))"
      using cow_post_trans [OF Suc.prems(7) ok(2)] by (rule cow_post_cong) (rule cow_postD(2) [OF ok(2), symmetric])
    have nx: "aligned (a + PGSIZE)" "pgno (a + PGSIZE) = pgno oz + Suc i" "unat (a + PGSIZE) = unat a + 4096"
      using aligned_next [OF Suc.prems(3)] pgno_next [OF va] unat_next_page [of a] va Suc.prems(4) by (auto simp: less_MAXVA)
    show ?thesis
      using Suc.IH [of "Suc i" "a + PGSIZE" t ys] Suc.prems(1,2,5,6) nx g' p' ok(1,8) by fastforce
  qed
qed

lemma uvmalloc_result:
  assumes inv: "cow_inv s xs R" and pt: "pt \<in> R" and sz: "npages newsz \<le> UPAGES" "oldsz \<le> newsz"
    and nv: "\<And>k. npages oldsz \<le> k \<Longrightarrow> k < npages newsz \<Longrightarrow> \<not> bit (ents (mem s) (pt, k)) 0"
  obtains (ok) t ys where "uvmalloc pt oldsz newsz s = Ok (newsz, t)" "cow_post s xs R t ys (ents (mem t))"
      "grown s R t pt (npages oldsz) (npages newsz - npages oldsz)" "length xs \<le> length ys + 3 * (npages newsz - npages oldsz)"
  | (fail) t ys j where "uvmalloc pt oldsz newsz s = Ok (0, t)" "j < npages newsz - npages oldsz"
      "length xs \<le> 3 * (npages newsz - npages oldsz)" "cow_post s xs R t ys (clear_range (ents (mem s)) pt (npages oldsz) j)"
proof -
  let ?a = "PGROUNDUP oldsz" and ?n = "npages newsz - npages oldsz"
  have le: "unat oldsz \<le> unat newsz" using sz(2) by (simp add: word_le_nat_alt)
  have "unat newsz \<le> 4096 * 67108862" using npages_bounds(1) [of newsz] sz(1) by simp
  then have up: "unat ?a = npages oldsz * 4096" using le by (simp add: unat_PGROUNDUP_npages)
  then have pg: "pgno ?a = npages oldsz" by (simp add: pgno_def)
  have "npages oldsz \<le> npages newsz" using le by (rule npages_mono)
  then have b: "unat newsz \<le> unat ?a + 4096 * ?n" "unat ?a + 4096 * ?n < unat newsz + 4096"
    using npages_bounds [of newsz] up by simp_all
  have eq: "uvmalloc pt oldsz newsz s = uvmalloc_loop pt ?a newsz ?a s"
    using sz(2) by (auto simp: uvmalloc_def dest: leD)
  have "(\<exists>t ys. uvmalloc_loop pt ?a newsz ?a s = Ok (newsz, t) \<and> cow_post s xs R t ys (ents (mem t)) \<and>
      grown s R t pt (pgno ?a) (0 + ?n) \<and> length xs \<le> length ys + 3 * ?n) \<or>
    (\<exists>t ys j. uvmalloc_loop pt ?a newsz ?a s = Ok (0, t) \<and> j < 0 + ?n \<and> length xs \<le> 3 * ?n \<and>
      cow_post s xs R t ys (clear_range (ents (mem s)) pt (pgno ?a) j))"
    using nv pg sz(1) b \<open>npages oldsz \<le> npages newsz\<close>
    by (intro uvmalloc_loop_run [OF inv pt aligned_PGROUNDUP _ _ aligned_PGROUNDUP _ _ _ cow_post_refl [OF inv] grown_refl]) auto
  then show ?thesis using that eq pg by auto
qed

end
