(* ===== verification/Cow_Fault.thy ===== *)
theory Cow_Fault
  imports Cow_Alloc
begin

unbundle bit_operations_syntax

text \<open>
  The write-fault branch of \<open>usertrap\<close> (\<^verbatim>\<open>kernel/trap.c\<close>) and its counterpart in \<open>copyout\<close>:
  a write to a page marked \<open>PTE_RSW\<close> either makes the entry writable again, when the page is
  not shared, or gives the process a copy of its own.
\<close>

section \<open>The fault handler\<close>

text \<open>The result says whether the process is to be killed.\<close>

definition write_fault :: "u64 \<Rightarrow> u64 \<Rightarrow> u64 \<Rightarrow> 'a kmem_scheme \<Rightarrow> (bool \<times> 'a kmem_scheme) res" where
  "write_fault pagetable sz stval s =
     (let va = PGROUNDDOWN stval in
      if va > sz then Ok (True, s)
      else bind_res (walk pagetable va False s) (\<lambda>(pte, s).
        if pte = 0 then Ok (True, s)
        else if load64 (mem s) pte AND PTE_RSW = 0 \<or> load64 (mem s) pte AND PTE_V = 0 \<or>
          load64 (mem s) pte AND PTE_U = 0 then Ok (True, s)
        else
          let pa = PTE2PA (load64 (mem s) pte) in
          bind_res (acquire_ref_lock s) (\<lambda>s.
            bind_res
              (if get_kmem_ref pa s = 1
               then Ok (False, s\<lparr>mem := store64 (mem s) pte (load64 (mem s) pte AND NOT PTE_RSW OR PTE_W)\<rparr>)
               else bind_res (kalloc s) (\<lambda>(pg, s).
                 if pg = 0 then Ok (True, s)
                 else
                   let s = s\<lparr>mem := memmove (mem s) pg pa (unat PGSIZE)\<rparr>;
                       flag = (PTE_FLAGS (load64 (mem s) pte) OR PTE_W) AND NOT PTE_RSW
                   in bind_res (mappages pagetable va PGSIZE pg flag s) (\<lambda>(r, s).
                     if r \<noteq> 0 then bind_res (kfree pg s) (\<lambda>s. Ok (True, s))
                     else bind_res (kfree pa s) (\<lambda>s. Ok (False, s)))))
              (\<lambda>(killed, s). bind_res (release_ref_lock s) (\<lambda>s. Ok (killed, s))))))"

section \<open>Working under the reference lock\<close>

lemma kmem_upd [simp]:
  "freelist (s\<lparr>cpus := c, locks := k\<rparr>) = freelist s" "ref_count (s\<lparr>cpus := c, locks := k\<rparr>) = ref_count s"
  "kend (s\<lparr>cpus := c, locks := k\<rparr>) = kend s"
  by simp_all

lemma cow_inv_cong:
  assumes "mem t = mem s" "freelist t = freelist s" "ref_count t = ref_count s" "kend t = kend s"
    and "kmem_ready t" "cow_inv s xs R"
  shows "cow_inv t xs R"
  using assms unfolding cow_inv_def vm_inv_def kmem_inv_def kend_ok_def pt_ok_def kpage_def get_kmem_ref_def INDEX_def
  by simp

lemma kown_cong:
  assumes "mem t = mem s" "ref_count t = ref_count s" "kend t = kend s"
  shows "kown t R p = kown s R p" "umaps t R p = umaps s R p" "get_kmem_ref p t = get_kmem_ref p s"
  using assms unfolding kown_def umaps_def kpage_def get_kmem_ref_def INDEX_def by simp_all

lemma enter_ref_ready: "kmem_ready s \<Longrightarrow> kmem_ready (enter_state L_ref s)"
  by (auto simp: kmem_ready_def enter_state_def lock_free_def cpu_ok_def lock_defs)

lemma masked_enter: "cpu_ok s \<Longrightarrow> masked_once (enter_state l s) = enter_state l s"
  by (auto simp: masked_once_def enter_state_def cpu_ok_def lock_defs)

lemma release_ctx:
  assumes "lock_free l s" "cpu_ok s" "lock_ctx (enter_state l s) t"
  shows "release l t = Ok (t\<lparr>cpus := cpus (masked_once s), locks := locks s\<rparr>)"
    "lock_ctx s (t\<lparr>cpus := cpus (masked_once s), locks := locks s\<rparr>)"
proof -
  have "cpus t = cpus (enter_state l s)" "locks t = locks (enter_state l s)" "tp t = tp s"
    using assms(3) masked_enter [OF assms(2), of l] by (auto simp: lock_ctx_def)
  then show "release l t = Ok (t\<lparr>cpus := cpus (masked_once s), locks := locks s\<rparr>)"
    "lock_ctx s (t\<lparr>cpus := cpus (masked_once s), locks := locks s\<rparr>)"
    using release_enter [OF assms(1,2)] by (simp_all add: lock_ctx_def)
qed

lemma cow_post_lock:
  assumes "cow_post (enter_state L_ref s) xs R t1 ys L" "t = t1\<lparr>cpus := c, locks := k\<rparr>"
    and "lock_ctx s t" "kmem_ready s"
  shows "cow_post s xs R t ys L"
proof -
  note C = cow_postD [OF assms(1)]
  have e: "mem (enter_state L_ref s) = mem s" "ref_count (enter_state L_ref s) = ref_count s"
    "kend (enter_state L_ref s) = kend s" "kmem.more (enter_state L_ref s) = kmem.more s"
    by (simp_all add: enter_state_def lock_defs)
  have t: "mem t = mem t1" "freelist t = freelist t1" "ref_count t = ref_count t1" "kend t = kend t1"
    "kmem.more t = kmem.more t1" using assms(2) by simp_all
  have "kmem_ready t" using kmem_ready_ctx [OF assms(3)] assms(4) by simp
  then have "cow_inv t ys R" using C(1) t by (intro cow_inv_cong [of t t1]) simp_all
  moreover have "cow_rel s R t" using C(3) assms(3) e t kown_cong [OF e(1-3)] kown_cong [of t t1]
    by (simp add: cow_rel_def)
  moreover have "ukeeps s R t" using C(4) e t kown_cong [OF e(1-3)] kown_cong [of t t1] by (simp add: ukeeps_def)
  ultimately show ?thesis
    unfolding cow_post_def using C(2,5) t e kown_cong [OF e(1-3)] kown_cong [of t t1] by simp
qed

lemma under_ref_lock:
  assumes "cow_inv s xs R" "lock_free L_ref s"
    and body: "\<And>s1. mem s1 = mem s \<Longrightarrow> ref_count s1 = ref_count s \<Longrightarrow> kend s1 = kend s \<Longrightarrow> cow_inv s1 xs R \<Longrightarrow>
      \<exists>r t ys L. f s1 = Ok (r, t) \<and> cow_post s1 xs R t ys L \<and> P r t ys L"
    and P: "\<And>r t ys L c k. P r t ys L \<Longrightarrow> P r (t\<lparr>cpus := c, locks := k\<rparr>) ys L"
  shows "\<exists>r t ys L. bind_res (acquire_ref_lock s) (\<lambda>s. bind_res (f s) (\<lambda>(r, s). bind_res (release_ref_lock s) (\<lambda>s. Ok (r, s))))
      = Ok (r, t) \<and> cow_post s xs R t ys L \<and> P r t ys L"
proof -
  let ?s1 = "enter_state L_ref s"
  have rdy: "kmem_ready s" "cpu_ok s" using vm_invD(1) [OF cow_invD(1) [OF assms(1)]] by (auto simp: kmem_ready_def)
  have e: "mem ?s1 = mem s" "freelist ?s1 = freelist s" "ref_count ?s1 = ref_count s" "kend ?s1 = kend s"
    by (simp_all add: enter_state_def lock_defs)
  have inv1: "cow_inv ?s1 xs R" by (rule cow_inv_cong [OF e enter_ref_ready [OF rdy(1)] assms(1)])
  obtain r t ys L where b: "f ?s1 = Ok (r, t)" "cow_post ?s1 xs R t ys L" "P r t ys L"
    using body [OF e(1,3,4) inv1] by blast
  have "lock_ctx ?s1 t" using cow_postD(3) [OF b(2)] by (simp add: cow_rel_def)
  note rel = release_ctx [OF assms(2) rdy(2) this]
  let ?t = "t\<lparr>cpus := cpus (masked_once s), locks := locks s\<rparr>"
  have "cow_post s xs R ?t ys L" by (rule cow_post_lock [OF b(2) refl rel(2) rdy(1)])
  moreover have "P r ?t ys L" using P [OF b(3)] .
  ultimately show ?thesis
    using rel(1) b(1) acquire_free [OF assms(2)] by (auto simp: acquire_ref_lock_def release_ref_lock_def)
qed

section \<open>A copy of one's own\<close>

lemma copy_page:
  assumes "aligned y" "unat y + 4096 < 2 ^ 64" "unat p + 4096 < 2 ^ 64"
  shows "\<And>k. k \<noteq> pgno y \<Longrightarrow> agree m (memmove m y p 4096) k"
    "\<And>off. off < 4096 \<Longrightarrow> memmove m y p 4096 (y + of_nat off) = m (p + of_nat off)"
proof -
  have eq: "memmove m y p 4096 = write_bytes m y (read_bytes m p 4096)"
    using assms(2,3) by (intro memmove_eq)
  show "agree m (memmove m y p 4096) k" if "k \<noteq> pgno y" for k
    unfolding eq using assms(1) that by (intro agree_write_page) simp_all
  show "memmove m y p 4096 (y + of_nat off) = m (p + of_nat off)" if "off < 4096" for off
  proof -
    have "unat (of_nat off :: u64) = off" using that by (intro unat_of_nat_u64) simp
    then show ?thesis unfolding eq using that by (simp add: write_bytes_def)
  qed
qed

text \<open>
  The state after the copy is mapped and the old page released, from the state \<open>t1\<close> in which
  the copy is filled but still the kernel's own.
\<close>

lemma replace_mapping:
  assumes inv: "cow_inv t1 ys R" and x: "x \<in> uslots R" "bit (ents (mem t1) x) 0"
    and p: "p = PTE2PA (ents (mem t1) x)" "get_kmem_ref p t1 \<noteq> 1"
    and y: "kown t1 R y" "get_kmem_ref y t1 = 1"
    and st: "vm_step t1 ys R t2 zs nw ((ents (mem t1))(x := e))"
    and e: "bit e 0" "PTE2PA e = y" "PTE_FLAGS e \<noteq> PTE_V"
  obtains t3 where "kfree p t2 = Ok t3" "cow_inv t3 zs R" "cow_rel_but y t1 R t3"
    "\<And>z. z \<in> R \<times> {..<VPAGES} \<Longrightarrow> ents (mem t3) z = ((ents (mem t1))(x := e)) z"
    "\<And>q. q = y \<or> umaps t1 R q \<noteq> {} \<Longrightarrow> agree (mem t1) (mem t3) (pgno q)"
    "umaps t3 R y = {x}" "\<And>q. umaps t1 R q \<noteq> {} \<Longrightarrow> umaps t3 R q \<noteq> {}"
proof -
  let ?L = "ents (mem t1)" and ?D = "uslots R"
  note I = cow_invD [OF inv] and S = vm_stepD [OF st] and U = upage_facts [OF inv]
  note A = allocsD [OF S(3)]
  have notnew: "q \<notin> set nw" if "get_kmem_ref q t1 \<noteq> 0" for q using that free_page_facts [OF I(1), of q] S(1) by auto
  have r12: "get_kmem_ref q t2 = get_kmem_ref q t1" if "kpage t1 q" "get_kmem_ref q t1 \<noteq> 0" for q
    using A(7) [OF that(1)] notnew [OF that(2)] by simp
  have px: "x \<in> umaps t1 R p" using umapsI [OF x] p(1) by simp
  then have mp: "umaps t1 R p \<noteq> {}" by blast
  note P = U [OF mp]
  have yk: "kpage t1 y" "y \<notin> tables (mem t1) R" "umaps t1 R y = {}" using y(1) by (auto simp: kown_def)
  have ny: "p \<noteq> y" using mp yk(3) by auto
  have p2: "kpage t2 p" "get_kmem_ref p t2 = get_kmem_ref p t1" "p \<notin> tables (mem t2) R"
    using P r12 [of p] A(5) S(4) notnew by auto
  have nz: "get_kmem_ref p t2 \<noteq> 0" using P(2) p2(2) by simp
  obtain t3 where t: "kfree p t2 = Ok t3" "vm_inv t3 (if get_kmem_ref p t2 = 1 then p # zs else zs) R"
      "tables (mem t3) R = tables (mem t2) R"
      "\<And>pt k. pt \<in> R \<Longrightarrow> pt_node (mem t3) 2 pt k = pt_node (mem t2) 2 pt k" "\<And>z. fst z \<in> R \<Longrightarrow> ents (mem t3) z = ents (mem t2) z"
      "get_kmem_ref p t3 = get_kmem_ref p t2 - 1"
      "\<And>q. kpage t2 q \<Longrightarrow> q \<noteq> p \<Longrightarrow> get_kmem_ref q t3 = get_kmem_ref q t2"
      "\<And>k. k \<noteq> pgno p \<or> get_kmem_ref p t2 \<noteq> 1 \<Longrightarrow> agree (mem t2) (mem t3) k"
      "lock_ctx t2 t3" "kend t3 = kend t2" "kmem.more t3 = kmem.more t2"
    by (rule kfree_data [OF S(2) p2(1) nz p2(3)]) (rule that; assumption)
  have kp: "kpage t3 = kpage t1" using t(10) A(3) by (intro ext kpage_cong) simp
  have e3: "ents (mem t3) z = (?L(x := e)) z" if "z \<in> R \<times> {..<VPAGES}" for z
    using t(5) [of z] S(6) [OF that] that by auto
  have r3: "get_kmem_ref q t3 = (if q = p then get_kmem_ref q t1 - 1 else get_kmem_ref q t1)"
    if "kpage t1 q" "get_kmem_ref q t1 \<noteq> 0" for q
    using t(6) t(7) [of q] r12 [OF that] p2(2) that A(5) by simp
  let ?r = "\<lambda>q. if q = p then get_kmem_ref p t1 - 1 else get_kmem_ref q t1"
  have d: "refs_ok ?D (?L(x := 0)) ?r"
    using p(1) by (intro refs_ok_drop [OF I(2,3) x]) auto
  have "refs_ok ?D (?L(x := 0, x := e)) (\<lambda>q. get_kmem_ref q t3)"
  proof (rule refs_ok_map [OF d x(1)])
    show "maps ?D (?L(x := 0)) (PTE2PA e) = {}"
      using yk(3) e(2) maps_upd [OF x(1), of ?L 0 y] by (simp add: umaps_def)
    show "get_kmem_ref (PTE2PA e) t3 = 1" using r3 [of y] y yk(1) ny e(2) by auto
    show "get_kmem_ref q t3 = ?r q" if "maps ?D (?L(x := 0)) q \<noteq> {}" for q
    proof -
      have "umaps t1 R q \<noteq> {}" using that maps_upd [OF x(1), of ?L 0 q] by (auto simp: umaps_def)
      then show ?thesis using r3 [of q] U(1,2) by simp
    qed
  qed simp
  then have "refs_ok ?D (ents (mem t3)) (\<lambda>q. get_kmem_ref q t3)"
    by (rule refs_ok_cong) (use e3 uslots_sub in auto)
  moreover have "kpage t3 (PTE2PA (ents (mem t3) z)) \<and> PTE2PA (ents (mem t3) z) \<notin> tables (mem t3) R \<and>
      PTE_FLAGS (ents (mem t3) z) \<noteq> PTE_V" if "z \<in> ?D" "bit (ents (mem t3) z) 0" for z
    using that e3 [OF uslots_sub [OF that(1)]] I(4-7) [of z] e yk y(2) notnew S(4) t(3) unfolding kp
    by (cases "z = x") auto
  ultimately have cow: "cow_inv t3 zs R" unfolding cow_inv_def using t(2) p(2) p2(2) by auto
  have um: "umaps t3 R q = maps ?D (?L(x := e)) q" for q using e3 by (rule umaps_eq)
  have umq: "umaps t3 R q = (if q = y then {x} else umaps t1 R q - {x})" for q
    unfolding um maps_upd [OF x(1)] using e yk(3) by (auto simp: umaps_def)
  have agr: "agree (mem t1) (mem t3) (pgno q) \<and> q \<notin> tables (mem t3) R"
    if "kpage t1 q" "get_kmem_ref q t1 \<noteq> 0" "q \<notin> tables (mem t1) R" for q
  proof -
    have pt: "q \<notin> tables (mem t2) R" using that(3) S(4) notnew [OF that(2)] by simp
    then have "pgno q \<notin> pgno ` tables (mem t2) R"
      using that(1) tables_owned [OF S(2)] by (auto simp: kpage_def aligned_pgno_eq)
    then have "agree (mem t1) (mem t2) (pgno q)" by (rule S(5))
    then show ?thesis using t(8) [of "pgno q"] p(2) p2(2) pt t(3) by (auto intro: agree_trans)
  qed
  have "unat (get_kmem_ref p t1) = card (umaps t1 R p)" using refs_okD(1) [OF I(2) x] p(1) by (simp add: umaps_def)
  then have "card (umaps t1 R p) \<noteq> 1" using p(2) by (auto simp: word_unat_eq_iff)
  then have "umaps t1 R p \<noteq> {x}" by auto
  then have "umaps t3 R q \<noteq> {}" if "umaps t1 R q \<noteq> {}" for q
    using that px umq [of q] yk(3) x p(1) by (cases "x \<in> umaps t1 R q") (auto simp: umaps_def maps_def)
  moreover have "cow_rel_but y t1 R t3"
    unfolding cow_rel_but_def using lock_ctx_trans [OF A(2) t(9)] t(10,11) A(3,4) agr r3 umq kp mp
    by (auto simp: kown_def)
  moreover have "agree (mem t1) (mem t3) (pgno q)" if "q = y \<or> umaps t1 R q \<noteq> {}" for q
    using that agr [of q] U [of q] yk y(2) by auto
  moreover have "umaps t3 R y = {x}" using umq by simp
  ultimately show ?thesis using that [OF t(1) cow] e3 by metis
qed

lemma kpage_end: "kpage s p \<Longrightarrow> unat p + 4096 < 2 ^ 64"
  by (simp add: kpage_def word_less_nat_alt riscv_consts)

lemma ref_card: "cow_inv s xs R \<Longrightarrow> umaps s R p \<noteq> {} \<Longrightarrow> unat (get_kmem_ref p s) = card (umaps s R p)"
  using refs_okD(1) [OF cow_invD(2)] by (fastforce simp: umaps_def maps_def)

lemma own_copy:
  fixes a b :: 'b
  assumes inv: "cow_inv s xs R" and x: "(pt, k) \<in> uslots R" "bit (ents (mem s) (pt, k)) 0"
    and n: "pt_node (mem s) 2 pt k = Some n" and va: "aligned va" "va < MAXVA" "pgno va = k"
    and p: "p = PTE2PA (ents (mem s) (pt, k))" "get_kmem_ref p s \<noteq> 1" and fl: "fl = F (ents (mem s) (pt, k))"
    and e: "\<And>y. aligned y \<Longrightarrow> bit (PA2PTE y OR fl OR PTE_V) 0 \<and> PTE2PA (PA2PTE y OR fl OR PTE_V) = y \<and>
      PTE_FLAGS (PA2PTE y OR fl OR PTE_V) \<noteq> PTE_V"
  defines "body \<equiv> bind_res (kalloc s) (\<lambda>(pg, s). if pg = 0 then Ok (a, s)
     else let s = s\<lparr>mem := memmove (mem s) pg p (unat PGSIZE)\<rparr>; flag = F (load64 (mem s) (slot_of n k))
       in bind_res (mappages pt va PGSIZE pg flag s) (\<lambda>(r, s).
         if r \<noteq> 0 then bind_res (kfree pg s) (\<lambda>s. Ok (a, s)) else bind_res (kfree p s) (\<lambda>s. Ok (b, s))))"
  obtains (none) "xs = []" "body = Ok (a, masked_once s)" "cow_post s xs R (masked_once s) xs (ents (mem s))"
  | (ok) y t ys where "body = Ok (b, t)" "cow_post s xs R t ys ((ents (mem s))((pt, k) := PA2PTE y OR fl OR PTE_V))"
      "aligned y" "umaps t R y = {(pt, k)}" "\<And>off. off < 4096 \<Longrightarrow> mem t (y + of_nat off) = mem s (p + of_nat off)"
  using inv
proof (cases rule: kalloc_cow)
  case none
  then show ?thesis using that(1) by (simp add: body_def)
next
  case (page y ys t0)
  note C = cow_postD [OF page(7)]
  let ?x = "(pt, k)" and ?e = "PA2PTE y OR fl OR PTE_V" and ?t1 = "t0\<lparr>mem := memmove (mem t0) y p 4096\<rparr>"
  have ptR: "pt \<in> R" using x by (auto simp: uslots_def)
  have px: "?x \<in> umaps s R p" using umapsI [OF x] p(1) by simp
  note U = upage_facts [OF inv, of p]
  have um0: "umaps t0 R q = umaps s R q" for q using umaps_eq [OF C(2)] by (simp add: umaps_def)
  have al: "aligned y" "aligned p" "kpage t0 p" and ky: "kpage t0 y"
    using page(5) U px um0 upage_facts [OF C(1), of p] by (auto simp: kown_def kpage_def)
  note cp = copy_page [OF al(1) kpage_end [OF ky] kpage_end [OF al(3)], where m = "mem t0"]
  have agr: "\<And>k. k \<noteq> pgno y \<Longrightarrow> agree (mem t0) (mem ?t1) k" using cp(1) by simp
  note W = write_kown [OF C(1) page(5), of "mem ?t1", OF agr, simplified]
  have e1: "ents (mem ?t1) z = ents (mem s) z" if "z \<in> R \<times> {..<VPAGES}" for z
    using W(2) [of z] C(2) [OF that] that by auto
  have ex: "ents (mem ?t1) ?x = ents (mem s) ?x" by (rule e1 [OF uslots_sub [OF x(1)]])
  have n1: "pt_node (mem ?t1) 2 pt (pgno va) = Some n" using W(8) [OF ptR] page(9) [OF ptR] n va(3) by simp
  then have "load64 (mem ?t1) (slot_of n k) = ents (mem s) ?x"
    using node_slot(2) [OF cow_invD(1) [OF W(1)] ptR, of k n] ex va(3) by simp
  then have body: "body = bind_res (mappages pt va PGSIZE y fl ?t1) (\<lambda>(r, s).
      if r \<noteq> 0 then bind_res (kfree y s) (\<lambda>s. Ok (a, s)) else bind_res (kfree p s) (\<lambda>s. Ok (b, s)))"
    unfolding body_def using page(2,3) fl by (simp add: Let_def PGSIZE_def)
  obtain t2 zs nw where m: "mappages pt va PGSIZE y fl ?t1 = Ok (0, t2)"
      "vm_step ?t1 ys R t2 zs nw ((ents (mem ?t1))(?x := ?e))"
    using mappages_one [OF cow_invD(1) [OF W(1)] ptR va(1,2), of y fl] n1 va(3) by (metis option.distinct(1))
  have r0: "get_kmem_ref p t0 \<noteq> 1"
  proof -
    have "umaps s R p \<noteq> {}" using px by blast
    then have "get_kmem_ref p t0 = get_kmem_ref p s"
      using ref_card [OF inv, of p] ref_card [OF C(1), of p] um0 [of p] by (simp add: word_unat_eq_iff)
    then show ?thesis using p(2) by simp
  qed
  have h: "bit (ents (mem ?t1) ?x) 0" "p = PTE2PA (ents (mem ?t1) ?x)" "get_kmem_ref p ?t1 \<noteq> 1"
    "kown ?t1 R y" "get_kmem_ref y ?t1 = 1" "bit ?e 0" "PTE2PA ?e = y" "PTE_FLAGS ?e \<noteq> PTE_V"
    using ex x(2) p(1) e [OF al(1)] W(7) page(5,6) r0 by simp_all
  obtain t3 where t: "kfree p t2 = Ok t3" "cow_inv t3 zs R" "cow_rel_but y ?t1 R t3"
      "\<And>z. z \<in> R \<times> {..<VPAGES} \<Longrightarrow> ents (mem t3) z = ((ents (mem ?t1))(?x := ?e)) z"
      "\<And>q. q = y \<or> umaps ?t1 R q \<noteq> {} \<Longrightarrow> agree (mem ?t1) (mem t3) (pgno q)"
      "umaps t3 R y = {?x}" "\<And>q. umaps ?t1 R q \<noteq> {} \<Longrightarrow> umaps t3 R q \<noteq> {}"
    by (rule replace_mapping [OF W(1) x(1) h(1-5) m(2) h(6-8)]) (rule that; assumption)
  have um1: "umaps ?t1 R q = umaps s R q" for q using W(6) um0 by simp
  have ny: "umaps s R y = {}" using um0 [of y] page(5) by (simp add: kown_def)
  have "cow_rel s R t3"
    by (rule cow_rel_strengthen [OF cow_rel_but_trans [OF cow_rel_but_trans [OF cow_rel_weaken [OF C(3)] W(4)] t(3)] page(4)])
  moreover have "ukeeps s R ?t1" using ukeeps_trans [OF C(4) W(5)] um0 by simp
  then have "ukeeps s R t3" using t(5) by (auto intro!: ukeepsI simp: um1 ukeeps_def intro: agree_trans)
  ultimately have "cow_post s xs R t3 zs ((ents (mem s))(?x := ?e))"
    unfolding cow_post_def using t(2,4,7) e1 um1 by auto
  moreover have "mem t3 (y + of_nat off) = mem s (p + of_nat off)" if "off < 4096" for off
  proof -
    have "mem t3 (y + of_nat off) = mem ?t1 (y + of_nat off)"
      using t(5) [of y] pgno_page_offset [OF al(1) that] by (simp add: agree_def)
    moreover have "agree (mem s) (mem t0) (pgno p)" using C(4) px um0 [of p] by (auto simp: ukeeps_def)
    ultimately show ?thesis using cp(2) [OF that] pgno_page_offset [OF al(2) that] by (simp add: agree_def)
  qed
  ultimately show ?thesis using that(2) body m(1) t(1,6) al(1) by simp
qed

lemma UPAGES_MAXVA: "pgno va < UPAGES \<Longrightarrow> va < MAXVA"
  by (simp add: less_MAXVA pgno_def div_less_iff_less_mult)

section \<open>Breaking the sharing of a page\<close>

text \<open>
  The entry \<open>(pt, k)\<close> of the table now maps a page nobody else maps, with the bytes the old one had.
  The flags are those of the old entry, except that exactly one of \<open>PTE_W\<close> and \<open>PTE_RSW\<close> is set.
\<close>

definition own_page :: "memory \<Rightarrow> u64 set \<Rightarrow> 'a kmem_scheme \<Rightarrow> u64 \<Rightarrow> nat \<Rightarrow> bool \<Rightarrow> (u64 \<times> nat \<Rightarrow> u64) \<Rightarrow> bool" where
  "own_page m R t pt k w L \<longleftrightarrow> L = (ents m)((pt, k) := L (pt, k)) \<and> umaps t R (PTE2PA (L (pt, k))) = {(pt, k)} \<and>
     (\<forall>off < 4096. mem t (PTE2PA (L (pt, k)) + of_nat off) = m (PTE2PA (ents m (pt, k)) + of_nat off)) \<and>
     (\<forall>i < 10. bit (L (pt, k)) i = (if i = 2 then w else if i = 8 then \<not> w else bit (ents m (pt, k)) i))"

lemma own_page_lock: "own_page m R t pt k w L \<Longrightarrow> own_page m R (t\<lparr>cpus := c, locks := l\<rparr>) pt k w L"
  using kown_cong(2) [of "t\<lparr>cpus := c, locks := l\<rparr>" t] by (simp add: own_page_def)

text \<open>
  What \<open>usertrap\<close> and \<open>copyout\<close> have in common under the reference lock: \<open>G\<close> rewrites the entry of
  a page that is not shared, \<open>F\<close> computes the flags of the copy, \<open>a\<close> and \<open>b\<close> report failure and success.
\<close>

definition break_body :: "u64 \<Rightarrow> u64 \<Rightarrow> u64 \<Rightarrow> u64 \<Rightarrow> (u64 \<Rightarrow> u64) \<Rightarrow> (u64 \<Rightarrow> u64) \<Rightarrow> 'b \<Rightarrow> 'b \<Rightarrow>
    'a kmem_scheme \<Rightarrow> ('b \<times> 'a kmem_scheme) res" where
  "break_body pt va p pte G F a b s =
     (if get_kmem_ref p s = 1 then Ok (b, s\<lparr>mem := store64 (mem s) pte (G (load64 (mem s) pte))\<rparr>)
      else bind_res (kalloc s) (\<lambda>(pg, s). if pg = 0 then Ok (a, s)
        else let s = s\<lparr>mem := memmove (mem s) pg p (unat PGSIZE)\<rparr>; flag = F (load64 (mem s) pte)
          in bind_res (mappages pt va PGSIZE pg flag s) (\<lambda>(r, s).
            if r \<noteq> 0 then bind_res (kfree pg s) (\<lambda>s. Ok (a, s)) else bind_res (kfree p s) (\<lambda>s. Ok (b, s)))))"

lemma break_share:
  fixes a b :: 'b and s :: "'a kmem_scheme"
  assumes inv: "cow_inv s xs R" and x: "(pt, k) \<in> uslots R" "bit (ents (mem s) (pt, k)) 0"
    and n: "pt_node (mem s) 2 pt k = Some n" and va: "aligned va" "va < MAXVA" "pgno va = k"
    and p: "p = PTE2PA (ents (mem s) (pt, k))"
    and G: "\<And>e i. bit (G e :: u64) i \<longleftrightarrow> i = 2 \<or> i \<noteq> 8 \<and> bit e i"
    and F: "\<And>e. flagbits (F e)" "\<And>e i. i < 10 \<Longrightarrow> bit (F e) i = (if i = 2 then w else if i = 8 then \<not> w else bit e i)"
  shows "\<exists>r t ys L. break_body pt va p (slot_of n k) G F a b s = Ok (r, t)
     \<and> cow_post s xs R t ys L \<and> (r = a \<and> xs = [] \<and> ys = [] \<and> L = ents (mem s)
       \<or> r = b \<and> own_page (mem s) R t pt k (get_kmem_ref p s = 1 \<or> w) L)"
proof (cases "get_kmem_ref p s = 1")
  case True
  let ?e = "ents (mem s) (pt, k)" and ?x = "(pt, k)"
  have ld: "load64 (mem s) (slot_of n k) = ?e"
    using node_slot(2) [OF cow_invD(1) [OF inv] _ n] x(1) by (auto simp: uslots_def)
  have pa: "PTE2PA (G ?e) = PTE2PA ?e" by (rule PTE2PA_flags_eq) (auto simp: G)
  have P: "cow_post s xs R (s\<lparr>mem := store64 (mem s) (slot_of n k) (G ?e)\<rparr>) xs ((ents (mem s))(?x := G ?e))"
    (is "cow_post s xs R ?t xs ?L")
    by (rule flag_step [OF inv x(1) n x(2)]) (use G x(2) pa leaf_bit [of "G ?e" 2] True p in auto)
  note C = cow_postD [OF P]
  have "umaps s R p \<noteq> {}" using umapsI [OF x] p by auto
  then have "agree (mem s) (mem ?t) (pgno p)" using C(4,5) by (simp add: ukeeps_def)
  moreover have "umaps ?t R p = {?x}"
  proof -
    have in_t: "?x \<in> umaps ?t R p" using umapsI [OF x(1), of ?t] C(2) [OF uslots_sub [OF x(1)]] pa p x(2) G by simp
    have "bit (ents (mem ?t) ?x) 2" "bit (ents (mem ?t) ?x) 0" "PTE2PA (ents (mem ?t) ?x) = p"
      using C(2) [OF uslots_sub [OF x(1)]] pa p G x(2) by simp_all
    then show ?thesis using refs_okD(2) [OF cow_invD(2) [OF C(1)] x(1)] by (simp add: umaps_def)
  qed
  ultimately have "own_page (mem s) R ?t pt k True ?L"
    unfolding own_page_def using pa p G pgno_page_offset [of p] by (auto simp: agree_def)
  then show ?thesis using True P ld by (auto simp: break_body_def)
next
  case False
  let ?fl = "F (ents (mem s) (pt, k))"
  have e: "bit (PA2PTE y OR ?fl OR PTE_V) 0 \<and> PTE2PA (PA2PTE y OR ?fl OR PTE_V) = y \<and>
      PTE_FLAGS (PA2PTE y OR ?fl OR PTE_V) \<noteq> PTE_V" if "aligned y" for y
    using PTE2PA_make [OF that F(1)] F(2) [of 2] F(2) [of 8] leaf_bit [of "PA2PTE y OR ?fl OR PTE_V" 2]
      leaf_bit [of "PA2PTE y OR ?fl OR PTE_V" 8] bit_make_flag [of 0 y ?fl] bit_make_flag [of 2 y ?fl]
      bit_make_flag [of 8 y ?fl] by auto
  have body: "(if get_kmem_ref p s = 1 then c else d) = d" for c d :: "('b \<times> 'a kmem_scheme) res"
    using False by simp
  show ?thesis
    unfolding break_body_def body
  proof (rule own_copy [OF inv x n va p False refl, where F = F and a = a and b = b], goal_cases)
    case (1 y)
    then show ?case by (rule e)
  next
    case 2
    show ?case unfolding 2(2) using 2(1,3) by (intro exI conjI disjI1) simp_all
  next
    case (3 y t ys)
    then have "own_page (mem s) R t pt k w ((ents (mem s))((pt, k) := PA2PTE y OR ?fl OR PTE_V))"
      using e [OF 3(3)] F(2) x(2) p by (auto simp: own_page_def bit_make_flag)
    then show ?case unfolding 3(1) using 3(2) False by (intro exI conjI disjI2) simp_all
  qed
qed

lemma bit_RSW_to_W: "bit (e AND NOT PTE_RSW OR PTE_W) i \<longleftrightarrow> i = 2 \<or> i \<noteq> 8 \<and> bit e i"
  "bit ((e OR PTE_W) AND NOT PTE_RSW) i \<longleftrightarrow> i = 2 \<or> i \<noteq> 8 \<and> bit e i"
  by (auto simp: bit_simps dest: bit_imp_le_length)

lemma bit_flags_private:
  assumes "i < 10"
  shows "bit ((PTE_FLAGS e OR PTE_W) AND NOT PTE_RSW) i = (if i = 2 then True else if i = 8 then \<not> True else bit e i)"
    "bit ((PTE_FLAGS e OR PTE_RSW) AND NOT PTE_W) i = (if i = 2 then False else if i = 8 then \<not> False else bit e i)"
  using assms by (auto simp: bit_simps bit_PTE_FLAGS)

lemma locked_break_share:
  fixes a b :: 'b and s :: "'a kmem_scheme"
  assumes inv: "cow_inv s xs R" "lock_free L_ref s" and x: "(pt, k) \<in> uslots R" "bit (ents (mem s) (pt, k)) 0"
    and n: "pt_node (mem s) 2 pt k = Some n" and va: "aligned va" "va < MAXVA" "pgno va = k"
    and p: "p = PTE2PA (ents (mem s) (pt, k))"
    and G: "\<And>e i. bit (G e :: u64) i \<longleftrightarrow> i = 2 \<or> i \<noteq> 8 \<and> bit e i"
    and F: "\<And>e. flagbits (F e)" "\<And>e i. i < 10 \<Longrightarrow> bit (F e) i = (if i = 2 then w else if i = 8 then \<not> w else bit e i)"
  shows "\<exists>r t ys L. bind_res (acquire_ref_lock s) (\<lambda>s. bind_res (break_body pt va p (slot_of n k) G F a b s)
        (\<lambda>(r, s). bind_res (release_ref_lock s) (\<lambda>s. Ok (r, s)))) = Ok (r, t) \<and> cow_post s xs R t ys L \<and>
      (r = a \<and> xs = [] \<and> ys = [] \<and> L = ents (mem s) \<or> r = b \<and> own_page (mem s) R t pt k (get_kmem_ref p s = 1 \<or> w) L)"
proof (rule under_ref_lock [OF inv, where f = "break_body pt va p (slot_of n k) G F a b" and
      P = "\<lambda>r t ys L. r = a \<and> xs = [] \<and> ys = [] \<and> L = ents (mem s) \<or>
        r = b \<and> own_page (mem s) R t pt k (get_kmem_ref p s = 1 \<or> w) L"], goal_cases)
  case (1 s1)
  have "get_kmem_ref p s1 = get_kmem_ref p s" by (rule kown_cong(3) [OF 1(1-3)])
  moreover have "bit (ents (mem s1) (pt, k)) 0" "pt_node (mem s1) 2 pt k = Some n" "p = PTE2PA (ents (mem s1) (pt, k))"
    using 1(1) x(2) n p by simp_all
  note break_share [OF 1(4) x(1) this(1,2) va this(3), where G = G and F = F and w = w and a = a and b = b, OF G F]
  ultimately show ?case unfolding 1(1) by simp
next
  case (2 r t ys L c l)
  then show ?case by (elim disjE) (simp_all add: own_page_lock)
qed

lemma write_fault_run:
  assumes inv: "cow_inv s xs R" "lock_free L_ref s" and pt: "pt \<in> R" "pgno stval < UPAGES" "PGROUNDDOWN stval \<le> sz"
    and e: "bit (ents (mem s) (pt, pgno stval)) 0" "bit (ents (mem s) (pt, pgno stval)) 4" "bit (ents (mem s) (pt, pgno stval)) 8"
  shows "\<exists>r t ys L. write_fault pt sz stval s = Ok (r, t) \<and> cow_post s xs R t ys L \<and>
    (r \<and> xs = [] \<and> ys = [] \<and> L = ents (mem s) \<or> \<not> r \<and> own_page (mem s) R t pt (pgno stval) True L)"
proof -
  let ?va = "PGROUNDDOWN stval" and ?k = "pgno stval"
  have va: "aligned ?va" "?va < MAXVA" "pgno ?va = ?k" using UPAGES_MAXVA [of ?va] pt(2) by simp_all
  have x: "(pt, ?k) \<in> uslots R" using pt by (simp add: uslots_def)
  obtain n where n: "pt_node (mem s) 2 pt ?k = Some n" "walk pt ?va False s = Ok (slot_of n ?k, s)"
      "slot_of n ?k \<noteq> 0" "load64 (mem s) (slot_of n ?k) = ents (mem s) (pt, ?k)"
    using walk_read [OF cow_invD(1) [OF inv(1)] pt(1) va(2), where alloc = False] e(1) va(3) by metis
  show ?thesis
    using locked_break_share [OF inv x e(1) n(1) va refl bit_RSW_to_W(1) _ bit_flags_private(1), of True False]
      n(2-4) e pt(3) by (simp add: write_fault_def break_body_def Let_def leD pte_flag_tests)
qed

lemma copyout_cow_run:
  assumes inv: "cow_inv s xs R" "lock_free L_ref s" and pt: "(pt, pgno va) \<in> uslots R" "aligned va"
    and n: "pt_node (mem s) 2 pt (pgno va) = Some n" and e: "bit (ents (mem s) (pt, pgno va)) 0"
    and p: "p = PTE2PA (ents (mem s) (pt, pgno va))"
  shows "\<exists>r t ys L. copyout_cow pt va (slot_of n (pgno va)) p s = Ok (r, t) \<and> cow_post s xs R t ys L \<and>
    (r = -1 \<and> xs = [] \<and> ys = [] \<and> L = ents (mem s) \<or> r = 0 \<and> own_page (mem s) R t pt (pgno va) (get_kmem_ref p s = 1) L)"
proof -
  have va: "va < MAXVA" using UPAGES_MAXVA [of va] pt(1) by (simp add: uslots_def)
  show ?thesis
    using locked_break_share [OF inv pt(1) e n pt(2) va refl p bit_RSW_to_W(2) _ bit_flags_private(2), of "-1" 0]
    by (simp add: copyout_cow_def break_body_def Let_def)
qed

end
