(* ===== verification/Cow_Copy.thy ===== *)
theory Cow_Copy
  imports Cow_Fault
begin

unbundle bit_operations_syntax

text \<open>
  What processes see, and the routines that copy between kernel and user memory. A process
  reads memory through its page table, so its view is the function from its mapped addresses
  to bytes. \<open>wrote\<close> describes a state in which the views of all processes are as before, except
  for one range of one process.
\<close>

section \<open>Views\<close>

definition same_view :: "'a kmem_scheme \<Rightarrow> u64 set \<Rightarrow> 'b kmem_scheme \<Rightarrow> bool" where
  "same_view s R t \<longleftrightarrow> (\<forall>pt \<in> R. \<forall>va. pgno va < UPAGES \<and> bit (ents (mem s) (pt, pgno va)) 0 \<longrightarrow>
     bit (ents (mem t) (pt, pgno va)) 0 \<and> user_byte (mem t) pt va = user_byte (mem s) pt va)"

lemma cow_post_view:
  assumes "cow_inv s xs R" "cow_post s xs R t ys L"
    and L: "\<And>x. x \<in> uslots R \<Longrightarrow> bit (ents (mem s) x) 0 \<Longrightarrow>
      bit (L x) 0 \<and> PTE2PA (L x) = PTE2PA (ents (mem s) x)"
  shows "same_view s R t"
  unfolding same_view_def
proof (intro ballI allI impI, elim conjE)
  fix pt va assume v: "pt \<in> R" "pgno va < UPAGES" "bit (ents (mem s) (pt, pgno va)) 0"
  have x: "(pt, pgno va) \<in> uslots R" using v by (simp add: uslots_def)
  then show "bit (ents (mem t) (pt, pgno va)) 0 \<and> user_byte (mem t) pt va = user_byte (mem s) pt va"
    using L [OF x v(3)] cow_postD(2) [OF assms(2) uslots_sub [OF x]] cow_post_byte [OF assms(1,2) v(1,1,2,3)] by simp
qed

lemma own_page_view:
  assumes inv: "cow_inv s xs R" and post: "cow_post s xs R t ys L" and x: "(pt, k) \<in> uslots R"
    and v: "bit (ents (mem s) (pt, k)) 0" and own: "own_page (mem s) R t pt k w L"
  shows "same_view s R t"
  unfolding same_view_def
proof (intro ballI allI impI, elim conjE)
  fix pt' va assume v': "pt' \<in> R" "pgno va < UPAGES" "bit (ents (mem s) (pt', pgno va)) 0"
  let ?y = "(pt', pgno va)"
  have y: "?y \<in> uslots R" using v' by (simp add: uslots_def)
  have e: "ents (mem t) ?y = L ?y" by (rule cow_postD(2) [OF post uslots_sub [OF y]])
  show "bit (ents (mem t) ?y) 0 \<and> user_byte (mem t) pt' va = user_byte (mem s) pt' va"
  proof (cases "?y = (pt, k)")
    case True
    then show ?thesis using own e v' by (auto simp: own_page_def user_byte_def user_addr_def)
  next
    case False
    then have "L ?y = ents (mem s) ?y" using own unfolding own_page_def by (metis fun_upd_other)
    then show ?thesis using e cow_post_byte [OF inv post v'(1,1,2,3)] v'(3) by simp
  qed
qed

text \<open>\<open>n\<close> bytes at \<open>a\<close> have been replaced through the table \<open>pt\<close>; everything else looks the same.\<close>

definition wrote :: "'a kmem_scheme \<Rightarrow> u64 set \<Rightarrow> 'b kmem_scheme \<Rightarrow> u64 \<Rightarrow> u64 \<Rightarrow> u8 list \<Rightarrow> bool" where
  "wrote s R t pt a bs \<longleftrightarrow> (\<forall>pt' \<in> R. \<forall>va. pgno va < UPAGES \<and> bit (ents (mem s) (pt', pgno va)) 0 \<longrightarrow>
     bit (ents (mem t) (pt', pgno va)) 0 \<and> user_byte (mem t) pt' va =
       (if pt' = pt \<and> unat a \<le> unat va \<and> unat va < unat a + length bs then bs ! (unat va - unat a)
        else user_byte (mem s) pt' va))"

lemma wrote_Nil: "wrote s R t pt a [] = same_view s R t"
  by (auto simp: wrote_def same_view_def)

lemma wrote_append:
  assumes "wrote s R t pt a bs" "wrote t R u pt b cs" "cs \<noteq> [] \<Longrightarrow> unat b = unat a + length bs"
  shows "wrote s R u pt a (bs @ cs)"
  unfolding wrote_def
proof (intro ballI allI impI, elim conjE)
  fix pt' va assume v: "pt' \<in> R" "pgno va < UPAGES" "bit (ents (mem s) (pt', pgno va)) 0"
  show "bit (ents (mem u) (pt', pgno va)) 0 \<and> user_byte (mem u) pt' va =
       (if pt' = pt \<and> unat a \<le> unat va \<and> unat va < unat a + length (bs @ cs) then (bs @ cs) ! (unat va - unat a)
        else user_byte (mem s) pt' va)"
    using assms v unfolding wrote_def by (cases "cs = []") (auto simp: nth_append)
qed

lemma same_wrote: "same_view s R t \<Longrightarrow> wrote t R u pt a bs \<Longrightarrow> wrote s R u pt a bs"
  using wrote_append [of s R t pt a "[]" u a bs] by (simp add: wrote_Nil)

section \<open>Writing to a private page\<close>

lemma user_addr_split: "user_addr m pt va = PTE2PA (ents m (pt, pgno va)) + (va - PGROUNDDOWN va)"
proof -
  have "va - PGROUNDDOWN va = of_nat (unat va mod 4096)" using unat_page_rest [of va] by (metis of_nat_unat ucast_id)
  then show ?thesis by (simp add: user_addr_def)
qed

lemma unat_user_addr: "unat (user_addr m pt va) = unat (PTE2PA (ents m (pt, pgno va))) + unat va mod 4096"
  unfolding user_addr_def by (rule unat_page_offset) simp_all

lemma same_page_offset:
  assumes "pgno va = pgno a" "unat a mod 4096 + n \<le> 4096"
  shows "unat (user_addr m pt va - user_addr m pt a) < n \<longleftrightarrow> unat a \<le> unat va \<and> unat va < unat a + n"
    "unat a \<le> unat va \<Longrightarrow> unat (user_addr m pt va - user_addr m pt a) = unat va - unat a"
proof -
  define i j where "i = unat va mod 4096" and "j = unat a mod 4096"
  have d: "unat va = pgno a * 4096 + i" "unat a = pgno a * 4096 + j" "i < 4096"
    using assms(1) div_mult_mod_eq [of "unat va" 4096] by (simp_all add: pgno_def i_def j_def)
  have u: "unat (user_addr m pt va) = unat (PTE2PA (ents m (pt, pgno a))) + i"
    "unat (user_addr m pt a) = unat (PTE2PA (ents m (pt, pgno a))) + j"
    using unat_user_addr [of m pt va] unat_user_addr [of m pt a] assms(1) by (simp_all add: i_def j_def)
  have "unat (PTE2PA (ents m (pt, pgno a))) + 4096 \<le> 18446744073709551616" by (rule aligned_page_end) simp
  then have eq: "unat (user_addr m pt va - user_addr m pt a) = (if j \<le> i then i - j else i + 18446744073709551616 - j)"
    using unat_sub_if' [of "user_addr m pt va" "user_addr m pt a"] u by simp
  show "unat (user_addr m pt va - user_addr m pt a) < n \<longleftrightarrow> unat a \<le> unat va \<and> unat va < unat a + n"
    "unat a \<le> unat va \<Longrightarrow> unat (user_addr m pt va - user_addr m pt a) = unat va - unat a"
    unfolding eq d using assms(2) d(3) j_def by auto
qed

text \<open>The bytes at \<open>a\<close>, all on one page that only \<open>pt\<close> maps, are replaced.\<close>

lemma private_write:
  assumes inv: "cow_inv s xs R" and x: "(pt, pgno a) \<in> uslots R" "bit (ents (mem s) (pt, pgno a)) 0"
    and p: "p = PTE2PA (ents (mem s) (pt, pgno a))" "umaps s R p = {(pt, pgno a)}"
    and bs: "unat a mod 4096 + length bs \<le> 4096"
    and t: "t = s\<lparr>mem := write_bytes (mem s) (user_addr (mem s) pt a) bs\<rparr>"
  shows "cow_inv t xs R" "\<And>y. fst y \<in> R \<Longrightarrow> ents (mem t) y = ents (mem s) y" "wrote s R t pt a bs" "cow_rel s R t"
proof -
  let ?m = "write_bytes (mem s) (user_addr (mem s) pt a) bs" and ?x = "(pt, pgno a)"
  have ne: "umaps s R p \<noteq> {}" using p(2) by simp
  note U = upage_facts [OF inv ne]
  have agr: "agree (mem s) ?m k" if "k \<noteq> pgno p" for k
    unfolding user_addr_def p(1) [symmetric] using bs that p(1) by (intro agree_write_bytes) simp_all
  note W = write_page [OF inv U(1-3) agr]
  show "cow_inv t xs R" "\<And>y. fst y \<in> R \<Longrightarrow> ents (mem t) y = ents (mem s) y" using W(1,2) t by simp_all
  show "cow_rel s R t" unfolding cow_rel_def t using W(4,6) ne by (auto simp: kown_def kpage_def)
  show "wrote s R t pt a bs"
    unfolding wrote_def
  proof (intro ballI allI impI, elim conjE)
    fix pt' va assume v: "pt' \<in> R" "pgno va < UPAGES" "bit (ents (mem s) (pt', pgno va)) 0"
    let ?y = "(pt', pgno va)" and ?in = "unat a \<le> unat va \<and> unat va < unat a + length bs"
    have e: "ents (mem t) ?y = ents (mem s) ?y" using W(2) [of ?y] v(1) t by simp
    have a: "user_addr (mem t) pt' va = user_addr (mem s) pt' va" using e by (simp add: user_addr_def)
    have d: "unat va = pgno va * 4096 + unat va mod 4096" "unat a = pgno a * 4096 + unat a mod 4096"
      by (simp_all add: pgno_def)
    have "user_byte (mem t) pt' va = (if pt' = pt \<and> ?in then bs ! (unat va - unat a) else user_byte (mem s) pt' va)"
    proof (cases "?y = ?x")
      case True
      then have k: "pgno va = pgno a" by simp
      show ?thesis
        using True same_page_offset [OF k bs, of "mem s" pt] unfolding user_byte_def a by (auto simp: t write_bytes_def)
    next
      case False
      have y: "?y \<in> uslots R" using v by (simp add: uslots_def)
      have "PTE2PA (ents (mem s) ?y) \<noteq> p" using umapsI [OF y v(3)] p(2) False by auto
      then have "agree (mem s) ?m (pgno (user_addr (mem s) pt' va))"
        using W(4) [of "PTE2PA (ents (mem s) ?y)"] pgno_user_addr [of "mem s" pt' va] by simp
      moreover have "\<not> (pt' = pt \<and> ?in)"
      proof
        assume "pt' = pt \<and> ?in"
        then have "pgno va = pgno a" using d bs by linarith
        then show False using \<open>pt' = pt \<and> ?in\<close> False by simp
      qed
      ultimately show ?thesis unfolding user_byte_def a by (auto simp: t agree_def)
    qed
    then show "bit (ents (mem t) ?y) 0 \<and> user_byte (mem t) pt' va =
       (if pt' = pt \<and> ?in then bs ! (unat va - unat a) else user_byte (mem s) pt' va)" using e v(3) by simp
  qed
qed

section \<open>\<open>copyout\<close>\<close>

text \<open>The entries of pages a process may write to, at once or after a copy.\<close>

definition uwritable :: "u64 \<Rightarrow> bool" where
  "uwritable e \<longleftrightarrow> bit e 0 \<and> bit e 4 \<and> (bit e 2 \<or> bit e 8)"

definition keeps_writable :: "'a kmem_scheme \<Rightarrow> u64 set \<Rightarrow> 'a kmem_scheme \<Rightarrow> bool" where
  "keeps_writable s R t \<longleftrightarrow> (\<forall>y \<in> uslots R. uwritable (ents (mem s) y) \<longrightarrow> uwritable (ents (mem t) y))"

lemma own_page_writable:
  assumes "cow_post s xs R t ys L" "own_page (mem s) R t pt k w L" "(pt, k) \<in> uslots R"
  shows "keeps_writable s R t"
  unfolding keeps_writable_def
proof (intro ballI impI)
  fix y assume y: "y \<in> uslots R" "uwritable (ents (mem s) y)"
  have e: "ents (mem t) y = L y" by (rule cow_postD(2) [OF assms(1) uslots_sub [OF y(1)]])
  show "uwritable (ents (mem t) y)"
  proof (cases "y = (pt, k)")
    case True
    then show ?thesis using y(2) e assms(2) by (auto simp: own_page_def uwritable_def)
  next
    case False
    then have "L y = ents (mem s) y" using assms(2) unfolding own_page_def by (metis fun_upd_other)
    then show ?thesis using y(2) e by simp
  qed
qed

text \<open>The page that holds \<open>a\<close> is made private, if it is not.\<close>

lemma copyout_private:
  assumes inv: "cow_inv s xs R" "lock_free L_ref s" and x: "(pt, pgno a) \<in> uslots R"
    and w: "uwritable (ents (mem s) (pt, pgno a))" and n: "pt_node (mem s) 2 pt (pgno a) = Some n"
  defines "e \<equiv> ents (mem s) (pt, pgno a)"
  shows "\<exists>r t ys. (if \<not> bit e 2 \<and> bit e 8 then copyout_cow pt (PGROUNDDOWN a) (slot_of n (pgno a)) (PTE2PA e) s
      else Ok (0, s)) = Ok (r, t) \<and> cow_inv t ys R \<and> cow_rel s R t \<and> same_view s R t \<and> keeps_writable s R t \<and>
    (r = -1 \<and> ys = [] \<or>
     r = 0 \<and> umaps t R (PTE2PA (ents (mem t) (pt, pgno a))) = {(pt, pgno a)})"
proof (cases "\<not> bit e 2 \<and> bit e 8")
  case True
  have b0: "bit (ents (mem s) (pt, pgno a)) 0" using w by (simp add: uwritable_def)
  obtain r t ys L where c: "copyout_cow pt (PGROUNDDOWN a) (slot_of n (pgno a)) (PTE2PA e) s = Ok (r, t)"
      "cow_post s xs R t ys L" "r = -1 \<and> xs = [] \<and> ys = [] \<and> L = ents (mem s) \<or>
       r = 0 \<and> own_page (mem s) R t pt (pgno a) (get_kmem_ref (PTE2PA e) s = 1) L"
    using copyout_cow_run [OF inv, of pt "PGROUNDDOWN a" n "PTE2PA e"] x n b0 unfolding e_def by auto
  note C = cow_postD [OF c(2)]
  have ev: "ents (mem t) (pt, pgno a) = L (pt, pgno a)" by (rule C(2) [OF uslots_sub [OF x]])
  have "same_view s R t \<and> keeps_writable s R t"
    using c(3)
  proof
    assume "r = -1 \<and> xs = [] \<and> ys = [] \<and> L = ents (mem s)"
    then show ?thesis
      using cow_post_view [OF inv(1) c(2)] C(2) uslots_sub by (auto simp: keeps_writable_def)
  next
    assume "r = 0 \<and> own_page (mem s) R t pt (pgno a) (get_kmem_ref (PTE2PA e) s = 1) L"
    then show ?thesis using own_page_view [OF inv(1) c(2) x b0] own_page_writable [OF c(2) _ x] by blast
  qed
  then show ?thesis using True c C(1,3) ev by (auto simp: own_page_def)
next
  case False
  then have "bit e 2" "bit e 0" using w by (auto simp: uwritable_def e_def)
  then have "umaps s R (PTE2PA e) = {(pt, pgno a)}"
    using refs_okD(2) [OF cow_invD(2) [OF inv(1)] x] by (simp add: umaps_def e_def)
  then show ?thesis
    using False inv(1) cow_rel_refl by (auto simp: same_view_def keeps_writable_def e_def)
qed

lemma copyout_step:
  assumes inv: "cow_inv s xs R" "lock_free L_ref s" and x: "(pt, pgno a) \<in> uslots R"
    and w: "uwritable (ents (mem s) (pt, pgno a))" and src: "src \<noteq> []"
    and k: "k = (if 4096 - unat a mod 4096 > length src then length src else 4096 - unat a mod 4096)"
  shows "\<exists>t ys. cow_inv t ys R \<and> cow_rel s R t \<and> keeps_writable s R t \<and>
    (copyout pt a src s = Ok (-1, t) \<and> same_view s R t \<and> ys = [] \<or>
     copyout pt a src s = copyout pt (PGROUNDDOWN a + PGSIZE) (drop k src) t \<and> wrote s R t pt a (take k src))"
proof -
  let ?va = "PGROUNDDOWN a" and ?e = "ents (mem s) (pt, pgno a)"
  have ptR: "pt \<in> R" and va: "?va < MAXVA" using x UPAGES_MAXVA [of ?va] by (auto simp: uslots_def)
  obtain n where n: "pt_node (mem s) 2 pt (pgno a) = Some n" "walk pt ?va False s = Ok (slot_of n (pgno a), s)"
      "slot_of n (pgno a) \<noteq> 0" "load64 (mem s) (slot_of n (pgno a)) = ?e"
    using walk_read [OF cow_invD(1) [OF inv(1)] ptR va, where alloc = False] w by (auto simp: uwritable_def)
  obtain r t ys where p: "(if \<not> bit ?e 2 \<and> bit ?e 8 then copyout_cow pt ?va (slot_of n (pgno a)) (PTE2PA ?e) s
      else Ok (0, s)) = Ok (r, t)" "cow_inv t ys R" "cow_rel s R t" "same_view s R t" "keeps_writable s R t"
      "r = -1 \<and> ys = [] \<or> r = 0 \<and> umaps t R (PTE2PA (ents (mem t) (pt, pgno a))) = {(pt, pgno a)}"
    using copyout_private [OF inv x w n(1)] by blast
  let ?p = "PTE2PA (ents (mem t) (pt, pgno a))"
  let ?t = "t\<lparr>mem := write_bytes (mem t) (?p + (a - ?va)) (take k src)\<rparr>"
  have wt: "uwritable (ents (mem t) (pt, pgno a))" using p(5) w x by (simp add: keeps_writable_def)
  have run: "copyout pt a src s = (if r \<noteq> 0 then Ok (-1, t) else copyout pt (?va + PGSIZE) (drop k src) ?t)"
  proof -
    have "walkaddr pt ?va t = Ok ?p"
      using walkaddr_eq [OF cow_invD(1) [OF p(2)] ptR, of ?va] va wt by (simp add: uwritable_def)
    moreover have "?p \<noteq> 0"
      using cow_invD(4) [OF p(2) x] wt kpage_bounds(4) [of t ?p] vm_invD(3) [OF cow_invD(1) [OF p(2)]] by (auto simp: uwritable_def)
    ultimately show ?thesis
      using n p(1) w src va [folded not_le] chunk_pos(2) [of a] k
      by (simp add: copyout.simps [of pt a src s] Let_def pte_flag_tests uwritable_def cong: if_cong)
  qed
  show ?thesis
    using p(6)
  proof
    assume "r = -1 \<and> ys = []"
    then show ?thesis using run p(2-5) by (intro exI [of _ t] exI [of _ ys]) simp
  next
    assume r: "r = 0 \<and> umaps t R ?p = {(pt, pgno a)}"
    have "unat a mod 4096 + length (take k src) \<le> 4096" using k by auto
    note W = private_write [OF p(2) x _ refl conjunct2 [OF r] this refl]
    have b: "bit (ents (mem t) (pt, pgno a)) 0" using wt by (simp add: uwritable_def)
    have eq: "?t = t\<lparr>mem := write_bytes (mem t) (user_addr (mem t) pt a) (take k src)\<rparr>" by (simp add: user_addr_split)
    have "keeps_writable s R ?t" using p(5) W(2) [OF b] unfolding eq keeps_writable_def by (auto simp: uslots_def)
    then show ?thesis
      using run r W(1,3,4) [OF b] cow_rel_trans [OF p(3)] same_wrote [OF p(4)] unfolding eq by metis
  qed
qed

text \<open>The pages that hold the \<open>n\<close> bytes at \<open>a\<close>.\<close>

definition pages_of :: "u64 \<Rightarrow> nat \<Rightarrow> nat set" where
  "pages_of a n = {k. 0 < n \<and> pgno a \<le> k \<and> k * 4096 < unat a + n}"

lemma next_chunk:
  assumes "unat a + n \<le> 4096 * UPAGES" "0 < n"
  defines "k \<equiv> if 4096 - unat a mod 4096 > n then n else 4096 - unat a mod 4096"
  shows "k < n \<Longrightarrow> unat (PGROUNDDOWN a + PGSIZE) = unat a + k" "unat (PGROUNDDOWN a + PGSIZE) + (n - k) \<le> 4096 * UPAGES"
    "pages_of (PGROUNDDOWN a + PGSIZE) (n - k) \<subseteq> pages_of a n"
proof -
  define q r where "q = unat a div 4096" and "r = unat a mod 4096"
  have d: "unat a = 4096 * q + r" "r < 4096" by (simp_all add: q_def r_def)
  have k: "k = (if 4096 - r > n then n else 4096 - r)" by (simp add: k_def r_def)
  have "unat (PGROUNDDOWN a) < 2 ^ 38" using assms(1) by (simp add: unat_PGROUNDDOWN)
  then have b: "unat (PGROUNDDOWN a + PGSIZE) = 4096 * q + 4096"
    using unat_next_page [of "PGROUNDDOWN a"] by (simp add: unat_PGROUNDDOWN q_def)
  show "unat (PGROUNDDOWN a + PGSIZE) = unat a + k" if "k < n" using that d unfolding b k by (auto split: if_splits)
  have "q < 67108862" using assms(1,2) d by simp
  then show "unat (PGROUNDDOWN a + PGSIZE) + (n - k) \<le> 4096 * UPAGES" using assms(1) d unfolding b k by auto
  have "pgno (PGROUNDDOWN a + PGSIZE) = Suc q" "pgno a = q" by (simp_all add: pgno_def b q_def)
  then show "pages_of (PGROUNDDOWN a + PGSIZE) (n - k) \<subseteq> pages_of a n"
    using d unfolding pages_of_def b k by auto
qed

lemma pgno_in_pages: "0 < n \<Longrightarrow> pgno a \<in> pages_of a n"
proof -
  assume "0 < n"
  moreover have "pgno a * 4096 \<le> unat a" by (simp add: pgno_def)
  ultimately show ?thesis by (simp add: pages_of_def)
qed

lemma pages_of_bound: "unat a + n \<le> 4096 * UPAGES \<Longrightarrow> k \<in> pages_of a n \<Longrightarrow> k < UPAGES"
  by (simp add: pages_of_def)

lemma copyout_run:
  assumes "cow_inv s xs R" "lock_free L_ref s" "pt \<in> R" "unat a + length src \<le> 4096 * UPAGES"
    and "\<And>k. k \<in> pages_of a (length src) \<Longrightarrow> uwritable (ents (mem s) (pt, k))"
  shows "\<exists>r t ys n. copyout pt a src s = Ok (r, t) \<and> cow_inv t ys R \<and> cow_rel s R t \<and> keeps_writable s R t \<and>
    n \<le> length src \<and> wrote s R t pt a (take n src) \<and> (r = 0 \<and> n = length src \<or> r = -1 \<and> ys = [])"
  using assms
proof (induction "length src" arbitrary: a src s xs rule: less_induct)
  case less
  show ?case
  proof (cases "src = []")
    case True
    then have "copyout pt a src s = Ok (0, s)" by (simp add: copyout.simps [of pt a])
    then show ?thesis
      using less.prems(1) True cow_rel_refl
      by (intro exI [of _ 0] exI [of _ s] exI [of _ xs]) (auto simp: wrote_Nil same_view_def keeps_writable_def)
  next
    case False
    define k where k_def: "k = (if 4096 - unat a mod 4096 > length src then length src else 4096 - unat a mod 4096)"
    let ?b = "PGROUNDDOWN a + PGSIZE"
    have pa: "pgno a \<in> pages_of a (length src)" using False by (simp add: pgno_in_pages)
    have x: "(pt, pgno a) \<in> uslots R" using less.prems(3) pages_of_bound [OF less.prems(4) pa] by (simp add: uslots_def)
    have k: "0 < k" "k \<le> length src" using False by (auto simp: k_def)
    obtain t ys where t: "cow_inv t ys R" "cow_rel s R t" "keeps_writable s R t"
        "copyout pt a src s = Ok (-1, t) \<and> same_view s R t \<and> ys = [] \<or>
         copyout pt a src s = copyout pt ?b (drop k src) t \<and> wrote s R t pt a (take k src)"
      using copyout_step [OF less.prems(1,2) x less.prems(5) [OF pa] False k_def] by blast
    from t(4) show ?thesis
    proof
      assume "copyout pt a src s = Ok (-1, t) \<and> same_view s R t \<and> ys = []"
      then show ?thesis using t(1-3)
        by (intro exI [of _ "-1"] exI [of _ t] exI [of _ ys] exI [of _ 0]) (simp add: wrote_Nil)
    next
      assume c: "copyout pt a src s = copyout pt ?b (drop k src) t \<and> wrote s R t pt a (take k src)"
      have lf: "lock_free L_ref t" using t(2) less.prems(2) lock_ctx_free [of s t] by (simp add: cow_rel_def)
      have "0 < length src" using False by simp
      note nx = next_chunk [OF less.prems(4) this, folded k_def]
      have h: "length (drop k src) < length src" "unat ?b + length (drop k src) \<le> 4096 * UPAGES"
        using k nx(2) by auto
      have "uwritable (ents (mem t) (pt, j))" if j: "j \<in> pages_of ?b (length (drop k src))" for j
      proof -
        have "j \<in> pages_of a (length src)" using j nx(3) by auto
        then show ?thesis
          using less.prems(5) [of j] less.prems(3) t(3) pages_of_bound [OF less.prems(4), of j]
          unfolding keeps_writable_def by (auto simp: uslots_def)
      qed
      from less.hyps [OF h(1) t(1) lf less.prems(3) h(2) this]
      obtain r u zs n where u: "copyout pt ?b (drop k src) t = Ok (r, u)" "cow_inv u zs R" "cow_rel t R u" "keeps_writable t R u"
          "n \<le> length (drop k src)" "wrote t R u pt ?b (take n (drop k src))" "r = 0 \<and> n = length (drop k src) \<or> r = -1 \<and> zs = []"
        by blast
      have "wrote s R u pt a (take k src @ take n (drop k src))"
        using c u(5,6) nx(1) k(2) by (intro wrote_append [of s R t pt a _ u ?b]) auto
      then have "wrote s R u pt a (take (k + n) src)" by (simp add: take_add)
      moreover have "keeps_writable s R u" using t(3) u(4) by (simp add: keeps_writable_def)
      ultimately show ?thesis
        using c u(1,2,5,7) k(2) cow_rel_trans [OF t(2) u(3)]
        by (intro exI [of _ r] exI [of _ u] exI [of _ zs] exI [of _ "k + n"]) auto
    qed
  qed
qed

section \<open>\<open>copyin\<close> and \<open>copyinstr\<close>\<close>

definition user_bytes :: "memory \<Rightarrow> u64 \<Rightarrow> u64 \<Rightarrow> nat \<Rightarrow> u8 list" where
  "user_bytes m pt a n = map (\<lambda>i. user_byte m pt (a + of_nat i)) [0..<n]"

definition readable :: "memory \<Rightarrow> u64 \<Rightarrow> nat \<Rightarrow> bool" where
  "readable m pt k \<longleftrightarrow> bit (ents m (pt, k)) 0 \<and> bit (ents m (pt, k)) 4"

lemma user_bytes_add:
  assumes "unat b = unat a + n" "unat a + n + k < 2 ^ 64"
  shows "user_bytes m pt a (n + k) = user_bytes m pt a n @ user_bytes m pt b k"
proof -
  have "b = a + of_nat n" using assms by (simp add: word_unat_eq_iff unat_word_ariths unat_of_nat_u64)
  then have eq: "a + of_nat (n + i) = b + of_nat i" for i by simp
  have "user_bytes m pt a (n + k) ! i = (user_bytes m pt a n @ user_bytes m pt b k) ! i" if "i < n + k" for i
  proof (cases "i < n")
    case False
    then obtain j where "i = n + j" using le_Suc_ex not_le by blast
    then show ?thesis using that eq [of j] by (simp add: user_bytes_def nth_append del: of_nat_add)
  qed (use that in \<open>simp add: user_bytes_def nth_append\<close>)
  then show ?thesis by (intro nth_equalityI) (simp_all add: user_bytes_def)
qed

lemma same_page:
  assumes "unat a mod 4096 + k \<le> 4096" "i < k"
  shows "pgno (a + of_nat i) = pgno a" "unat (a + of_nat i) mod 4096 = unat a mod 4096 + i"
    "PGROUNDDOWN (a + of_nat i) = PGROUNDDOWN a"
proof -
  define q r where "q = unat a div 4096" and "r = unat a mod 4096"
  have d: "unat a = 4096 * q + r" by (simp add: q_def r_def)
  have "unat a + i < 2 ^ 64"
  proof -
    have "q < 4503599627370496" using unat_u64_less [of a] d by linarith
    then show ?thesis using d assms r_def by simp
  qed
  then have u: "unat (a + of_nat i) = 4096 * q + (r + i)" using unat_add_no_wrap [of a i] d by simp
  have "r + i < 4096" using assms by (simp add: r_def)
  then have "(4096 * q + (r + i)) div 4096 = q" "(4096 * q + (r + i)) mod 4096 = r + i" by simp_all
  then show "pgno (a + of_nat i) = pgno a" "unat (a + of_nat i) mod 4096 = unat a mod 4096 + i"
    unfolding pgno_def u by (simp_all add: q_def r_def)
  then show "PGROUNDDOWN (a + of_nat i) = PGROUNDDOWN a"
    by (simp add: word_unat_eq_iff unat_PGROUNDDOWN flip: pgno_def)
qed

lemma user_addr_same_page:
  "unat a mod 4096 + k \<le> 4096 \<Longrightarrow> i < k \<Longrightarrow> user_addr m pt (a + of_nat i) = user_addr m pt a + of_nat i"
  using same_page [of a k i] unfolding user_addr_def by (simp add: add.assoc)

lemma read_chunk:
  assumes "unat a mod 4096 + k \<le> 4096"
  shows "read_bytes m (PTE2PA (ents m (pt, pgno a)) + (a - PGROUNDDOWN a)) k = user_bytes m pt a k"
  unfolding user_addr_split [symmetric] user_bytes_def user_byte_def
  by (rule nth_equalityI) (simp_all add: user_addr_same_page [OF assms])

lemma walkaddr_user:
  assumes "cow_inv s xs R" "pt \<in> R" "pgno a < UPAGES"
  shows "walkaddr pt (PGROUNDDOWN a) s = Ok (if readable (mem s) pt (pgno a) then PTE2PA (ents (mem s) (pt, pgno a)) else 0)"
    "readable (mem s) pt (pgno a) \<Longrightarrow> PTE2PA (ents (mem s) (pt, pgno a)) \<noteq> 0"
proof -
  show "walkaddr pt (PGROUNDDOWN a) s = Ok (if readable (mem s) pt (pgno a) then PTE2PA (ents (mem s) (pt, pgno a)) else 0)"
    using walkaddr_eq [OF cow_invD(1) [OF assms(1)] assms(2), of "PGROUNDDOWN a"] UPAGES_MAXVA [of "PGROUNDDOWN a"] assms(3)
    by (auto simp: readable_def)
  assume "readable (mem s) pt (pgno a)"
  then have "kpage s (PTE2PA (ents (mem s) (pt, pgno a)))"
    using cow_invD(4) [OF assms(1), of "(pt, pgno a)"] assms(2,3) by (simp add: readable_def uslots_def)
  then show "PTE2PA (ents (mem s) (pt, pgno a)) \<noteq> 0" using kpage_bounds(4) vm_invD(3) [OF cow_invD(1) [OF assms(1)]] by blast
qed

text \<open>The length of the first chunk, as a word and as a number.\<close>

lemma chunk_word:
  assumes "0 < len" and n_def: "n = (if PGSIZE - (a - PGROUNDDOWN a) > len then len else PGSIZE - (a - PGROUNDDOWN a))"
  shows "unat n = (if 4096 - unat a mod 4096 > unat len then unat len else 4096 - unat a mod 4096)"
    "unat (len - n) = unat len - unat n" "0 < unat n" "unat n \<le> unat len" "unat a mod 4096 + unat n \<le> 4096"
proof -
  show n: "unat n = (if 4096 - unat a mod 4096 > unat len then unat len else 4096 - unat a mod 4096)"
    using chunk_pos(2) [of a] by (auto simp: n_def word_less_nat_alt)
  show b: "unat n \<le> unat len" "0 < unat n" "unat a mod 4096 + unat n \<le> 4096"
    using assms(1) unfolding n by (auto simp: word_less_nat_alt)
  then show "unat (len - n) = unat len - unat n" by (simp add: unat_sub word_le_nat_alt)
qed

lemma pages_of_split:
  assumes "0 < n" "unat a + n \<le> 4096 * UPAGES"
    and k_def: "k = (if 4096 - unat a mod 4096 > n then n else 4096 - unat a mod 4096)"
  shows "pages_of a n = insert (pgno a) (pages_of (PGROUNDDOWN a + PGSIZE) (n - k))"
proof -
  define q r where "q = unat a div 4096" and "r = unat a mod 4096"
  have d: "unat a = 4096 * q + r" "r < 4096" by (simp_all add: q_def r_def)
  have k: "k = (if 4096 - r > n then n else 4096 - r)" by (simp add: k_def r_def)
  have "unat (PGROUNDDOWN a) < 2 ^ 38" using assms(1,2) by (simp add: unat_PGROUNDDOWN)
  then have b: "unat (PGROUNDDOWN a + PGSIZE) = 4096 * q + 4096"
    using unat_next_page [of "PGROUNDDOWN a"] by (simp add: unat_PGROUNDDOWN q_def)
  moreover have "pgno (PGROUNDDOWN a + PGSIZE) = Suc q" "pgno a = q" by (simp_all add: pgno_def b q_def)
  ultimately show ?thesis using d assms(1) unfolding pages_of_def k by auto
qed

lemma copyin_run:
  assumes "cow_inv s xs R" "pt \<in> R" "unat a + unat len \<le> 4096 * UPAGES"
  shows "\<exists>r bs. copyin pt a len s = Ok (r, bs) \<and>
    (if \<forall>k \<in> pages_of a (unat len). readable (mem s) pt k then r = 0 \<and> bs = user_bytes (mem s) pt a (unat len) else r = -1)"
  using assms(3)
proof (induction "unat len" arbitrary: a len rule: less_induct)
  case less
  show ?case
  proof (cases "len = 0")
    case True
    then show ?thesis by (simp add: copyin.simps [of pt a] user_bytes_def pages_of_def)
  next
    case False
    then have pos: "0 < len" "0 < unat len" by (auto simp: word_less_nat_alt unat_gt_0)
    define n where n: "n = (if PGSIZE - (a - PGROUNDDOWN a) > len then len else PGSIZE - (a - PGROUNDDOWN a))"
    let ?b = "PGROUNDDOWN a + PGSIZE"
    note c = chunk_word [OF pos(1) n]
    note nx = next_chunk [OF less.prems pos(2), folded c(1)]
    have ps: "pages_of a (unat len) = insert (pgno a) (pages_of ?b (unat (len - n)))"
      using pages_of_split [OF pos(2) less.prems c(1)] c(2) by simp
    have ua: "pgno a < UPAGES" using pages_of_bound [OF less.prems] ps by simp
    note wa = walkaddr_user [OF assms(1,2) ua]
    show ?thesis
    proof (cases "readable (mem s) pt (pgno a)")
      case False
      then show ?thesis using wa(1) pos ps by (simp add: copyin.simps [of pt a])
    next
      case True
      have h: "unat (len - n) < unat len" "unat ?b + unat (len - n) \<le> 4096 * UPAGES" using c(2-4) nx(2) by simp_all
      obtain r bs where i: "copyin pt ?b (len - n) s = Ok (r, bs)"
          "if \<forall>k \<in> pages_of ?b (unat (len - n)). readable (mem s) pt k
           then r = 0 \<and> bs = user_bytes (mem s) pt ?b (unat (len - n)) else r = -1"
        using less.hyps [OF h] by blast
      have "copyin pt a len s = Ok (r, user_bytes (mem s) pt a (unat n) @ bs)"
        using wa True pos i(1) read_chunk [OF c(5), of "mem s" pt] by (simp add: copyin.simps [of pt a] Let_def flip: n)
      moreover have "user_bytes (mem s) pt a (unat len) = user_bytes (mem s) pt a (unat n) @ user_bytes (mem s) pt ?b (unat (len - n))"
      proof (cases "unat n < unat len")
        case True
        then show ?thesis using user_bytes_add [OF nx(1) [OF True], of "unat len - unat n" "mem s" pt] c(2,4) less.prems by simp
      next
        case False
        then show ?thesis using c(2,4) by (simp add: user_bytes_def)
      qed
      ultimately show ?thesis using i(2) True ps by auto
    qed
  qed
qed

text \<open>A NUL-terminated string of \<open>n\<close> characters at \<open>a\<close>, on readable pages.\<close>

definition ustring :: "memory \<Rightarrow> u64 \<Rightarrow> u64 \<Rightarrow> nat \<Rightarrow> bool" where
  "ustring m pt a n \<longleftrightarrow> (\<forall>i < n. user_byte m pt (a + of_nat i) \<noteq> 0) \<and> user_byte m pt (a + of_nat n) = 0 \<and>
     (\<forall>k \<in> pages_of a (Suc n). readable m pt k)"

lemma read_bytes_Suc: "read_bytes m p (Suc n) = m p # read_bytes m (p + 1) n"
proof (rule nth_equalityI)
  fix i assume "i < length (read_bytes m p (Suc n))"
  then show "read_bytes m p (Suc n) ! i = (m p # read_bytes m (p + 1) n) ! i" by (cases i) (simp_all add: add.assoc)
qed simp

lemma copystr_bytes_eq:
  "copystr_bytes n p m = (let bs = read_bytes m p n in
     if 0 \<in> set bs then (True, takeWhile (\<lambda>b. b \<noteq> 0) bs @ [0]) else (False, bs))"
  by (induction n arbitrary: p) (simp_all add: read_bytes_Suc Let_def, simp add: read_bytes_def)

lemma pages_of_one: "unat a mod 4096 + n \<le> 4096 \<Longrightarrow> pages_of a n \<subseteq> {pgno a}"
proof
  fix k assume n: "unat a mod 4096 + n \<le> 4096" and k: "k \<in> pages_of a n"
  have "unat a = 4096 * pgno a + unat a mod 4096" by (simp add: pgno_def)
  then show "k \<in> {pgno a}" using n k by (auto simp: pages_of_def)
qed

lemma ustring_near:
  assumes "unat a mod 4096 + n \<le> 4096" "i < n"
  shows "ustring m pt a i \<longleftrightarrow> readable m pt (pgno a) \<and> (\<forall>j < i. user_bytes m pt a n ! j \<noteq> 0) \<and> user_bytes m pt a n ! i = 0"
proof -
  have "pages_of a (Suc i) = {pgno a}"
    using pages_of_one [of a "Suc i"] pgno_in_pages [of "Suc i" a] assms by auto
  then show ?thesis using assms(2) by (auto simp: ustring_def user_bytes_def)
qed

lemma ustring_far:
  assumes "unat a mod 4096 + k = 4096" "unat b = unat a + k" "b = PGROUNDDOWN a + PGSIZE" "unat a + k + Suc n \<le> 4096 * UPAGES"
  shows "ustring m pt a (k + n) \<longleftrightarrow> readable m pt (pgno a) \<and> 0 \<notin> set (user_bytes m pt a k) \<and> ustring m pt b n"
proof -
  have "b = a + of_nat k" using assms(2,4) by (simp add: word_unat_eq_iff unat_word_ariths unat_of_nat_u64)
  then have b: "a + of_nat (k + i) = b + of_nat i" for i by simp
  have "k = (if 4096 - unat a mod 4096 > Suc (k + n) then Suc (k + n) else 4096 - unat a mod 4096)" using assms(1) by auto
  from pages_of_split [OF _ _ this] have "pages_of a (Suc (k + n)) = insert (pgno a) (pages_of b (Suc n))"
    using assms(3,4) by simp
  moreover have "(\<forall>i < k + n. user_byte m pt (a + of_nat i) \<noteq> 0) \<longleftrightarrow>
      (\<forall>i < k. user_byte m pt (a + of_nat i) \<noteq> 0) \<and> (\<forall>i < n. user_byte m pt (b + of_nat i) \<noteq> 0)"
  proof (intro iffI conjI allI impI, goal_cases)
    case (2 i)
    then show ?case using b [of i] by (metis nat_add_left_cancel_less)
  next
    case (3 i)
    show ?case
    proof (cases "i < k")
      case False
      then have "i = k + (i - k)" "i - k < n" using 3 by auto
      then show ?thesis using b [of "i - k"] 3 by metis
    qed (use 3 in simp)
  qed simp
  moreover have "0 \<notin> set (user_bytes m pt a k) \<longleftrightarrow> (\<forall>i < k. user_byte m pt (a + of_nat i) \<noteq> 0)"
    by (auto simp: user_bytes_def)
  ultimately show ?thesis unfolding ustring_def b [of n] by (simp only: ball_simps) blast
qed

lemma take_user_bytes: "k \<le> n \<Longrightarrow> take k (user_bytes m pt a n) = user_bytes m pt a k"
  by (simp add: user_bytes_def take_map)

lemma first_zero:
  fixes u :: "u8 list"
  assumes "0 \<in> set u"
  defines "i \<equiv> length (takeWhile (\<lambda>b. b \<noteq> 0) u)"
  shows "i < length u" "u ! i = 0" "\<forall>j < i. u ! j \<noteq> 0" "takeWhile (\<lambda>b. b \<noteq> 0) u @ [0] = take (Suc i) u"
proof -
  show l: "i < length u" unfolding i_def using assms(1) by (induction u) auto
  then show z: "u ! i = 0" using nth_length_takeWhile [of "\<lambda>b. b \<noteq> 0" u] by (simp add: i_def)
  show "\<forall>j < i. u ! j \<noteq> 0"
  proof (intro allI impI)
    fix j assume j: "j < i"
    then have "takeWhile (\<lambda>b. b \<noteq> 0) u ! j \<in> set (takeWhile (\<lambda>b. b \<noteq> 0) u)" by (intro nth_mem) (simp add: i_def)
    then show "u ! j \<noteq> 0" using set_takeWhileD [of _ "\<lambda>b. b \<noteq> 0" u] takeWhile_nth [of j "\<lambda>b. b \<noteq> 0" u] j
      by (auto simp: i_def)
  qed
  show "takeWhile (\<lambda>b. b \<noteq> 0) u @ [0] = take (Suc i) u"
    using take_Suc_conv_app_nth [OF l] z takeWhile_eq_take [of "\<lambda>b. b \<noteq> 0" u] by (simp add: i_def)
qed

lemma copyinstr_run:
  assumes "cow_inv s xs R" "pt \<in> R" "unat a + unat mx \<le> 4096 * UPAGES"
  shows "(\<exists>n < unat mx. ustring (mem s) pt a n \<and> copyinstr pt a mx s = Ok (0, user_bytes (mem s) pt a (Suc n))) \<or>
    \<not> (\<exists>n < unat mx. ustring (mem s) pt a n) \<and> (\<exists>bs. copyinstr pt a mx s = Ok (-1, bs) \<and> length bs \<le> unat mx)"
  using assms(3)
proof (induction "unat mx" arbitrary: a mx rule: less_induct)
  case less
  show ?case
  proof (cases "mx = 0")
    case True
    then show ?thesis by (simp add: copyinstr.simps [of pt a])
  next
    case False
    then have pos: "0 < mx" "0 < unat mx" by (auto simp: word_less_nat_alt unat_gt_0)
    define n where n: "n = (if PGSIZE - (a - PGROUNDDOWN a) > mx then mx else PGSIZE - (a - PGROUNDDOWN a))"
    let ?b = "PGROUNDDOWN a + PGSIZE" and ?u = "user_bytes (mem s) pt a (unat n)"
    note c = chunk_word [OF pos(1) n]
    note nx = next_chunk [OF less.prems pos(2), folded c(1)]
    have pin: "pgno a \<in> pages_of a (Suc i)" for i by (rule pgno_in_pages) simp
    have ua: "pgno a < UPAGES" using pages_of_bound [OF less.prems pgno_in_pages [OF pos(2)]] .
    note wa = walkaddr_user [OF assms(1,2) ua]
    show ?thesis
    proof (cases "readable (mem s) pt (pgno a)")
      case False
      then have "\<not> ustring (mem s) pt a i" for i using pin [of i] by (auto simp: ustring_def)
      then show ?thesis using wa(1) pos False by (simp add: copyinstr.simps [of pt a])
    next
      case rd: True
      have run: "copyinstr pt a mx s = (if 0 \<in> set ?u then Ok (0, takeWhile (\<lambda>b. b \<noteq> 0) ?u @ [0])
          else bind_res (copyinstr pt ?b (mx - n) s) (\<lambda>(r, cs). Ok (r, ?u @ cs)))"
        using wa rd pos read_chunk [OF c(5), of "mem s" pt]
        by (simp add: copyinstr.simps [of pt a] Let_def copystr_bytes_eq flip: n)
      show ?thesis
      proof (cases "0 \<in> set ?u")
        case True
        let ?i = "length (takeWhile (\<lambda>b. b \<noteq> 0) ?u)"
        have i: "?i < unat n" using first_zero(1) [OF True] by (simp add: user_bytes_def)
        then have "ustring (mem s) pt a ?i" using ustring_near [OF c(5) i] rd first_zero(2,3) [OF True] by simp
        moreover have "copyinstr pt a mx s = Ok (0, user_bytes (mem s) pt a (Suc ?i))"
          using run True first_zero(4) [OF True] take_user_bytes [of "Suc ?i" "unat n"] i by simp
        ultimately show ?thesis using i c(4) by (intro disjI1 exI [of _ ?i]) simp
      next
        case nz: False
        then have near: "\<not> ustring (mem s) pt a i" if "i < unat n" for i
          using ustring_near [OF c(5) that] that by (auto simp: in_set_conv_nth user_bytes_def)
        have h: "unat (mx - n) < unat mx" "unat ?b + unat (mx - n) \<le> 4096 * UPAGES" using c(2-4) nx(2) by simp_all
        have len: "length ?u = unat n" by (simp add: user_bytes_def)
        have far: "ustring (mem s) pt a (unat n + i) \<longleftrightarrow> ustring (mem s) pt ?b i"
            "user_bytes (mem s) pt a (unat n + k) = ?u @ user_bytes (mem s) pt ?b k"
          if i: "i < unat (mx - n)" "k \<le> unat (mx - n)" for i k
        proof -
          have lt: "unat n < unat mx" using i(1) c(2) by simp
          then have "unat a mod 4096 + unat n = 4096" using c(1) by (auto split: if_splits)
          then show "ustring (mem s) pt a (unat n + i) \<longleftrightarrow> ustring (mem s) pt ?b i"
            using ustring_far [OF _ nx(1) [OF lt] refl, of i] rd nz i(1) c(2) less.prems by simp
          show "user_bytes (mem s) pt a (unat n + k) = ?u @ user_bytes (mem s) pt ?b k"
            using i(2) c(2) lt less.prems by (intro user_bytes_add [OF nx(1) [OF lt]]) simp
        qed
        from less.hyps [OF h] show ?thesis
        proof
          assume "\<exists>i < unat (mx - n). ustring (mem s) pt ?b i \<and> copyinstr pt ?b (mx - n) s = Ok (0, user_bytes (mem s) pt ?b (Suc i))"
          then obtain i where i: "i < unat (mx - n)" "ustring (mem s) pt ?b i"
            "copyinstr pt ?b (mx - n) s = Ok (0, user_bytes (mem s) pt ?b (Suc i))" by blast
          then show ?thesis using run nz far [of i "Suc i"] c(2) by (intro disjI1 exI [of _ "unat n + i"]) auto
        next
          assume no: "\<not> (\<exists>i < unat (mx - n). ustring (mem s) pt ?b i) \<and>
            (\<exists>bs. copyinstr pt ?b (mx - n) s = Ok (-1, bs) \<and> length bs \<le> unat (mx - n))"
          have "\<not> ustring (mem s) pt a i" if "i < unat mx" for i
            using near [of i] far(1) [of "i - unat n" 0] no that c(2) by (cases "i < unat n") auto
          then show ?thesis using no run nz len c(2,4) by auto
        qed
      qed
    qed
  qed
qed

end
