(* ===== verification/Scenario.thy ===== *)
theory Scenario
  imports Cow_Copy
begin

unbundle bit_operations_syntax

text \<open>
  A concrete history of the memory system: a machine with zeroed memory boots, initialises the
  allocator, creates two address spaces, gives the first one a page and forks it into the
  second. The states it passes through are instances of the invariants of the development.
\<close>

definition boot :: kmem where
  "boot = \<lparr>mem = (\<lambda>_. 0), tp = 0, cpus = (\<lambda>_. \<lparr>noff = 0, intena = False, sie = False, cproc = None\<rparr>),
     locks = (\<lambda>_. \<lparr>locked = False, lname = [], lcpu = None\<rparr>),
     freelist = 0, ref_count = (\<lambda>_. 0), kend = 0x80022000\<rparr>"

lemma boot_ready: "cpu_ok boot" "kend_ok boot" "freelist boot = 0" "lock_free l boot"
  "unat (kend boot) + unat (ref_space (kend boot)) \<le> unat PHYSTOP"
  by (simp_all add: boot_def cpu_ok_def kend_ok_def lock_free_def ref_space_def riscv_consts lock_defs Let_def)

lemma many_pages: "card {q. aligned q \<and> 0x80042000 \<le> q \<and> q < PHYSTOP} = 32702"
proof -
  let ?p = "0x80042000 :: u64" and ?n = "32702 :: nat"
  have u: "unat (?p + of_nat (4096 * i)) = unat ?p + 4096 * i" if "i \<le> ?n" for i
    by (rule unat_page_step [OF _ that]) (simp add: riscv_consts)
  have "inj_on (\<lambda>i. ?p + of_nat (4096 * i)) {..<?n}"
  proof (rule inj_onI)
    fix i j assume ij: "i \<in> {..<?n}" "j \<in> {..<?n}" "?p + of_nat (4096 * i) = ?p + of_nat (4096 * j)"
    then have "unat ?p + 4096 * i = unat ?p + 4096 * j" using u [of i] u [of j] by (simp only: lessThan_iff less_imp_le)
    then show "i = j" by simp
  qed
  then have "card ((\<lambda>i. ?p + of_nat (4096 * i)) ` {..<?n}) = ?n" by (simp only: card_image card_lessThan)
  moreover have "set (run_of_pages ?p ?n) = (\<lambda>i. ?p + of_nat (4096 * i)) ` {..<?n}"
    by (simp only: run_of_pages_def set_rev set_map set_upt atLeast0LessThan)
  moreover have "set (run_of_pages ?p ?n) = {q. aligned q \<and> ?p \<le> q \<and> q < PHYSTOP}"
    by (rule set_run_of_pages) (simp_all add: aligned_def riscv_consts)
  ultimately show ?thesis by (simp only:)
qed

lemma booted:
  "\<exists>s xs. kinit boot = Ok s \<and> cow_inv s xs {} \<and> lock_free L_ref s \<and> 64 \<le> length xs"
proof -
  obtain s xs where s: "kinit boot = Ok s" "kmem_ready s" "lock_free L_ref s" "kmem_inv s xs"
      "set xs = {q. aligned q \<and> kend boot + ref_space (kend boot) \<le> q \<and> q < PHYSTOP}"
    using kinit_inv [OF boot_ready(1-3,5)] by blast
  have "kend boot + ref_space (kend boot) = 0x80042000"
    by (simp add: boot_def ref_space_def riscv_consts Let_def)
  then have "card (set xs) = 32702" using s(5) many_pages by (simp only:)
  then have "64 \<le> length xs" using card_length [of xs] by linarith
  moreover have "cow_inv s xs {}" using s by (simp add: cow_inv_def vm_inv_def uslots_def refs_ok_def maps_def)
  ultimately show ?thesis using s by blast
qed

text \<open>Two empty address spaces.\<close>

lemma two_spaces:
  "\<exists>(s :: kmem) xs pt pt'. cow_inv s xs {pt, pt'} \<and> pt \<noteq> pt' \<and> lock_free L_ref s \<and> 62 \<le> length xs \<and>
     (\<forall>k. ents (mem s) (pt, k) = 0 \<and> (k < VPAGES \<longrightarrow> ents (mem s) (pt', k) = 0))"
proof -
  obtain s xs where s: "cow_inv s xs {}" "lock_free L_ref (s :: kmem)" "64 \<le> length xs" using booted by blast
  obtain p ys t where t: "xs = p # ys" "cow_inv t ys {p}" "\<And>k. ents (mem t) (p, k) = 0" "cow_post s xs {} t ys (ents (mem s))"
    using s(3) by (cases rule: uvmcreate_cow [OF s(1)]) auto
  obtain q zs u where u: "ys = q # zs" "q \<noteq> p" "cow_inv u zs {q, p}" "\<And>k. ents (mem u) (q, k) = 0"
      "cow_post t ys {p} u zs (ents (mem t))"
    using s(3) t(1) by (cases rule: uvmcreate_cow [OF t(2)]) auto
  have "locks u = locks s" using cow_postD(3) [OF t(4)] cow_postD(3) [OF u(5)] by (simp add: cow_rel_def lock_ctx_def)
  then have "lock_free L_ref u" using s(2) by (simp add: lock_free_def)
  moreover have "ents (mem u) (p, k) = 0" if "k < VPAGES" for k using cow_postD(2) [OF u(5), of "(p, k)"] t(3) that by simp
  ultimately show ?thesis using u t(1) s(3) by (intro exI [of _ u] exI [of _ zs] exI [of _ q] exI [of _ p]) simp
qed

text \<open>The first one has one page.\<close>

lemma one_page:
  "\<exists>(s :: kmem) xs pt pt'. cow_inv s xs {pt, pt'} \<and> pt \<noteq> pt' \<and> lock_free L_ref s \<and> 59 \<le> length xs \<and>
     (\<forall>i. i < 5 \<longrightarrow> bit (ents (mem s) (pt, 0)) i) \<and> \<not> bit (ents (mem s) (pt, 0)) 8 \<and> (\<forall>k < VPAGES. ents (mem s) (pt', k) = 0)"
proof -
  obtain s xs p q where s: "cow_inv s xs {p, q}" "p \<noteq> q" "lock_free L_ref (s :: kmem)" "62 \<le> length xs"
      "\<And>k. ents (mem s) (p, k) = 0" "\<And>k. k < VPAGES \<Longrightarrow> ents (mem s) (q, k) = 0"
    using two_spaces by blast
  have n: "npages 4096 = 1" "npages 0 = 0" by (simp_all add: npages_def)
  obtain t ys where t: "cow_post s xs {p, q} t ys (ents (mem t))" "grown s {p, q} t p 0 1" "length xs \<le> length ys + 3"
  proof (rule uvmalloc_result [OF s(1), of p 4096 0])
  qed (use s(4,5) n in auto)
  have "locks t = locks s" using cow_postD(3) [OF t(1)] by (simp add: cow_rel_def lock_ctx_def)
  then have "lock_free L_ref t" using s(3) by (simp add: lock_free_def)
  moreover obtain x where x: "ents (mem t) (p, 0) = PA2PTE x OR RWXU OR PTE_V" using grownD(2) [OF t(2), of 0] by auto
  have "bit (ents (mem t) (p, 0)) i" if "i < 5" for i
    using that less_Suc_eq [of i 4] less_Suc_eq [of i 3] less_Suc_eq [of i 2] less_Suc_eq [of i 1]
    unfolding x by (subst bit_make_flag) (auto simp: bit_or_iff)
  moreover have "\<not> bit (ents (mem t) (p, 0)) 8" unfolding x by (subst bit_make_flag) (auto simp: bit_or_iff)
  moreover have "ents (mem t) (q, k) = 0" if "k < VPAGES" for k
    using grownD(1) [OF t(2), of "(q, k)"] s(2,6) that by simp
  ultimately show ?thesis using s(2,4) t(3) cow_postD(1) [OF t(1)]
    by (intro exI [of _ t] exI [of _ ys] exI [of _ p] exI [of _ q]) auto
qed

text \<open>After \<open>fork\<close>: the page is shared, copy-on-write in both.\<close>

lemma forked:
  "\<exists>(s :: kmem) xs pt pt'. cow_inv s xs {pt, pt'} \<and> pt \<noteq> pt' \<and> lock_free L_ref s \<and>
     (\<forall>i \<in> {0, 1, 3, 4, 8}. bit (ents (mem s) (pt, 0)) i \<and> bit (ents (mem s) (pt', 0)) i)"
proof -
  obtain s xs p q where s: "cow_inv s xs {p, q}" "p \<noteq> q" "lock_free L_ref (s :: kmem)" "59 \<le> length xs"
      "\<And>i. i < 5 \<Longrightarrow> bit (ents (mem s) (p, 0)) i" "\<And>k. k < VPAGES \<Longrightarrow> ents (mem s) (q, k) = 0"
    using one_page by blast
  have n: "npages 4096 = 1" by (simp add: npages_def)
  obtain t ys where t: "cow_post s xs {p, q} t ys (copy_ents (ents (mem s)) p q 0 1)"
  proof (rule uvmcopy_result [OF s(1), of p q 4096])
  qed (use s n in auto)
  note C = cow_postD [OF t]
  have "locks t = locks s" using C(3) by (simp add: cow_rel_def lock_ctx_def)
  then have "lock_free L_ref t" using s(3) by (simp add: lock_free_def)
  moreover have "ents (mem t) (p, 0) = copy_entry (ents (mem s) (p, 0))" "ents (mem t) (q, 0) = child_entry (ents (mem s) (p, 0))"
    using C(2) [of "(p, 0)"] C(2) [of "(q, 0)"] s(2) by (simp_all add: copy_ents_def)
  ultimately show ?thesis using s(2,5) C(1)
    by (intro exI [of _ t] exI [of _ ys] exI [of _ p] exI [of _ q]) (auto simp: bit_copy_entry bit_child_entry)
qed

end
