(* ===== verification/Cow_Props.thy ===== *)
theory Cow_Props
  imports Scenario
begin

unbundle bit_operations_syntax

text \<open>
  What processes can observe of the copy-on-write scheme. A process reads memory through its
  page table, so its view is the function from its mapped addresses to bytes. The theorems say
  that the routines of the memory system never change what any process sees, apart from the
  pages a process gives up, and that a page a process may store to is seen by nobody else.
\<close>

text \<open>
  (C1) A write fault on a copy-on-write page of a process returns. Either the process is to be
  killed, which happens only when no free page is left, or afterwards its entry allows the
  write and no other entry of any address space maps the page it leads to. In both cases the
  invariant holds again and every process sees the bytes it saw before, on every page.
\<close>

theorem write_fault_isolates:
  assumes "cow_inv s xs R" "lock_free L_ref s" "pt \<in> R" "pgno stval < UPAGES" "PGROUNDDOWN stval \<le> sz"
    and "bit (ents (mem s) (pt, pgno stval)) 0" "bit (ents (mem s) (pt, pgno stval)) 4"
      "bit (ents (mem s) (pt, pgno stval)) 8"
  shows "\<exists>killed t ys. write_fault pt sz stval s = Ok (killed, t) \<and> cow_inv t ys R \<and> lock_ctx s t \<and>
    same_view s R t \<and> (killed \<longrightarrow> xs = []) \<and>
    (\<not> killed \<longrightarrow> bit (ents (mem t) (pt, pgno stval)) 2 \<and>
       umaps t R (PTE2PA (ents (mem t) (pt, pgno stval))) = {(pt, pgno stval)})"
proof -
  obtain r t ys L where f: "write_fault pt sz stval s = Ok (r, t)" "cow_post s xs R t ys L"
      "r \<and> xs = [] \<and> ys = [] \<and> L = ents (mem s) \<or> \<not> r \<and> own_page (mem s) R t pt (pgno stval) True L"
    using write_fault_run [OF assms] by blast
  note C = cow_postD [OF f(2)]
  have x: "(pt, pgno stval) \<in> uslots R" using assms(3,4) by (simp add: uslots_def)
  have e: "ents (mem t) (pt, pgno stval) = L (pt, pgno stval)" by (rule C(2) [OF uslots_sub [OF x]])
  have "same_view s R t" using f(3) own_page_view [OF assms(1) f(2) x assms(6)] cow_post_view [OF assms(1) f(2)] by blast
  then show ?thesis using f C(1,3) e by (auto simp: own_page_def cow_rel_def)
qed

theorem write_fault_isolates_witness:
  "\<exists>(s :: kmem) xs R pt t. cow_inv s xs R \<and> bit (ents (mem s) (pt, 0)) 8 \<and>
     (\<exists>killed ys. write_fault pt 4096 0 s = Ok (killed, t) \<and> cow_inv t ys R \<and> same_view s R t)"
proof -
  obtain s xs p q where s: "cow_inv s xs {p, q}" "lock_free L_ref (s :: kmem)"
      "bit (ents (mem s) (p, 0)) 0" "bit (ents (mem s) (p, 0)) 4" "bit (ents (mem s) (p, 0)) 8"
    using forked by auto
  moreover have "pgno 0 = 0" "PGROUNDDOWN 0 \<le> 4096" by (simp_all add: pgno_def PGROUNDDOWN_def)
  ultimately show ?thesis using write_fault_isolates [OF s(1,2), of p 0 4096] by fastforce
qed

text \<open>
  (C2) \<open>uvmcopy\<close> of a process image into an empty table returns 0 or -1 and keeps the invariant
  and what every process sees. On success the child sees the parent's bytes, through the
  same physical pages, which neither may store to and both find marked copy-on-write. It fails
  only when the free list is short, and then leaves nothing mapped in the child.
\<close>

theorem uvmcopy_shares:
  assumes "cow_inv s xs R" "old \<in> R" "new \<in> R" "old \<noteq> new" "npages sz \<le> UPAGES"
    and v: "\<And>k. k < npages sz \<Longrightarrow> bit (ents (mem s) (old, k)) 0 \<and> ents (mem s) (new, k) = 0"
  shows "\<exists>r t ys. uvmcopy old new sz s = Ok (r, t) \<and> cow_inv t ys R \<and> lock_ctx s t \<and> same_view s R t \<and>
    (r = 0 \<and> (\<forall>va. pgno va < npages sz \<longrightarrow> user_byte (mem t) new va = user_byte (mem s) old va \<and>
         (\<forall>pt \<in> {old, new}. \<not> bit (ents (mem t) (pt, pgno va)) 2 \<and> bit (ents (mem t) (pt, pgno va)) 8 \<and>
            user_addr (mem t) pt va = user_addr (mem s) old va)) \<or>
     r = -1 \<and> length xs \<le> 2 * npages sz \<and> (\<forall>k < npages sz. ents (mem t) (new, k) = 0))"
proof -
  have h: "\<And>k. k < npages sz \<Longrightarrow> bit (ents (mem s) (old, k)) 0 \<and> \<not> bit (ents (mem s) (new, k)) 0" using v by simp
  have up: "k < VPAGES \<and> k < UPAGES" if "k < npages sz" for k using that assms(5) by simp
  show ?thesis
    using assms(1-5) h
  proof (rule uvmcopy_result)
    fix t ys assume t: "uvmcopy old new sz s = Ok (0, t)"
      and c: "cow_post s xs R t ys (copy_ents (ents (mem s)) old new 0 (npages sz))"
    let ?L = "copy_ents (ents (mem s)) old new 0 (npages sz)"
    note C = cow_postD [OF c]
    have e: "ents (mem t) (old, k) = copy_entry (ents (mem s) (old, k))" "ents (mem t) (new, k) = child_entry (ents (mem s) (old, k))"
      if "k < npages sz" for k
      using C(2) [of "(old, k)"] C(2) [of "(new, k)"] up [OF that] that assms(2-4) by (auto simp: copy_ents_def)
    have "same_view s R t"
      by (rule cow_post_view [OF assms(1) c]) (use v in \<open>auto simp: copy_ents_def bit_copy_entry\<close>)
    moreover have "user_byte (mem t) new va = user_byte (mem s) old va" if "pgno va < npages sz" for va
      using cow_post_byte [OF assms(1) c assms(2,3)] up [OF that] v [OF that] that assms(4) by (simp add: copy_ents_def)
    ultimately show ?thesis
      using t C(1,3) e v by (auto simp: cow_rel_def user_addr_def bit_copy_entry bit_child_entry)
  next
    fix t ys i assume t: "uvmcopy old new sz s = Ok (-1, t)" and i: "i < npages sz" "length xs \<le> 2 * npages sz"
      and c: "cow_post s xs R t ys (undo_ents (ents (mem s)) old new i)"
    note C = cow_postD [OF c]
    have "same_view s R t"
      by (rule cow_post_view [OF assms(1) c]) (use v i in \<open>auto simp: undo_ents_def bit_copy_entry\<close>)
    moreover have "ents (mem t) (new, k) = 0" if "k < npages sz" for k
      using C(2) [of "(new, k)"] up [OF that] v [OF that] assms(3,4) by (auto simp: undo_ents_def)
    ultimately show ?thesis using t i(2) C(1,3) by (auto simp: cow_rel_def)
  qed
qed

theorem uvmcopy_shares_witness:
  "\<exists>(s :: kmem) xs R old new t. cow_inv s xs R \<and> old \<noteq> new \<and> bit (ents (mem s) (old, 0)) 2 \<and>
     uvmcopy old new 4096 s = Ok (0, t) \<and> user_addr (mem t) new 5 = user_addr (mem t) old 5"
proof -
  obtain s xs p q where s: "cow_inv s xs {p, q}" "p \<noteq> q" "59 \<le> length xs" "\<And>i. i < 5 \<Longrightarrow> bit (ents (mem s) (p, 0)) i"
      "\<And>k. k < VPAGES \<Longrightarrow> ents (mem (s :: kmem)) (q, k) = 0"
    using one_page by blast
  have n: "npages 4096 = 1" "pgno 5 = 0" by (simp_all add: npages_def pgno_def)
  have h: "p \<in> {p, q}" "q \<in> {p, q}" "npages 4096 \<le> UPAGES"
      "\<And>k. k < npages 4096 \<Longrightarrow> bit (ents (mem s) (p, k)) 0 \<and> ents (mem s) (q, k) = 0"
    using s(4) [of 0] s(5) n(1) by simp_all
  obtain r t where t: "uvmcopy p q 4096 s = Ok (r, t)"
      "r = 0 \<and> (\<forall>va. pgno va < 1 \<longrightarrow> (\<forall>pt \<in> {p, q}. user_addr (mem t) pt va = user_addr (mem s) p va)) \<or> length xs \<le> 2 * 1"
    using uvmcopy_shares [OF s(1) h(1,2) s(2) h(3,4), unfolded n] by blast
  then have "r = 0 \<and> user_addr (mem t) q 5 = user_addr (mem t) p 5" using n s(3) by auto
  then show ?thesis using s(1,2) s(4) [of 2] t(1)
    by (intro exI [of _ s] exI [of _ xs] exI [of _ "{p, q}"] exI [of _ p] exI [of _ q] exI [of _ t]) simp
qed

text \<open>A store to a page that is not a table leaves every translation as it is.\<close>

lemma user_store_ents:
  assumes inv: "cow_inv s xs R" and x: "(pt, pgno va) \<in> uslots R" "bit (ents (mem s) (pt, pgno va)) 0" and z: "fst z \<in> R"
  shows "ents ((mem s)(user_addr (mem s) pt va := b)) z = ents (mem s) z"
proof -
  let ?p = "PTE2PA (ents (mem s) (pt, pgno va))" and ?m = "(mem s)(user_addr (mem s) pt va := b)"
  note I = cow_invD [OF inv]
  have "agree (mem s) ?m (pgno q)" if q: "q \<in> pt_pages (mem s) 2 (fst z)" for q
  proof -
    have "q \<in> tables (mem s) R" using q z by (auto simp: tables_def)
    then have "q \<noteq> ?p" "aligned q" using I(5) [OF x] tables_owned [OF I(1), of q] by (auto simp: kpage_def)
    then show ?thesis using pgno_user_addr [of "mem s" pt va] by (auto simp: agree_def aligned_pgno_eq)
  qed
  then show ?thesis using pt_frame_lookup [of "mem s" 2 "fst z" ?m] vm_invD(7) [OF I(1) z] by (simp add: ents_def)
qed

lemma user_addr_inj:
  assumes "user_addr m pt' va' = user_addr m pt va" and k: "pgno va' = pgno va" "pt' = pt"
  shows "va' = va"
proof -
  have "of_nat (unat va' mod 4096) = (of_nat (unat va mod 4096) :: u64)" using assms by (simp add: user_addr_def)
  moreover have "unat (of_nat (unat w mod 4096) :: u64) = unat w mod 4096" for w :: u64
    by (rule unat_of_nat_u64, rule less_trans [OF mod_less_divisor]) simp_all
  ultimately have "unat va' mod 4096 = unat va mod 4096" by metis
  then show ?thesis using k unfolding word_unat_eq_iff pgno_def by (metis div_mult_mod_eq)
qed



text \<open>
  (C4) \<open>uvmalloc\<close> either gives the process all pages up to the new size, each zeroed, writable
  and mapped by no one else, or undoes its work and returns 0, which takes a nearly empty free
  list. What every process sees on the pages it had does not change, and no other entry does.
\<close>

theorem uvmalloc_grows:
  assumes "cow_inv s xs R" "pt \<in> R" "npages newsz \<le> UPAGES" "oldsz \<le> newsz"
    and nv: "\<And>k. npages oldsz \<le> k \<Longrightarrow> k < npages newsz \<Longrightarrow> ents (mem s) (pt, k) = 0"
  shows "\<exists>r t ys. uvmalloc pt oldsz newsz s = Ok (r, t) \<and> cow_inv t ys R \<and> lock_ctx s t \<and> same_view s R t \<and>
    (r = newsz \<and> (\<forall>va. npages oldsz \<le> pgno va \<and> pgno va < npages newsz \<longrightarrow>
         bit (ents (mem t) (pt, pgno va)) 2 \<and> user_byte (mem t) pt va = 0 \<and>
         umaps t R (PTE2PA (ents (mem t) (pt, pgno va))) = {(pt, pgno va)}) \<or>
     r = 0 \<and> length xs \<le> 3 * (npages newsz - npages oldsz) \<and>
       (\<forall>x \<in> R \<times> {..<VPAGES}. ents (mem t) x = ents (mem s) x))"
proof -
  let ?n = "npages newsz - npages oldsz"
  have nb: "\<And>k. npages oldsz \<le> k \<Longrightarrow> k < npages newsz \<Longrightarrow> \<not> bit (ents (mem s) (pt, k)) 0" using nv by simp
  show ?thesis
    using assms(1-4) nb
  proof (rule uvmalloc_result)
    fix t ys assume t: "uvmalloc pt oldsz newsz s = Ok (newsz, t)" and c: "cow_post s xs R t ys (ents (mem t))"
      and g: "grown s R t pt (npages oldsz) ?n"
    note C = cow_postD [OF c]
    have "ents (mem t) x = ents (mem s) x" if x: "x \<in> uslots R" "bit (ents (mem s) x) 0" for x
    proof (rule grownD(1) [OF g uslots_sub [OF x(1)]])
      show "\<not> (fst x = pt \<and> npages oldsz \<le> snd x \<and> snd x < npages oldsz + ?n)" using x(2) nb [of "snd x"] by (cases x) auto
    qed
    then have "same_view s R t" by (intro cow_post_view [OF assms(1) c]) simp
    moreover have "bit (ents (mem t) (pt, pgno va)) 2 \<and> user_byte (mem t) pt va = 0 \<and>
         umaps t R (PTE2PA (ents (mem t) (pt, pgno va))) = {(pt, pgno va)}"
      if va: "npages oldsz \<le> pgno va" "pgno va < npages newsz" for va
    proof -
      have "pgno va < npages oldsz + ?n" using va by linarith
      then obtain x where x: "ents (mem t) (pt, pgno va) = PA2PTE x OR RWXU OR PTE_V" "aligned x"
          "umaps t R x = {(pt, pgno va)}" "\<forall>off < 4096. mem t (x + of_nat off) = 0"
        using grownD(2) [OF g va(1)] by blast
      moreover have "bit (PA2PTE x OR RWXU OR PTE_V) 2" by (subst bit_make_flag) (auto simp: bit_or_iff)
      ultimately show ?thesis using new_entry(2) [OF x(2)] by (simp add: user_byte_def user_addr_def)
    qed
    ultimately show ?thesis using t C(1,3) by (auto simp: cow_rel_def)
  next
    fix t ys j assume t: "uvmalloc pt oldsz newsz s = Ok (0, t)" and j: "j < ?n" "length xs \<le> 3 * ?n"
      and c: "cow_post s xs R t ys (clear_range (ents (mem s)) pt (npages oldsz) j)"
    note C = cow_postD [OF c]
    have same: "clear_range (ents (mem s)) pt (npages oldsz) j x = ents (mem s) x" for x
      using nv j(1) by (auto simp: clear_range_def split: prod.splits)
    then have "same_view s R t" by (intro cow_post_view [OF assms(1) c]) simp
    then show ?thesis using t j C(1-3) same by (auto simp: cow_rel_def)
  qed
qed

theorem uvmalloc_grows_witness:
  "\<exists>(s :: kmem) xs R pt t. cow_inv s xs R \<and> uvmalloc pt 0 4096 s = Ok (4096, t) \<and> user_byte (mem t) pt 9 = 0"
proof -
  obtain s xs p q where s: "cow_inv s xs {p, q}" "62 \<le> length xs" "\<And>k. ents (mem (s :: kmem)) (p, k) = 0"
    using two_spaces by blast
  have n: "npages 4096 = 1" "npages 0 = 0" "pgno 9 = 0" by (simp_all add: npages_def pgno_def)
  obtain r t where t: "uvmalloc p 0 4096 s = Ok (r, t)" "r = 4096 \<and> user_byte (mem t) p 9 = 0 \<or> length xs \<le> 3"
    using uvmalloc_grows [OF s(1), of p 4096 0] s(3) n by fastforce
  then have "r = 4096 \<and> user_byte (mem t) p 9 = 0" using s(2) by auto
  then show ?thesis using t(1) s(1) by blast
qed

text \<open>
  (C5) \<open>uvmdealloc\<close> shrinks an image to the new size. The entries it takes away are exactly those
  above the new size, the pages that become free are exactly those that no entry maps any more,
  and a page another process still maps stays, with its contents.
\<close>

theorem uvmdealloc_shrinks:
  assumes "cow_inv s xs R" "pt \<in> R" "npages oldsz \<le> UPAGES" "newsz < oldsz"
    and "\<And>k. npages newsz \<le> k \<Longrightarrow> k < npages oldsz \<Longrightarrow> bit (ents (mem s) (pt, k)) 0"
  shows "\<exists>t ys. uvmdealloc pt oldsz newsz s = Ok (newsz, t) \<and> cow_inv t ys R \<and>
    (\<forall>x \<in> R \<times> {..<VPAGES}. ents (mem t) x =
       (if fst x = pt \<and> npages newsz \<le> snd x \<and> snd x < npages oldsz then 0 else ents (mem s) x)) \<and>
    set ys = set xs \<union> {p. umaps s R p \<noteq> {} \<and> umaps t R p = {}} \<and>
    (\<forall>p. umaps s R p \<noteq> {} \<and> umaps t R p \<noteq> {} \<longrightarrow> agree (mem s) (mem t) (pgno p))"
proof -
  obtain t ys where t: "uvmdealloc pt oldsz newsz s = Ok (newsz, t)"
      "unmap_post s xs R t ys (clear_range (ents (mem s)) pt (npages newsz) (npages oldsz - npages newsz))"
    using uvmdealloc_cow [OF assms] by blast
  note U = unmap_postD [OF t(2)]
  have "npages newsz \<le> npages oldsz" using assms(4) by (intro npages_mono) (simp add: word_less_nat_alt)
  then show ?thesis
    using t(1) U(1,2,5,7) by (intro exI [of _ t] exI [of _ ys]) (auto simp: clear_range_def released_def ukeeps_def)
qed

theorem uvmdealloc_shrinks_witness:
  "\<exists>(s :: kmem) xs R pt t ys. cow_inv s xs R \<and> bit (ents (mem s) (pt, 0)) 0 \<and>
     uvmdealloc pt 4096 0 s = Ok (0, t) \<and> cow_inv t ys R \<and> ents (mem t) (pt, 0) = 0"
proof -
  obtain s xs p q where s: "cow_inv s xs {p, q}" "\<And>i. i < 5 \<Longrightarrow> bit (ents (mem (s :: kmem)) (p, 0)) i"
    using one_page by blast
  have n: "npages 4096 = 1" "npages 0 = 0" by (simp_all add: npages_def)
  have h: "p \<in> {p, q}" "npages 4096 \<le> UPAGES" "(0 :: u64) < 4096"
      "\<And>k. npages 0 \<le> k \<Longrightarrow> k < npages 4096 \<Longrightarrow> bit (ents (mem s) (p, k)) 0"
    using s(2) [of 0] n by simp_all
  obtain t ys where t: "uvmdealloc p 4096 0 s = Ok (0, t)" "cow_inv t ys {p, q}"
      "\<forall>x \<in> {p, q} \<times> {..<VPAGES}. ents (mem t) x = (if fst x = p \<and> 0 \<le> snd x \<and> snd x < 1 then 0 else ents (mem s) x)"
    using uvmdealloc_shrinks [OF s(1) h, unfolded n] by blast
  then have "ents (mem t) (p, 0) = 0" by simp
  then show ?thesis using s(1) s(2) [of 0] t
    by (intro exI [of _ s] exI [of _ xs] exI [of _ "{p, q}"] exI [of _ p] exI [of _ t] exI [of _ ys]) simp
qed



end
