(* ===== verification/Proc.thy ===== *)
theory Proc
  imports Cow_Copy
begin

unbundle bit_operations_syntax

text \<open>
  Processes: the process table and the routines of \<^verbatim>\<open>kernel/proc.c\<close> that work on it alone. Those
  that need open files and inodes (\<open>fork\<close>, \<open>exit\<close>, \<open>wait\<close>, \<open>userinit\<close>) come after the file system.

  A pointer to a process is its index in the table, a channel is named by the kernel object
  whose address it is. A context switch ends a function of the model: \<open>sched\<close> returns the state in
  which \<open>swtch\<close> is called, and what its caller does once it is switched back to is a function of its own.
\<close>

section \<open>State\<close>

datatype procstate = UNUSED | USED | SLEEPING | RUNNABLE | RUNNING | ZOMBIE

datatype chanid =
    Ch_proc nat | Ch_ticks | Ch_sleeplock lockid | Ch_log | Ch_buf nat | Ch_pipe_read u64 | Ch_pipe_write u64
  | Ch_disk | Ch_cons | Ch_uart

record kcontext =
  ra :: u64
  sp :: u64
  s_regs :: "u64 list"

record proc =
  pstate :: procstate
  chan :: "chanid option"
  killed :: bool
  xstate :: int
  pid :: int
  parent :: "nat option"
  kstack :: u64
  psz :: u64
  pagetable :: u64
  trapframe :: u64
  pcontext :: kcontext
  ofile :: "nat option list"
  cwd :: "nat option"
  pname :: "u8 list"

record ptable = kvm +
  procs :: "nat \<Rightarrow> proc"
  nextpid :: int
  initproc :: "nat option"
  forkret_addr :: u64
  ticks :: u32

definition set_proc :: "nat \<Rightarrow> (proc \<Rightarrow> proc) \<Rightarrow> 'a ptable_scheme \<Rightarrow> 'a ptable_scheme" where
  "set_proc p f s = s\<lparr>procs := (procs s)(p := f (procs s p))\<rparr>"

text \<open>The fields of \<^verbatim>\<open>struct trapframe\<close>, which lives in a page of its own, and their offsets there.\<close>

datatype tf_field =
    TF_kernel_satp | TF_kernel_sp | TF_kernel_trap | TF_epc | TF_kernel_hartid | TF_ra | TF_sp | TF_gp
  | TF_tp | TF_t0 | TF_t1 | TF_t2 | TF_s0 | TF_s1 | TF_a0 | TF_a1 | TF_a2 | TF_a3 | TF_a4 | TF_a5
  | TF_a6 | TF_a7 | TF_s2 | TF_s3 | TF_s4 | TF_s5 | TF_s6 | TF_s7 | TF_s8 | TF_s9 | TF_s10 | TF_s11
  | TF_t3 | TF_t4 | TF_t5 | TF_t6

primrec tf_off :: "tf_field \<Rightarrow> u64" where
  "tf_off TF_kernel_satp = 0"
| "tf_off TF_kernel_sp = 8"
| "tf_off TF_kernel_trap = 16"
| "tf_off TF_epc = 24"
| "tf_off TF_kernel_hartid = 32"
| "tf_off TF_ra = 40"
| "tf_off TF_sp = 48"
| "tf_off TF_gp = 56"
| "tf_off TF_tp = 64"
| "tf_off TF_t0 = 72"
| "tf_off TF_t1 = 80"
| "tf_off TF_t2 = 88"
| "tf_off TF_s0 = 96"
| "tf_off TF_s1 = 104"
| "tf_off TF_a0 = 112"
| "tf_off TF_a1 = 120"
| "tf_off TF_a2 = 128"
| "tf_off TF_a3 = 136"
| "tf_off TF_a4 = 144"
| "tf_off TF_a5 = 152"
| "tf_off TF_a6 = 160"
| "tf_off TF_a7 = 168"
| "tf_off TF_s2 = 176"
| "tf_off TF_s3 = 184"
| "tf_off TF_s4 = 192"
| "tf_off TF_s5 = 200"
| "tf_off TF_s6 = 208"
| "tf_off TF_s7 = 216"
| "tf_off TF_s8 = 224"
| "tf_off TF_s9 = 232"
| "tf_off TF_s10 = 240"
| "tf_off TF_s11 = 248"
| "tf_off TF_t3 = 256"
| "tf_off TF_t4 = 264"
| "tf_off TF_t5 = 272"
| "tf_off TF_t6 = 280"

definition sizeof_trapframe :: nat where "sizeof_trapframe = 288"

definition tf_get :: "nat \<Rightarrow> tf_field \<Rightarrow> 'a ptable_scheme \<Rightarrow> u64" where
  "tf_get p f s = load64 (mem s) (trapframe (procs s p) + tf_off f)"

definition tf_set :: "nat \<Rightarrow> tf_field \<Rightarrow> u64 \<Rightarrow> 'a ptable_scheme \<Rightarrow> 'a ptable_scheme" where
  "tf_set p f v s = s\<lparr>mem := store64 (mem s) (trapframe (procs s p) + tf_off f) v\<rparr>"

section \<open>The current process\<close>

definition myproc :: "'a ptable_scheme \<Rightarrow> (nat option \<times> 'a ptable_scheme) res" where
  "myproc s =
     (let s = push_off s;
          p = cproc (mycpu s)
      in bind_res (pop_off s) (\<lambda>s. Ok (p, s)))"

text \<open>A caller that follows the pointer without a test faults on address 0, and \<open>kerneltrap\<close> panics.\<close>

definition curproc :: "'a ptable_scheme \<Rightarrow> (nat \<times> 'a ptable_scheme) res" where
  "curproc s = bind_res (myproc s) (\<lambda>(p, s). case p of None \<Rightarrow> Panic ''kerneltrap'' | Some p \<Rightarrow> Ok (p, s))"

section \<open>Creating and destroying processes\<close>

fun procinit_loop :: "nat list \<Rightarrow> 'a ptable_scheme \<Rightarrow> 'a ptable_scheme" where
  "procinit_loop [] s = s"
| "procinit_loop (p # ps) s =
     procinit_loop ps (set_proc p (\<lambda>q. q\<lparr>kstack := KSTACK p\<rparr>) (initlock (L_proc p) ''proc'' s))"

definition procinit :: "'a ptable_scheme \<Rightarrow> 'a ptable_scheme" where
  "procinit s = procinit_loop [0..<NPROC] (initlock L_wait ''wait_lock'' (initlock L_pid ''nextpid'' s))"

definition allocpid :: "'a ptable_scheme \<Rightarrow> (int \<times> 'a ptable_scheme) res" where
  "allocpid s =
     bind_res (acquire L_pid s) (\<lambda>s.
       let i = nextpid s;
           s = s\<lparr>nextpid := nextpid s + 1\<rparr>
       in bind_res (release L_pid s) (\<lambda>s. Ok (i, s)))"

definition proc_pagetable :: "nat \<Rightarrow> 'a ptable_scheme \<Rightarrow> (u64 \<times> 'a ptable_scheme) res" where
  "proc_pagetable p s =
     bind_res (uvmcreate s) (\<lambda>(pt, s).
       if pt = 0 then Ok (0, s)
       else bind_res (mappages pt TRAMPOLINE PGSIZE (trampoline s) (PTE_R OR PTE_X) s) (\<lambda>(r, s).
         if r < 0 then bind_res (uvmfree pt 0 s) (\<lambda>s. Ok (0, s))
         else bind_res (mappages pt TRAPFRAME PGSIZE (trapframe (procs s p)) (PTE_R OR PTE_W) s) (\<lambda>(r, s).
           if r < 0
           then bind_res (uvmunmap pt TRAMPOLINE 1 False s) (\<lambda>s.
                  bind_res (uvmfree pt 0 s) (\<lambda>s. Ok (0, s)))
           else Ok (pt, s))))"

definition proc_freepagetable :: "u64 \<Rightarrow> u64 \<Rightarrow> 'a ptable_scheme \<Rightarrow> 'a ptable_scheme res" where
  "proc_freepagetable pt sz s =
     bind_res (uvmunmap pt TRAMPOLINE 1 False s) (\<lambda>s.
       bind_res (uvmunmap pt TRAPFRAME 1 False s) (\<lambda>s. uvmfree pt sz s))"

definition freeproc :: "nat \<Rightarrow> 'a ptable_scheme \<Rightarrow> 'a ptable_scheme res" where
  "freeproc p s =
     bind_res (if trapframe (procs s p) \<noteq> 0 then kfree (trapframe (procs s p)) s else Ok s) (\<lambda>s.
       let s = set_proc p (\<lambda>q. q\<lparr>trapframe := 0\<rparr>) s in
       bind_res (if pagetable (procs s p) \<noteq> 0 then proc_freepagetable (pagetable (procs s p)) (psz (procs s p)) s
                 else Ok s) (\<lambda>s.
         Ok (set_proc p (\<lambda>q. q\<lparr>pagetable := 0, psz := 0, pid := 0, parent := None, pname := (pname q)[0 := 0],
           chan := None, killed := False, xstate := 0, pstate := UNUSED\<rparr>) s)))"

fun allocproc_scan :: "nat list \<Rightarrow> 'a ptable_scheme \<Rightarrow> (nat option \<times> 'a ptable_scheme) res" where
  "allocproc_scan [] s = Ok (None, s)"
| "allocproc_scan (p # ps) s =
     bind_res (acquire (L_proc p) s) (\<lambda>s.
       if pstate (procs s p) = UNUSED then Ok (Some p, s)
       else bind_res (release (L_proc p) s) (allocproc_scan ps))"

definition allocproc :: "'a ptable_scheme \<Rightarrow> (nat option \<times> 'a ptable_scheme) res" where
  "allocproc s =
     bind_res (allocproc_scan [0..<NPROC] s) (\<lambda>(found, s).
       case found of None \<Rightarrow> Ok (None, s)
       | Some p \<Rightarrow>
           bind_res (allocpid s) (\<lambda>(i, s).
             let s = set_proc p (\<lambda>q. q\<lparr>pid := i, pstate := USED\<rparr>) s in
             bind_res (kalloc s) (\<lambda>(tf, s).
               let s = set_proc p (\<lambda>q. q\<lparr>trapframe := tf\<rparr>) s in
               if tf = 0
               then bind_res (freeproc p s) (\<lambda>s. bind_res (release (L_proc p) s) (\<lambda>s. Ok (None, s)))
               else bind_res (proc_pagetable p s) (\<lambda>(pt, s).
                 let s = set_proc p (\<lambda>q. q\<lparr>pagetable := pt\<rparr>) s in
                 if pt = 0
                 then bind_res (freeproc p s) (\<lambda>s. bind_res (release (L_proc p) s) (\<lambda>s. Ok (None, s)))
                 else Ok (Some p, set_proc p (\<lambda>q. q\<lparr>pcontext :=
                        \<lparr>ra = forkret_addr s, sp = kstack q + PGSIZE, s_regs = replicate 12 0\<rparr>\<rparr>) s)))))"

text \<open>The size is held in a 32-bit \<^verbatim>\<open>uint\<close>.\<close>

definition growproc :: "int \<Rightarrow> 'a ptable_scheme \<Rightarrow> (int \<times> 'a ptable_scheme) res" where
  "growproc n s =
     bind_res (curproc s) (\<lambda>(p, s).
       let sz = ucast (psz (procs s p)) :: u32 in
       if n > 0
       then bind_res (uvmalloc (pagetable (procs s p)) (ucast sz) (ucast (sz + of_int n)) s) (\<lambda>(r, s).
              let sz = ucast r :: u32 in
              if sz = 0 then Ok (-1, s)
              else Ok (0, set_proc p (\<lambda>q. q\<lparr>psz := ucast sz\<rparr>) s))
       else if n < 0
       then bind_res (uvmdealloc (pagetable (procs s p)) (ucast sz) (ucast (sz + of_int n)) s) (\<lambda>(r, s).
              let sz = ucast r :: u32 in
              Ok (0, set_proc p (\<lambda>q. q\<lparr>psz := ucast sz\<rparr>) s))
       else Ok (0, set_proc p (\<lambda>q. q\<lparr>psz := ucast sz\<rparr>) s))"

section \<open>Scheduling\<close>

text \<open>One round of the loop in \<open>scheduler\<close>, up to \<open>swtch\<close> (the result says whether it is called), and after it.\<close>

definition scheduler_pick :: "nat \<Rightarrow> 'a ptable_scheme \<Rightarrow> (bool \<times> 'a ptable_scheme) res" where
  "scheduler_pick p s =
     bind_res (acquire (L_proc p) s) (\<lambda>s.
       if pstate (procs s p) = RUNNABLE
       then Ok (True, set_cpu (\<lambda>c. c\<lparr>cproc := Some p\<rparr>) (set_proc p (\<lambda>q. q\<lparr>pstate := RUNNING\<rparr>) s))
       else bind_res (release (L_proc p) s) (\<lambda>s. Ok (False, s)))"

definition scheduler_back :: "nat \<Rightarrow> 'a ptable_scheme \<Rightarrow> 'a ptable_scheme res" where
  "scheduler_back p s = release (L_proc p) (set_cpu (\<lambda>c. c\<lparr>cproc := None\<rparr>) s)"

text \<open>\<open>sched\<close> up to \<open>swtch\<close>, with the saved \<open>intena\<close>, and after it.\<close>

definition sched :: "'a ptable_scheme \<Rightarrow> (bool \<times> 'a ptable_scheme) res" where
  "sched s =
     bind_res (curproc s) (\<lambda>(p, s).
       if \<not> holding (L_proc p) s then Panic ''sched p->lock''
       else if noff (mycpu s) \<noteq> 1 then Panic ''sched locks''
       else if pstate (procs s p) = RUNNING then Panic ''sched running''
       else if intr_get s then Panic ''sched interruptible''
       else Ok (intena (mycpu s), s))"

definition sched_back :: "bool \<Rightarrow> 'a ptable_scheme \<Rightarrow> 'a ptable_scheme" where
  "sched_back ie s = set_cpu (\<lambda>c. c\<lparr>intena := ie\<rparr>) s"

definition yield :: "'a ptable_scheme \<Rightarrow> (bool \<times> 'a ptable_scheme) res" where
  "yield s =
     bind_res (curproc s) (\<lambda>(p, s).
       bind_res (acquire (L_proc p) s) (\<lambda>s.
         sched (set_proc p (\<lambda>q. q\<lparr>pstate := RUNNABLE\<rparr>) s)))"

definition yield_back :: "nat \<Rightarrow> bool \<Rightarrow> 'a ptable_scheme \<Rightarrow> 'a ptable_scheme res" where
  "yield_back p ie s = release (L_proc p) (sched_back ie s)"

definition sleep :: "chanid \<Rightarrow> lockid \<Rightarrow> 'a ptable_scheme \<Rightarrow> (bool \<times> 'a ptable_scheme) res" where
  "sleep ch lk s =
     bind_res (curproc s) (\<lambda>(p, s).
       bind_res (acquire (L_proc p) s) (\<lambda>s.
         bind_res (release lk s) (\<lambda>s.
           sched (set_proc p (\<lambda>q. q\<lparr>chan := Some ch, pstate := SLEEPING\<rparr>) s))))"

definition sleep_wake :: "nat \<Rightarrow> bool \<Rightarrow> 'a ptable_scheme \<Rightarrow> 'a ptable_scheme res" where
  "sleep_wake p ie s = release (L_proc p) (set_proc p (\<lambda>q. q\<lparr>chan := None\<rparr>) (sched_back ie s))"

definition sleep_back :: "nat \<Rightarrow> lockid \<Rightarrow> bool \<Rightarrow> 'a ptable_scheme \<Rightarrow> 'a ptable_scheme res" where
  "sleep_back p lk ie s = bind_res (sleep_wake p ie s) (acquire lk)"

definition wakeup_one :: "chanid \<Rightarrow> nat \<Rightarrow> 'a ptable_scheme \<Rightarrow> 'a ptable_scheme res" where
  "wakeup_one ch p s =
     bind_res (myproc s) (\<lambda>(me, s).
       if me = Some p then Ok s
       else bind_res (acquire (L_proc p) s) (\<lambda>s.
         release (L_proc p)
           (if pstate (procs s p) = SLEEPING \<and> chan (procs s p) = Some ch
            then set_proc p (\<lambda>q. q\<lparr>pstate := RUNNABLE\<rparr>) s else s)))"

fun wakeup_loop :: "chanid \<Rightarrow> nat list \<Rightarrow> 'a ptable_scheme \<Rightarrow> 'a ptable_scheme res" where
  "wakeup_loop ch [] s = Ok s"
| "wakeup_loop ch (p # ps) s = bind_res (wakeup_one ch p s) (wakeup_loop ch ps)"

definition wakeup :: "chanid \<Rightarrow> 'a ptable_scheme \<Rightarrow> 'a ptable_scheme res" where
  "wakeup ch s = wakeup_loop ch [0..<NPROC] s"

fun kill_loop :: "int \<Rightarrow> nat list \<Rightarrow> 'a ptable_scheme \<Rightarrow> (int \<times> 'a ptable_scheme) res" where
  "kill_loop i [] s = Ok (-1, s)"
| "kill_loop i (p # ps) s =
     bind_res (acquire (L_proc p) s) (\<lambda>s.
       if pid (procs s p) = i
       then let s = set_proc p (\<lambda>q. q\<lparr>killed := True\<rparr>) s;
                s = (if pstate (procs s p) = SLEEPING then set_proc p (\<lambda>q. q\<lparr>pstate := RUNNABLE\<rparr>) s else s)
            in bind_res (release (L_proc p) s) (\<lambda>s. Ok (0, s))
       else bind_res (release (L_proc p) s) (kill_loop i ps))"

definition kill :: "int \<Rightarrow> 'a ptable_scheme \<Rightarrow> (int \<times> 'a ptable_scheme) res" where
  "kill i s = kill_loop i [0..<NPROC] s"

section \<open>Copying to and from a caller's buffer\<close>

text \<open>
  A destination or source is a user address, an address of a page of kernel memory, or a kernel variable,
  whose bytes are passed by value.
\<close>

datatype dest = User_dst u64 | Page_dst u64 | Var_dst

datatype source = User_src u64 | Page_src u64 | Var_src "u8 list"

definition either_copyout :: "dest \<Rightarrow> u8 list \<Rightarrow> 'a ptable_scheme \<Rightarrow> (int \<times> 'a ptable_scheme) res" where
  "either_copyout dst src s =
     bind_res (myproc s) (\<lambda>(p, s).
       case dst of
         User_dst va \<Rightarrow> (case p of None \<Rightarrow> Panic ''kerneltrap'' | Some p \<Rightarrow> copyout (pagetable (procs s p)) va src s)
       | Page_dst a \<Rightarrow> Ok (0, s\<lparr>mem := write_bytes (mem s) a src\<rparr>)
       | Var_dst \<Rightarrow> Ok (0, s))"

definition either_copyin :: "source \<Rightarrow> u64 \<Rightarrow> 'a ptable_scheme \<Rightarrow> (int \<times> u8 list \<times> 'a ptable_scheme) res" where
  "either_copyin src len s =
     bind_res (myproc s) (\<lambda>(p, s).
       case src of
         User_src va \<Rightarrow> (case p of None \<Rightarrow> Panic ''kerneltrap''
           | Some p \<Rightarrow> bind_res (copyin (pagetable (procs s p)) va len s) (\<lambda>(r, bs). Ok (r, bs, s)))
       | Page_src a \<Rightarrow> Ok (0, read_bytes (mem s) a (unat len), s)
       | Var_src bs \<Rightarrow> Ok (0, take (unat len) bs, s))"

end
