(* ===== verification/Ring.thy ===== *)
theory Ring
  imports Proc
begin

unbundle bit_operations_syntax

text \<open>
  Ring buffers. The UART driver, the console and pipes keep bytes in an array that is indexed by
  two free-running machine counters, taken modulo the array's size. \<open>ring\<close> is the queue such an
  array holds. The size divides the range of the counters, so that nothing happens at the index
  where they wrap around. The locale is the contract of a bounded byte queue; each of the three drivers
  gives an interpretation of it.

  The last section is the outcome of a routine that may go to sleep on the way: \<open>Block\<close> is the state in
  which it calls \<open>sleep\<close>, with the progress made so far; it goes on from there after the wakeup.
\<close>

section \<open>Definitions\<close>

definition ring :: "u8 list \<Rightarrow> 'n::len word \<Rightarrow> 'n word \<Rightarrow> u8 list" where
  "ring buf r w = map (\<lambda>i. buf ! (unat (r + of_nat i) mod length buf)) [0..<unat (w - r)]"

definition ring_ok :: "nat \<Rightarrow> u8 list \<Rightarrow> 'n::len word \<Rightarrow> 'n word \<Rightarrow> bool" where
  "ring_ok n buf r w \<longleftrightarrow> length buf = n \<and> unat (w - r) \<le> n"

datatype ('r, 's) io = Done 'r 's | Block 'r 's

section \<open>Lemmas\<close>

lemma length_ring [simp]: "length (ring buf r w) = unat (w - r)"
  by (simp add: ring_def)

lemma ring_same [simp]: "ring buf r r = []"
  by (simp add: ring_def)

lemma ring_empty_iff: "ring buf r w = [] \<longleftrightarrow> r = w"
proof -
  have "ring buf r w = [] \<longleftrightarrow> unat (w - r) = 0" by (metis length_0_conv length_ring)
  then show ?thesis by (auto simp: unat_eq_0)
qed

lemma unat_add_mod:
  fixes r :: "'n::len word"
  assumes "n dvd 2 ^ LENGTH('n)"
  shows "unat (r + of_nat i) mod n = (unat r + i) mod n"
proof -
  have "unat (r + of_nat i) = (unat r + i mod 2 ^ LENGTH('n)) mod 2 ^ LENGTH('n)"
    by (simp add: unat_word_ariths unsigned_of_nat take_bit_eq_mod)
  also have "\<dots> = (unat r + i) mod 2 ^ LENGTH('n)" by (simp add: mod_add_right_eq)
  finally show ?thesis using assms by (simp add: mod_mod_cancel)
qed

lemma unat_diff_Suc:
  fixes r w :: "'n::len word"
  assumes "unat (w - r) < n" "n < 2 ^ LENGTH('n)"
  shows "unat (w + 1 - r) = Suc (unat (w - r))"
proof -
  have e: "w + 1 - r = (w - r) + 1" by simp
  have "unat (w - r) + 1 < 2 ^ LENGTH('n)" using assms by linarith
  then have "unat ((w - r) + 1) = Suc (unat (w - r))" unfolding unat_word_ariths by simp
  then show ?thesis by (simp only: e)
qed

lemma unat_diff_pop:
  fixes r w :: "'n::len word"
  assumes "r \<noteq> w"
  shows "Suc (unat (w - (r + 1))) = unat (w - r)"
proof -
  have "w - r \<noteq> 0" using assms by simp
  then have "unat ((w - r) - 1) = unat (w - r) - 1" by (rule unat_minus_one)
  moreover have "0 < unat (w - r)" using \<open>w - r \<noteq> 0\<close> by (simp only: unat_gt_0 not_False_eq_True)
  moreover have "w - (r + 1) = (w - r) - 1" by simp
  ultimately show ?thesis by (simp only: Suc_diff_1 diff_Suc_1)
qed

text \<open>Storing at the write index appends; the counters may wrap.\<close>

lemma ring_push:
  fixes r w :: "'n::len word"
  assumes "ring_ok n buf r w" "unat (w - r) < n" "n dvd 2 ^ LENGTH('n)" "n < 2 ^ LENGTH('n)"
  shows "ring (buf[unat w mod n := c]) r (w + 1) = ring buf r w @ [c]"
proof -
  let ?k = "unat (w - r)"
  have k: "unat (w + 1 - r) = Suc ?k" using assms(2,4) by (rule unat_diff_Suc)
  have n: "length buf = n" "0 < n" using assms by (auto simp: ring_ok_def)
  have w: "r + of_nat ?k = w" by simp
  have idx: "unat (r + of_nat i) mod n = (unat r + i) mod n" for i using assms(3) by (rule unat_add_mod)
  have ne: "(unat r + ?k) mod n \<noteq> (unat r + i) mod n" if "i < ?k" for i
  proof
    assume "(unat r + ?k) mod n = (unat r + i) mod n"
    then have "n dvd (unat r + ?k) - (unat r + i)" by (metis mod_eq_dvd_iff_nat add_le_cancel_left less_imp_le that)
    then show False using that assms(2) by (auto dest: dvd_imp_le)
  qed
  have wn: "unat w mod n = (unat r + ?k) mod n" using idx [of ?k] w by simp
  show ?thesis
  proof (rule nth_equalityI)
    fix i assume "i < length (ring (buf[unat w mod n := c]) r (w + 1))"
    then have i: "i < Suc ?k" by (simp add: k)
    have l: "ring (buf[unat w mod n := c]) r (w + 1) ! i = buf[(unat r + ?k) mod n := c] ! ((unat r + i) mod n)"
      using i k n by (simp add: ring_def idx wn del: upt_Suc)
    show "ring (buf[unat w mod n := c]) r (w + 1) ! i = (ring buf r w @ [c]) ! i"
    proof (cases "i = ?k")
      case True
      then show ?thesis using n l by (simp add: nth_append)
    next
      case False
      then have "i < ?k" using i by simp
      then show ?thesis using ne n l by (simp add: nth_append ring_def idx)
    qed
  qed (simp add: k)
qed

lemma ring_ok_push:
  fixes r w :: "'n::len word"
  assumes "ring_ok n buf r w" "unat (w - r) < n" "n < 2 ^ LENGTH('n)"
  shows "ring_ok n (buf[i := c]) r (w + 1)"
  using assms unat_diff_Suc [OF assms(2,3)] by (simp add: ring_ok_def)

lemma ring_pop:
  fixes r w :: "'n::len word"
  assumes "r \<noteq> w"
  shows "ring buf r w = buf ! (unat r mod length buf) # ring buf (r + 1) w"
proof -
  have "[0..<unat (w - r)] = 0 # map Suc [0..<unat (w - (r + 1))]"
    by (simp add: map_Suc_upt upt_conv_Cons flip: unat_diff_pop [OF assms])
  then show ?thesis by (simp add: ring_def comp_def add.assoc)
qed

lemma ring_ok_pop:
  fixes r w :: "'n::len word"
  shows "ring_ok n buf r w \<Longrightarrow> r \<noteq> w \<Longrightarrow> ring_ok n buf (r + 1) w"
  using unat_diff_pop [of r w] by (simp add: ring_ok_def)

lemma ring_full_iff:
  fixes r w :: "'n::len word"
  assumes "n < 2 ^ LENGTH('n)"
  shows "w = r + of_nat n \<longleftrightarrow> unat (w - r) = n"
proof
  assume "unat (w - r) = n"
  moreover have "of_nat (unat (w - r)) = w - r" by simp
  ultimately have "w - r = of_nat n" by simp
  then show "w = r + of_nat n" by (simp add: algebra_simps)
qed (use assms in \<open>simp add: unsigned_of_nat take_bit_nat_eq_self\<close>)

text \<open>A third index splits the queue, and the write index may be taken back.\<close>

lemma ring_append:
  fixes r w e :: "'n::len word"
  assumes "unat (w - r) + unat (e - w) = unat (e - r)"
  shows "ring buf r e = ring buf r w @ ring buf w e"
proof (rule nth_equalityI)
  fix i assume "i < length (ring buf r e)"
  then have i: "i < unat (w - r) + unat (e - w)" using assms by simp
  let ?k = "unat (w - r)"
  have e: "r + of_nat i = w + of_nat (i - ?k)" if "?k \<le> i"
  proof -
    have "of_nat i = (of_nat ?k + of_nat (i - ?k) :: 'n word)" using that by (simp flip: of_nat_add)
    then show ?thesis by simp
  qed
  show "ring buf r e ! i = (ring buf r w @ ring buf w e) ! i"
    using i assms e by (cases "i < ?k") (auto simp: ring_def nth_append add.commute)
qed (use assms in simp)

lemma unat_diff_back:
  fixes w e :: "'n::len word"
  assumes "e \<noteq> w"
  shows "Suc (unat (e - 1 - w)) = unat (e - w)"
proof -
  have e: "e - 1 - w = e - (w + 1)" by simp
  show ?thesis unfolding e by (rule unat_diff_pop) (use assms in simp)
qed

lemma ring_back:
  fixes w e :: "'n::len word"
  assumes "e \<noteq> w"
  shows "ring buf w (e - 1) = butlast (ring buf w e)"
proof -
  have "[0..<unat (e - w)] = [0..<unat (e - 1 - w)] @ [unat (e - 1 - w)]"
    by (simp flip: unat_diff_back [OF assms])
  then show ?thesis by (simp add: ring_def)
qed

lemma ring_last:
  fixes w e :: "'n::len word"
  assumes "e \<noteq> w"
  shows "last (ring buf w e) = buf ! (unat (e - 1) mod length buf)"
proof -
  have "[0..<unat (e - w)] = [0..<unat (e - 1 - w)] @ [unat (e - 1 - w)]"
    by (simp flip: unat_diff_back [OF assms])
  moreover have "w + of_nat (unat (e - 1 - w)) = e - 1" by simp
  ultimately show ?thesis by (simp add: ring_def)
qed

section \<open>The contract of a bounded byte queue\<close>

locale byte_queue =
  fixes contents :: "'s \<Rightarrow> u8 list" and ok :: "'s \<Rightarrow> bool" and cap :: nat
    and put :: "u8 \<Rightarrow> 's \<Rightarrow> 's" and get :: "'s \<Rightarrow> u8 \<times> 's"
  assumes contents_put: "ok q \<Longrightarrow> length (contents q) < cap \<Longrightarrow> contents (put c q) = contents q @ [c]"
    and ok_put: "ok q \<Longrightarrow> length (contents q) < cap \<Longrightarrow> ok (put c q)"
    and contents_get: "ok q \<Longrightarrow> contents q \<noteq> [] \<Longrightarrow> contents q = fst (get q) # contents (snd (get q))"
    and ok_get: "ok q \<Longrightarrow> contents q \<noteq> [] \<Longrightarrow> ok (snd (get q))"
    and ok_bound: "ok q \<Longrightarrow> length (contents q) \<le> cap"
begin

fun puts_all :: "u8 list \<Rightarrow> 's \<Rightarrow> 's" where
  "puts_all [] q = q"
| "puts_all (c # cs) q = puts_all cs (put c q)"

fun gets_all :: "nat \<Rightarrow> 's \<Rightarrow> u8 list \<times> 's" where
  "gets_all 0 q = ([], q)"
| "gets_all (Suc n) q = (let (c, q) = get q; (cs, q) = gets_all n q in (c # cs, q))"

lemma puts_all_contents:
  "ok q \<Longrightarrow> length (contents q) + length cs \<le> cap \<Longrightarrow>
   contents (puts_all cs q) = contents q @ cs \<and> ok (puts_all cs q)"
proof (induction cs arbitrary: q)
  case (Cons c cs)
  then show ?case using contents_put [of q c] ok_put [of q c] by simp
qed simp

lemma gets_all_contents:
  "ok q \<Longrightarrow> n \<le> length (contents q) \<Longrightarrow>
   fst (gets_all n q) = take n (contents q) \<and> contents (snd (gets_all n q)) = drop n (contents q) \<and> ok (snd (gets_all n q))"
proof (induction n arbitrary: q)
  case (Suc n)
  then have "contents q \<noteq> []" by auto
  note g = contents_get [OF Suc.prems(1) this] ok_get [OF Suc.prems(1) this]
  have "n \<le> length (contents (snd (get q)))" using Suc.prems(2) g(1) by (metis Suc_le_mono length_Cons)
  note IH = Suc.IH [OF g(2) this]
  show ?case using IH g(1) by (auto simp: case_prod_beta Let_def)
qed simp

text \<open>First in, first out: what is put into a queue comes out behind what it held, in the same order.\<close>

lemma fifo:
  assumes "ok q" "length (contents q) + length cs \<le> cap"
  shows "fst (gets_all (length (contents q) + length cs) (puts_all cs q)) = contents q @ cs"
  using puts_all_contents [OF assms] gets_all_contents [of "puts_all cs q" "length (contents q) + length cs"] by simp

end

end
