(* ===== verification/Sched.thy ===== *)
theory Sched
  imports Proc
begin

text \<open>
  Scheduling on several harts. The functions of the process component run on any hart, one at a
  time per hart; each is atomic because it holds the lock of the process it works on. A hart is in
  the scheduler loop, in the stretch between \<open>swtch\<close> and the point where the resumed kernel thread
  releases the lock of its process, in the kernel or user code of its process, or back in the
  scheduler with the process's lock still held.
\<close>

section \<open>What the lock operations change\<close>

text \<open>\<open>same_but s t\<close>: only the harts' interrupt bookkeeping and the locks may differ.\<close>

definition same_but :: "'a machine_scheme \<Rightarrow> 'a machine_scheme \<Rightarrow> bool" where
  "same_but s t \<longleftrightarrow> mem t = mem s \<and> tp t = tp s \<and> machine.more t = machine.more s \<and>
     (\<forall>i. cproc (cpus t i) = cproc (cpus s i))"

lemma same_but_refl: "same_but s s"
  by (simp add: same_but_def)

lemma same_but_trans: "same_but s t \<Longrightarrow> same_but t u \<Longrightarrow> same_but s u"
  by (simp add: same_but_def)

lemma same_but_procs: "same_but s t \<Longrightarrow> procs t = procs (s :: 'a ptable_scheme)"
  by (cases s; cases t) (simp add: same_but_def)

lemma push_off_same: "same_but s (push_off s)"
  by (cases s) (auto simp: same_but_def lock_defs)

lemma pop_off_same: "pop_off s = Ok t \<Longrightarrow> same_but s t"
  by (cases s) (auto simp: same_but_def lock_defs split: if_splits)

lemma acquire_effect:
  assumes "acquire l s = Ok t"
  shows "same_but s t" "\<not> locked (locks s l)"
    "locks t = (locks s)(l := (locks s l)\<lparr>locked := True, lcpu := Some (tp s)\<rparr>)"
  using assms by (cases s; auto simp: same_but_def lock_defs split: if_splits)+

lemma release_effect:
  assumes "release l s = Ok t"
  shows "same_but s t" "locked (locks s l)" "lcpu (locks s l) = Some (tp s)"
    "locks t = (locks s)(l := (locks s l)\<lparr>locked := False, lcpu := None\<rparr>)"
  using assms by (cases s; auto simp: same_but_def lock_defs split: if_splits)+

lemma myproc_effect:
  assumes "myproc s = Ok (p, t)"
  shows "same_but s t" "locks t = locks s" "p = cproc (cpus s (tp s))"
proof -
  have "pop_off (push_off s) = Ok t" and p: "p = cproc (mycpu (push_off s))"
    using assms by (auto simp: myproc_def Let_def)
  then show "same_but s t" "locks t = locks s"
    using same_but_trans [OF push_off_same pop_off_same] pop_off_locks [of "push_off s" t] by auto
  show "p = cproc (cpus s (tp s))"
    using p push_off_same [of s] by (simp add: same_but_def mycpu_def cpuid_def)
qed

lemma curproc_effect:
  assumes "curproc s = Ok (p, t)"
  shows "same_but s t" "locks t = locks s" "cproc (cpus s (tp s)) = Some p"
  using assms myproc_effect [of s] by (auto simp: curproc_def split: option.splits)

lemma set_proc_simps [simp]:
  "procs (set_proc p f s) = (procs s)(p := f (procs s p))" "locks (set_proc p f s) = locks s"
  "cpus (set_proc p f s) = cpus s" "tp (set_proc p f s) = tp s" "mem (set_proc p f s) = mem s"
  by (simp_all add: set_proc_def)

lemma set_cpu_simps [simp]:
  "procs (set_cpu f s) = procs s" "locks (set_cpu f s) = locks s" "tp (set_cpu f s) = tp s" "mem (set_cpu f s) = mem s"
  "cpus (set_cpu f s) = (cpus s)(tp s := f (cpus s (tp s)))"
  by (simp_all add: set_cpu_def)

section \<open>What the scheduling functions change\<close>

text \<open>The lock of a process as the functions see it: free, or held by a hart.\<close>

definition plock :: "'a machine_scheme \<Rightarrow> nat \<Rightarrow> bool \<times> nat option" where
  "plock s p = (locked (locks s (L_proc p)), lcpu (locks s (L_proc p)))"

text \<open>
  The effect of one function on the processes, on the harts' current processes and on the process
  locks: \<open>f\<close> is applied to process \<open>p\<close>, whose lock goes to \<open>l\<close>; the running hart's current process goes to \<open>c\<close>.
\<close>

definition moves :: "'a ptable_scheme \<Rightarrow> nat \<Rightarrow> (proc \<Rightarrow> proc) \<Rightarrow> bool \<times> nat option \<Rightarrow> nat option \<Rightarrow> 'a ptable_scheme \<Rightarrow> bool" where
  "moves s p f l c t \<longleftrightarrow> procs t = (procs s)(p := f (procs s p)) \<and> plock t = (plock s)(p := l) \<and>
     (\<lambda>i. cproc (cpus t i)) = (\<lambda>i. cproc (cpus s i))(tp s := c)"

lemma pick_effect:
  assumes "scheduler_pick p s = Ok (True, t)"
  shows "moves s p (\<lambda>q. q\<lparr>pstate := RUNNING\<rparr>) (True, Some (tp s)) (Some p) t"
    "\<not> fst (plock s p)" "pstate (procs s p) = RUNNABLE"
proof -
  obtain u where u: "acquire (L_proc p) s = Ok u" "pstate (procs u p) = RUNNABLE"
      "t = set_cpu (\<lambda>c. c\<lparr>cproc := Some p\<rparr>) (set_proc p (\<lambda>q. q\<lparr>pstate := RUNNING\<rparr>) u)"
    using assms by (auto simp: scheduler_pick_def split: if_splits)
  note A = acquire_effect [OF u(1)]
  have c: "procs u = procs s" "tp u = tp s" "\<And>i. cproc (cpus u i) = cproc (cpus s i)"
    using A(1) same_but_procs [OF A(1)] by (auto simp: same_but_def)
  then show "moves s p (\<lambda>q. q\<lparr>pstate := RUNNING\<rparr>) (True, Some (tp s)) (Some p) t"
    using A(3) u(3) by (auto simp: moves_def plock_def fun_eq_iff)
  show "\<not> fst (plock s p)" "pstate (procs s p) = RUNNABLE" using A(2) u(2) c by (simp_all add: plock_def)
qed

lemma release_moves:
  assumes "release (L_proc p) s = Ok t"
  shows "moves s p (\<lambda>q. q) (False, None) (cproc (cpus s (tp s))) t"
  using release_effect [OF assms] same_but_procs [of s t] by (auto simp: moves_def plock_def fun_eq_iff same_but_def)

lemma acquire_moves:
  assumes "acquire (L_proc p) s = Ok t"
  shows "moves s p (\<lambda>q. q) (True, Some (tp s)) (cproc (cpus s (tp s))) t" "\<not> fst (plock s p)" "tp t = tp s"
  using acquire_effect [OF assms] same_but_procs [of s t] by (auto simp: moves_def plock_def fun_eq_iff same_but_def)

lemma moves_set_proc: "moves (set_proc p g s) p f l c t \<Longrightarrow> moves s p (f \<circ> g) l c t"
  by (auto simp: moves_def plock_def)

lemma moves_trans:
  "moves s p f l c t \<Longrightarrow> moves t p g l' c' u \<Longrightarrow> tp t = tp s \<Longrightarrow> moves s p (g \<circ> f) l' c' u"
  by (auto simp: moves_def fun_eq_iff)

lemma sched_effect:
  assumes "sched s = Ok (ie, t)"
  shows "\<exists>p. cproc (cpus s (tp s)) = Some p \<and> same_but s t \<and> locks t = locks s \<and>
    plock s p = (True, Some (tp s)) \<and> pstate (procs s p) \<noteq> RUNNING"
proof -
  obtain p u where u: "curproc s = Ok (p, u)" "holding (L_proc p) u" "pstate (procs u p) \<noteq> RUNNING" "t = u"
    using assms by (auto simp: sched_def split: if_splits)
  note C = curproc_effect [OF u(1)]
  then show ?thesis
    using u same_but_procs [OF C(1)] by (auto simp: holding_def cpuid_def plock_def same_but_def)
qed

lemma moves_same: "same_but s t \<Longrightarrow> plock t = plock s \<Longrightarrow> moves t p f l c u \<Longrightarrow> moves s p f l c u"
  using same_but_procs [of s t] by (auto simp: moves_def same_but_def)

lemma same_moves: "moves s p f l c t \<Longrightarrow> same_but t u \<Longrightarrow> plock u = plock t \<Longrightarrow> moves s p f l c u"
  using same_but_procs [of t u] by (auto simp: moves_def same_but_def)

text \<open>A process gives up the hart: with its lock held, its state goes from running to something else.\<close>

lemma park_effect:
  assumes "acquire (L_proc p) s = Ok u" "same_but u v" "plock v = plock u" "sched (set_proc p g v) = Ok (ie, t)"
    and "cproc (cpus s (tp s)) = Some p"
  shows "moves s p g (True, Some (tp s)) (Some p) t" "\<not> fst (plock s p)" "pstate (g (procs s p)) \<noteq> RUNNING"
proof -
  note A = acquire_moves [OF assms(1)] and B = sched_effect [OF assms(4)]
  have sb: "same_but s v" by (rule same_but_trans [OF acquire_effect(1) [OF assms(1)] assms(2)])
  have c: "procs v = procs s" "tp v = tp s" "cproc (cpus v (tp v)) = Some p"
    using sb same_but_procs [OF sb] assms(5) by (auto simp: same_but_def)
  have w: "moves v p g (plock v p) (Some p) (set_proc p g v)"
    using c(3) by (auto simp: moves_def plock_def fun_eq_iff)
  have st: "same_but (set_proc p g v) t" "plock t = plock (set_proc p g v)"
    using B by (auto simp: plock_def fun_eq_iff)
  have "moves u p g (True, Some (tp s)) (Some p) t"
    using same_moves [OF moves_same [OF assms(2,3) w] st] A(1) assms(3) by (simp add: moves_def)
  from moves_trans [OF A(1) this A(3)] show "moves s p g (True, Some (tp s)) (Some p) t" by (simp add: comp_def)
  show "\<not> fst (plock s p)" by (rule A(2))
  show "pstate (g (procs s p)) \<noteq> RUNNING" using B c by auto
qed

lemma yield_effect:
  assumes "yield s = Ok (ie, t)" "cproc (cpus s (tp s)) = Some p"
  shows "moves s p (\<lambda>q. q\<lparr>pstate := RUNNABLE\<rparr>) (True, Some (tp s)) (Some p) t" "\<not> fst (plock s p)"
proof -
  obtain p' u v where y: "curproc s = Ok (p', u)" "acquire (L_proc p') u = Ok v"
      "sched (set_proc p' (\<lambda>q. q\<lparr>pstate := RUNNABLE\<rparr>) v) = Ok (ie, t)"
    using assms(1) unfolding yield_def by (elim bind_res_OkE) (auto split: prod.splits)
  have "p' = p" using curproc_effect(3) [OF y(1)] assms(2) by simp
  note u = y [unfolded this]
  note C = curproc_effect [OF u(1)]
  have pl: "plock u = plock s" "tp u = tp s" "cproc (cpus u (tp u)) = Some p"
    using C assms(2) by (auto simp: plock_def fun_eq_iff same_but_def)
  note P = park_effect [OF u(2) same_but_refl refl u(3) pl(3)]
  then show "moves s p (\<lambda>q. q\<lparr>pstate := RUNNABLE\<rparr>) (True, Some (tp s)) (Some p) t" "\<not> fst (plock s p)"
    using moves_same [OF C(1) pl(1)] pl by simp_all
qed

lemma sleep_effect:
  assumes "sleep ch lk s = Ok (ie, t)" "cproc (cpus s (tp s)) = Some p" "\<And>q. lk \<noteq> L_proc q"
  shows "moves s p (\<lambda>q. q\<lparr>chan := Some ch, pstate := SLEEPING\<rparr>) (True, Some (tp s)) (Some p) t" "\<not> fst (plock s p)"
proof -
  obtain p' u v w where y: "curproc s = Ok (p', u)" "acquire (L_proc p') u = Ok v" "release lk v = Ok w"
      "sched (set_proc p' (\<lambda>q. q\<lparr>chan := Some ch, pstate := SLEEPING\<rparr>) w) = Ok (ie, t)"
    using assms(1) unfolding sleep_def by (elim bind_res_OkE) (auto split: prod.splits)
  have "p' = p" using curproc_effect(3) [OF y(1)] assms(2) by simp
  note u = y [unfolded this]
  note C = curproc_effect [OF u(1)] and E = release_effect [OF u(3)]
  have pl: "plock u = plock s" "tp u = tp s" "cproc (cpus u (tp u)) = Some p" "plock w = plock v"
    using C assms(2,3) E(4) by (auto simp: plock_def fun_eq_iff same_but_def)
  note P = park_effect [OF u(2) E(1) pl(4) u(4) pl(3)]
  then show "moves s p (\<lambda>q. q\<lparr>chan := Some ch, pstate := SLEEPING\<rparr>) (True, Some (tp s)) (Some p) t" "\<not> fst (plock s p)"
    using moves_same [OF C(1) pl(1)] pl by simp_all
qed

text \<open>A change made between \<open>acquire\<close> and \<open>release\<close> of a process's lock.\<close>

lemma locked_change:
  assumes "acquire (L_proc p) s = Ok u" "release (L_proc p) (set_proc p g u) = Ok t"
  shows "moves s p g (False, None) (cproc (cpus s (tp s))) t" "\<not> fst (plock s p)"
proof -
  note A = acquire_moves [OF assms(1)]
  have "moves u p g (False, None) (cproc (cpus u (tp u))) t"
    using moves_set_proc [OF release_moves [OF assms(2)]] by (simp add: comp_def)
  moreover have "cproc (cpus u (tp u)) = cproc (cpus s (tp s))"
    using acquire_effect(1) [OF assms(1)] by (simp add: same_but_def)
  ultimately show "moves s p g (False, None) (cproc (cpus s (tp s))) t"
    using moves_trans [OF A(1) _ A(3), of g] by (simp add: comp_def)
  show "\<not> fst (plock s p)" by (rule A(2))
qed

lemma wakeup_one_effect:
  assumes "wakeup_one ch q s = Ok t"
  shows "same_but s t \<and> plock t = plock s \<or> \<not> fst (plock s q) \<and> (\<exists>g. moves s q g (False, None) (cproc (cpus s (tp s))) t \<and>
    g (procs s q) = (if pstate (procs s q) = SLEEPING \<and> chan (procs s q) = Some ch
      then (procs s q)\<lparr>pstate := RUNNABLE\<rparr> else procs s q))"
proof -
  obtain me u where u: "myproc s = Ok (me, u)"
      "(if me = Some q then Ok u else bind_res (acquire (L_proc q) u) (\<lambda>s. release (L_proc q)
        (if pstate (procs s q) = SLEEPING \<and> chan (procs s q) = Some ch
         then set_proc q (\<lambda>p. p\<lparr>pstate := RUNNABLE\<rparr>) s else s))) = Ok t"
    using assms unfolding wakeup_one_def by (elim bind_res_OkE) (auto split: prod.splits)
  note M = myproc_effect [OF u(1)]
  have pl: "plock u = plock s" "procs u = procs s" "tp u = tp s" "cproc (cpus u (tp u)) = cproc (cpus s (tp s))"
    using M same_but_procs [OF M(1)] by (auto simp: plock_def fun_eq_iff same_but_def)
  show ?thesis
  proof (cases "me = Some q")
    case True
    then show ?thesis using u(2) M(1) pl(1) by simp
  next
    case False
    let ?c = "pstate (procs s q) = SLEEPING \<and> chan (procs s q) = Some ch"
    let ?g = "\<lambda>p. if ?c then p\<lparr>pstate := RUNNABLE\<rparr> else p"
    obtain v where v: "acquire (L_proc q) u = Ok v" "release (L_proc q)
        (if pstate (procs v q) = SLEEPING \<and> chan (procs v q) = Some ch
         then set_proc q (\<lambda>p. p\<lparr>pstate := RUNNABLE\<rparr>) v else v) = Ok t"
      using u(2) False by auto
    have "procs v = procs s" using same_but_procs [OF acquire_effect(1) [OF v(1)]] pl(2) by simp
    moreover have "set_proc q (\<lambda>p. p) v = v" by (simp add: set_proc_def)
    ultimately have "release (L_proc q) (set_proc q ?g v) = Ok t" using v(2) by (auto split: if_splits)
    note lc = locked_change [OF v(1) this]
    have "moves s q ?g (False, None) (cproc (cpus s (tp s))) t"
      by (rule moves_same [OF M(1) pl(1)]) (use lc(1) pl(4) in simp)
    then show ?thesis using lc(2) pl(1) by (intro disjI2 conjI exI [of _ ?g]) auto
  qed
qed

lemma kill_one_effect:
  assumes "kill_loop n [q] s = Ok (r, t)"
  shows "\<not> fst (plock s q) \<and> (\<exists>g. moves s q g (False, None) (cproc (cpus s (tp s))) t \<and>
    g (procs s q) = (if pid (procs s q) \<noteq> n then procs s q
      else if pstate (procs s q) = SLEEPING then (procs s q)\<lparr>killed := True, pstate := RUNNABLE\<rparr>
      else (procs s q)\<lparr>killed := True\<rparr>))"
proof -
  let ?g = "\<lambda>p. if pid (procs s q) \<noteq> n then p
      else if pstate (procs s q) = SLEEPING then p\<lparr>killed := True, pstate := RUNNABLE\<rparr> else p\<lparr>killed := True\<rparr>"
  obtain v where v: "acquire (L_proc q) s = Ok v" "(if pid (procs v q) = n
       then let s = set_proc q (\<lambda>q. q\<lparr>killed := True\<rparr>) v;
                s = (if pstate (procs s q) = SLEEPING then set_proc q (\<lambda>q. q\<lparr>pstate := RUNNABLE\<rparr>) s else s)
            in bind_res (release (L_proc q) s) (\<lambda>s. Ok (0, s))
       else bind_res (release (L_proc q) v) (kill_loop n [])) = Ok (r, t)"
    using assms by auto
  have p: "procs v = procs s" using same_but_procs [OF acquire_effect(1) [OF v(1)]] .
  have "set_proc q ?g v = (if pid (procs v q) = n then
      (if pstate (procs v q) = SLEEPING then set_proc q (\<lambda>q. q\<lparr>pstate := RUNNABLE\<rparr>) (set_proc q (\<lambda>q. q\<lparr>killed := True\<rparr>) v)
       else set_proc q (\<lambda>q. q\<lparr>killed := True\<rparr>) v) else v)"
    using p by (simp add: set_proc_def)
  then have "release (L_proc q) (set_proc q ?g v) = Ok t"
    using v(2) p by (auto simp: Let_def split: if_splits)
  note lc = locked_change [OF v(1) this]
  then show ?thesis by (intro conjI exI [of _ ?g]) auto
qed

section \<open>Harts and kernel threads\<close>

datatype hmode = Loop | Resume nat | Run nat | Back nat

datatype kcont = At_forkret | At_yield bool | At_sleep lockid bool | Dead

record ssys =
  ks :: ptable
  hmode :: "nat \<Rightarrow> hmode"
  cont :: "nat \<Rightarrow> kcont"

abbreviation on_hart_k :: "nat \<Rightarrow> ssys \<Rightarrow> ptable" where
  "on_hart_k i t \<equiv> (ks t)\<lparr>tp := i\<rparr>"

text \<open>
  The last rule stands for the rest of the kernel and for user code: anything that leaves the
  process table, the current processes and the process locks alone. \<open>manage\<close> stands for \<open>allocproc\<close>,
  \<open>fork\<close> and \<open>freeproc\<close>, which change a process that does not exist for the scheduler.
\<close>

inductive sched_step :: "ssys \<Rightarrow> ssys \<Rightarrow> bool" where
  pick: "hmode t i = Loop \<Longrightarrow> scheduler_pick p (on_hart_k i t) = Ok (True, s) \<Longrightarrow>
    sched_step t (t\<lparr>ks := s, hmode := (hmode t)(i := Resume p)\<rparr>)"
| resume_fork: "hmode t i = Resume p \<Longrightarrow> cont t p = At_forkret \<Longrightarrow> release (L_proc p) (on_hart_k i t) = Ok s \<Longrightarrow>
    sched_step t (t\<lparr>ks := s, hmode := (hmode t)(i := Run p)\<rparr>)"
| resume_yield: "hmode t i = Resume p \<Longrightarrow> cont t p = At_yield ie \<Longrightarrow> yield_back p ie (on_hart_k i t) = Ok s \<Longrightarrow>
    sched_step t (t\<lparr>ks := s, hmode := (hmode t)(i := Run p)\<rparr>)"
| resume_sleep: "hmode t i = Resume p \<Longrightarrow> cont t p = At_sleep lk ie \<Longrightarrow> sleep_wake p ie (on_hart_k i t) = Ok s \<Longrightarrow>
    sched_step t (t\<lparr>ks := s, hmode := (hmode t)(i := Run p)\<rparr>)"
| yield: "hmode t i = Run p \<Longrightarrow> yield (on_hart_k i t) = Ok (ie, s) \<Longrightarrow>
    sched_step t (t\<lparr>ks := s, hmode := (hmode t)(i := Back p), cont := (cont t)(p := At_yield ie)\<rparr>)"
| sleep: "hmode t i = Run p \<Longrightarrow> \<forall>q. lk \<noteq> L_proc q \<Longrightarrow> sleep ch lk (on_hart_k i t) = Ok (ie, s) \<Longrightarrow>
    sched_step t (t\<lparr>ks := s, hmode := (hmode t)(i := Back p), cont := (cont t)(p := At_sleep lk ie)\<rparr>)"
| exit: "hmode t i = Run p \<Longrightarrow> acquire (L_proc p) (on_hart_k i t) = Ok u \<Longrightarrow>
    sched (set_proc p (\<lambda>q. q\<lparr>xstate := x, pstate := ZOMBIE\<rparr>) u) = Ok (ie, s) \<Longrightarrow>
    sched_step t (t\<lparr>ks := s, hmode := (hmode t)(i := Back p), cont := (cont t)(p := Dead)\<rparr>)"
| loop: "hmode t i = Back p \<Longrightarrow> scheduler_back p (on_hart_k i t) = Ok s \<Longrightarrow>
    sched_step t (t\<lparr>ks := s, hmode := (hmode t)(i := Loop)\<rparr>)"
| wake: "hmode t i = Run p \<Longrightarrow> wakeup_one ch q (on_hart_k i t) = Ok s \<Longrightarrow> sched_step t (t\<lparr>ks := s\<rparr>)"
| kill: "hmode t i = Run p \<Longrightarrow> kill_loop n [q] (on_hart_k i t) = Ok (r, s) \<Longrightarrow> sched_step t (t\<lparr>ks := s\<rparr>)"
| manage: "hmode t i = Run p \<Longrightarrow> pstate (procs (ks t) q) \<in> {UNUSED, USED, ZOMBIE} \<Longrightarrow> pstate r \<in> {UNUSED, USED, RUNNABLE} \<Longrightarrow>
    acquire (L_proc q) (on_hart_k i t) = Ok u \<Longrightarrow> release (L_proc q) (set_proc q (\<lambda>_. r) u) = Ok s \<Longrightarrow>
    sched_step t (t\<lparr>ks := s, cont := (cont t)(q := At_forkret)\<rparr>)"
| other: "hmode t i = Run p \<Longrightarrow> procs s = procs (ks t) \<Longrightarrow> plock s = plock (ks t) \<Longrightarrow>
    (\<forall>j. cproc (cpus s j) = cproc (cpus (ks t) j)) \<Longrightarrow> sched_step t (t\<lparr>ks := s\<rparr>)"

definition sched_start :: "ssys \<Rightarrow> bool" where
  "sched_start t \<longleftrightarrow> (\<forall>i. hmode t i = Loop \<and> cproc (cpus (ks t) i) = None) \<and>
     (\<forall>p. pstate (procs (ks t) p) \<noteq> RUNNING)"

inductive sched_reachable :: "ssys \<Rightarrow> bool" where
  start: "sched_start t \<Longrightarrow> sched_reachable t"
| step: "sched_reachable t \<Longrightarrow> sched_step t u \<Longrightarrow> sched_reachable u"

section \<open>The invariant\<close>

definition on_cpu :: "hmode \<Rightarrow> nat option" where
  "on_cpu h = (case h of Loop \<Rightarrow> None | Resume p \<Rightarrow> Some p | Run p \<Rightarrow> Some p | Back p \<Rightarrow> Some p)"

definition sched_inv :: "ssys \<Rightarrow> bool" where
  "sched_inv t \<longleftrightarrow>
     (\<forall>i. cproc (cpus (ks t) i) = on_cpu (hmode t i)) \<and>
     (\<forall>i j p. on_cpu (hmode t i) = Some p \<and> on_cpu (hmode t j) = Some p \<longrightarrow> i = j) \<and>
     (\<forall>i p. hmode t i \<in> {Resume p, Back p} \<longrightarrow> plock (ks t) p = (True, Some i)) \<and>
     (\<forall>p. pstate (procs (ks t) p) = RUNNING \<longleftrightarrow> (\<exists>i. hmode t i \<in> {Resume p, Run p}))"

lemma sched_invD:
  assumes "sched_inv t"
  shows "cproc (cpus (ks t) i) = on_cpu (hmode t i)"
    "on_cpu (hmode t i) = Some p \<Longrightarrow> on_cpu (hmode t j) = Some p \<Longrightarrow> i = j"
    "hmode t i \<in> {Resume p, Back p} \<Longrightarrow> plock (ks t) p = (True, Some i)"
    "pstate (procs (ks t) p) = RUNNING \<longleftrightarrow> (\<exists>i. hmode t i \<in> {Resume p, Run p})"
  using assms unfolding sched_inv_def by blast+

text \<open>
  One lemma for all steps of a hart \<open>i\<close> that change process \<open>p\<close> and its lock, the mode of the hart and its
  current process: the new mode agrees with the new state of the process and of its lock, and
  nobody else has the process or holds its lock.
\<close>

lemma inv_moves:
  assumes inv: "sched_inv t" and mv: "moves (on_hart_k i t) p f l c s"
    and c: "c = on_cpu h" and old: "on_cpu (hmode t i) \<in> {None, Some p}" and new: "on_cpu h \<in> {None, Some p}"
    and others: "\<And>j. j \<noteq> i \<Longrightarrow> on_cpu (hmode t j) \<noteq> Some p"
    and lk: "h \<in> {Resume p, Back p} \<Longrightarrow> l = (True, Some i)"
    and st: "pstate (f (procs (ks t) p)) = RUNNING \<longleftrightarrow> h \<in> {Resume p, Run p}"
  shows "sched_inv (t\<lparr>ks := s, hmode := (hmode t)(i := h)\<rparr>)"
proof -
  note I = sched_invD [OF inv]
  have m: "procs s = (procs (ks t))(p := f (procs (ks t) p))" "plock s = (plock (ks t))(p := l)"
    "\<And>j. cproc (cpus s j) = (if j = i then c else cproc (cpus (ks t) j))"
    using mv by (auto simp: moves_def plock_def fun_eq_iff)
  have h: "h = Loop \<or> h \<in> {Resume p, Run p, Back p}" using new by (cases h) (auto simp: on_cpu_def)
  have o: "hmode t i = Loop \<or> hmode t i \<in> {Resume p, Run p, Back p}" using old by (cases "hmode t i") (auto simp: on_cpu_def)
  have np: "hmode t j \<notin> {Resume p, Run p, Back p}" if "j \<noteq> i" for j using others [OF that] by (auto simp: on_cpu_def)
  show ?thesis
    unfolding sched_inv_def
  proof (intro conjI allI impI, goal_cases)
    case (1 j)
    then show ?case using m(3) [of j] c I(1) [of j] by simp
  next
    case (2 j j' q)
    then show ?case using others [of j] others [of j'] new I(2) [of j q j'] by (auto split: if_splits)
  next
    case (3 j q)
    then show ?case using m(2) h lk np [of j] I(3) [of j q] by (auto split: if_splits)
  next
    case (4 q)
    show ?case
    proof (cases "q = p")
      case True
      then show ?thesis using m(1) st np by auto
    next
      case False
      then have hq: "h \<notin> {Resume q, Run q}" "hmode t i \<notin> {Resume q, Run q}" using h o by auto
      then have "(\<exists>j. ((hmode t)(i := h)) j \<in> {Resume q, Run q}) \<longleftrightarrow> (\<exists>j. hmode t j \<in> {Resume q, Run q})"
        by (metis fun_upd_apply)
      then show ?thesis using False m(1) I(4) [of q] by simp
    qed
  qed
qed

lemma inv_cont [simp]: "sched_inv (t\<lparr>cont := c\<rparr>) = sched_inv t"
  by (simp add: sched_inv_def)

text \<open>A hart changes a process it does not run, whose lock was free.\<close>

lemma inv_touch:
  assumes inv: "sched_inv t" and mv: "moves (on_hart_k i t) q g (False, None) (cproc (cpus (ks t) i)) s"
    and free: "\<not> fst (plock (ks t) q)" and st: "pstate (g (procs (ks t) q)) = RUNNING \<longleftrightarrow> pstate (procs (ks t) q) = RUNNING"
  shows "sched_inv (t\<lparr>ks := s\<rparr>)"
proof -
  note I = sched_invD [OF inv]
  have m: "procs s = (procs (ks t))(q := g (procs (ks t) q))" "plock s = (plock (ks t))(q := (False, None))"
    "\<And>j. cproc (cpus s j) = cproc (cpus (ks t) j)"
    using mv by (auto simp: moves_def plock_def fun_eq_iff)
  have nq: "hmode t j \<notin> {Resume q, Back q}" for j using I(3) [of j q] free by auto
  show ?thesis
    unfolding sched_inv_def
  proof (intro conjI allI impI, goal_cases)
    case (3 j r)
    then show ?case using m(2) I(3) [of j r] nq [of j] by auto
  next
    case (4 r)
    show ?case using m(1) I(4) [of r] st by (cases "r = q") simp_all
  qed (use m(3) I(1,2) in auto)
qed

lemma hart_facts:
  assumes inv: "sched_inv t" and h: "hmode t i \<in> {Resume p, Run p, Back p}"
  shows "cproc (cpus (on_hart_k i t) (tp (on_hart_k i t))) = Some p" "\<And>j. j \<noteq> i \<Longrightarrow> on_cpu (hmode t j) \<noteq> Some p"
    "plock (on_hart_k i t) = plock (ks t)" "tp (on_hart_k i t) = i"
  using sched_invD(1) [OF inv, of i] sched_invD(2) [OF inv, of i p] h by (auto simp: on_cpu_def plock_def fun_eq_iff)

lemma inv_resume:
  assumes inv: "sched_inv t" and h: "hmode t i = Resume p" and mv: "moves (on_hart_k i t) p f (False, None) (Some p) s"
    and f: "pstate (f (procs (ks t) p)) = pstate (procs (ks t) p)"
  shows "sched_inv (t\<lparr>ks := s, hmode := (hmode t)(i := Run p)\<rparr>)"
  by (rule inv_moves [OF inv mv]) (use h f hart_facts [OF inv, of i p] sched_invD(4) [OF inv, of p] in \<open>auto simp: on_cpu_def\<close>)

lemma inv_park:
  assumes inv: "sched_inv t" and h: "hmode t i = Run p" and mv: "moves (on_hart_k i t) p f (True, Some i) (Some p) s"
    and f: "pstate (f (procs (ks t) p)) \<noteq> RUNNING"
  shows "sched_inv (t\<lparr>ks := s, hmode := (hmode t)(i := Back p)\<rparr>)"
  by (rule inv_moves [OF inv mv]) (use h f hart_facts [OF inv, of i p] in \<open>auto simp: on_cpu_def\<close>)

lemma sched_back_same: "same_but s (sched_back ie s)" "plock (sched_back ie s) = plock s"
  by (auto simp: same_but_def sched_back_def set_cpu_def plock_def fun_eq_iff)

lemma resume_moves:
  assumes "release (L_proc p) (set_proc p g (sched_back ie s)) = Ok t" "cproc (cpus s (tp s)) = Some p"
  shows "moves s p g (False, None) (Some p) t"
proof -
  have "cproc (cpus (sched_back ie s) (tp (sched_back ie s))) = Some p"
    using sched_back_same(1) [of s ie] assms(2) by (simp add: same_but_def)
  then have "moves (sched_back ie s) p g (False, None) (Some p) t"
    using moves_set_proc [OF release_moves [OF assms(1)]] by (simp add: comp_def)
  then show ?thesis by (rule moves_same [OF sched_back_same])
qed

lemma sched_step_inv:
  assumes "sched_step t u" and inv: "sched_inv t"
  shows "sched_inv u"
  using assms(1)
proof cases
  case (pick i p s)
  note E = pick_effect [OF pick(3)]
  have "on_cpu (hmode t j) \<noteq> Some p" for j
    using E(2,3) sched_invD(3) [OF inv, of j p] sched_invD(4) [OF inv, of p]
    by (auto simp: on_cpu_def plock_def split: hmode.splits)
  then show ?thesis unfolding pick(1)
    by (intro inv_moves [OF inv E(1)]) (use pick(2) in \<open>auto simp: on_cpu_def\<close>)
next
  case (resume_fork i p s)
  show ?thesis unfolding resume_fork(1)
    by (rule inv_resume [OF inv resume_fork(2)])
      (use release_moves [OF resume_fork(4)] hart_facts(1) [OF inv, of i p] resume_fork(2) in auto)
next
  case (resume_yield i p ie s)
  have "release (L_proc p) (set_proc p (\<lambda>q. q) (sched_back ie (on_hart_k i t))) = Ok s"
    using resume_yield(4) by (simp add: yield_back_def set_proc_def)
  from resume_moves [OF this] show ?thesis unfolding resume_yield(1)
    using hart_facts(1) [OF inv, of i p] resume_yield(2) by (intro inv_resume [OF inv resume_yield(2)]) auto
next
  case (resume_sleep i p lk ie s)
  then show ?thesis unfolding resume_sleep(1)
    using resume_moves [OF resume_sleep(4) [unfolded sleep_wake_def]] hart_facts(1) [OF inv, of i p]
    by (intro inv_resume [OF inv resume_sleep(2), where f = "\<lambda>q. q\<lparr>chan := None\<rparr>"]) auto
next
  case (yield i p ie s)
  then show ?thesis unfolding yield(1)
    using yield_effect(1) [OF yield(3)] hart_facts [OF inv, of i p] inv_park [OF inv yield(2)] by auto
next
  case (sleep i p lk ch ie s)
  then show ?thesis unfolding sleep(1)
    using sleep_effect(1) [OF sleep(4)] hart_facts [OF inv, of i p] inv_park [OF inv sleep(2)] by auto
next
  case (exit i p u x ie s)
  then show ?thesis unfolding exit(1)
    using park_effect(1) [OF exit(3) same_but_refl refl exit(4)] hart_facts [OF inv, of i p] inv_park [OF inv exit(2)] by auto
next
  case (loop i p s)
  have "moves (on_hart_k i t) p (\<lambda>q. q) (False, None) None s"
    using release_moves [OF loop(3) [unfolded scheduler_back_def]] by (auto simp: moves_def plock_def fun_eq_iff)
  moreover have only: "on_cpu (hmode t j) \<noteq> Some p" if "j \<noteq> i" for j using hart_facts(2) [OF inv, of i p j] loop(2) that by simp
  moreover have "hmode t j \<notin> {Resume p, Run p}" for j
    using only [of j] loop(2) by (cases "j = i") (auto simp: on_cpu_def)
  ultimately show ?thesis unfolding loop(1)
    using loop(2) sched_invD(4) [OF inv, of p] by (intro inv_moves [OF inv]) (auto simp: on_cpu_def)
next
  case (wake i p ch q s)
  show ?thesis
    using wakeup_one_effect [OF wake(3)]
  proof
    assume "same_but (on_hart_k i t) s \<and> plock s = plock (on_hart_k i t)"
    then have "procs s = procs (ks t)" "plock s = plock (ks t)" "\<And>j. cproc (cpus s j) = cproc (cpus (ks t) j)"
      using same_but_procs [of "on_hart_k i t" s] by (auto simp: same_but_def plock_def fun_eq_iff)
    then show ?thesis using inv by (simp add: wake(1) sched_inv_def)
  qed (use inv_touch [OF inv] in \<open>auto simp: wake(1) plock_def split: if_splits\<close>)
next
  case (kill i p n q r s)
  then show ?thesis using kill_one_effect [OF kill(3)] inv_touch [OF inv] by (auto simp: plock_def split: if_splits)
next
  case (manage i p q r u s)
  have "sched_inv (t\<lparr>ks := s\<rparr>)"
    by (rule inv_touch [OF inv, where i = i and q = q and g = "\<lambda>_. r"]) (use locked_change [OF manage(5,6)] manage(3,4) in \<open>auto simp: plock_def\<close>)
  then show ?thesis unfolding manage(1) by simp
next
  case (other i p s)
  then show ?thesis using inv by (simp add: sched_inv_def)
qed

lemma sched_reachable_inv: "sched_reachable t \<Longrightarrow> sched_inv t"
proof (induction rule: sched_reachable.induct)
  case (start t)
  then show ?case by (simp add: sched_start_def sched_inv_def on_cpu_def)
next
  case (step t u)
  then show ?case using sched_step_inv by blast
qed

section \<open>Waking up\<close>

lemma masked_once_procs [simp]:
  "procs (masked_once s) = procs s" "nextpid (masked_once s) = nextpid s" "initproc (masked_once s) = initproc s"
  "ticks (masked_once s) = ticks s"
  by (simp_all add: masked_once_def lock_defs)

lemma enter_state_procs [simp]: "procs (enter_state l s) = procs s"
  by (simp add: enter_state_def lock_defs)

lemma cproc_masked [simp]: "cproc (mycpu (masked_once s)) = cproc (mycpu s)"
  by (simp add: masked_once_def lock_defs)

lemma myproc_free: "cpu_ok s \<Longrightarrow> myproc s = Ok (cproc (mycpu s), masked_once s)"
  using pop_off_nested_1 [of s] push_off_nested [of s] push_off_same [of s]
  by (simp add: myproc_def Let_def same_but_def mycpu_def cpuid_def)

lemma curproc_free: "cpu_ok s \<Longrightarrow> cproc (mycpu s) = Some p \<Longrightarrow> curproc s = Ok (p, masked_once s)"
  by (simp add: curproc_def myproc_free)

definition woken :: "chanid \<Rightarrow> nat option \<Rightarrow> nat set \<Rightarrow> (nat \<Rightarrow> proc) \<Rightarrow> nat \<Rightarrow> proc" where
  "woken ch me A ps = (\<lambda>p. if p \<in> A \<and> me \<noteq> Some p \<and> pstate (ps p) = SLEEPING \<and> chan (ps p) = Some ch
     then (ps p)\<lparr>pstate := RUNNABLE\<rparr> else ps p)"

lemma woken_none [simp]: "woken ch (Some p) {p} ps = ps" "woken ch me {} ps = ps"
  by (auto simp: woken_def fun_eq_iff)

lemma procs_upd_same: "procs s = ps \<Longrightarrow> s\<lparr>procs := ps\<rparr> = s" for s :: "'a ptable_scheme"
  by (cases s) simp

lemma wakeup_one_free:
  assumes "cpu_ok s" "lock_free (L_proc p) s"
  shows "wakeup_one ch p s = Ok ((masked_once s)\<lparr>procs := woken ch (cproc (mycpu s)) {p} (procs s)\<rparr>)"
proof -
  let ?f = "\<lambda>s. if pstate (procs s p) = SLEEPING \<and> chan (procs s p) = Some ch
      then set_proc p (\<lambda>q. q\<lparr>pstate := RUNNABLE\<rparr>) s else s"
  have "release (L_proc p) (?f (enter_state (L_proc p) (masked_once s))) = Ok (?f (masked_once (masked_once s)))"
    by (rule critical_section) (use assms in \<open>simp_all add: set_proc_def\<close>)
  moreover have "cproc (mycpu s) \<noteq> Some p \<Longrightarrow> ?f (masked_once s) = (masked_once s)\<lparr>procs := woken ch (cproc (mycpu s)) {p} (procs s)\<rparr>"
    by (auto simp: woken_def set_proc_def fun_eq_iff)
  moreover have "cproc (mycpu s) = Some p \<Longrightarrow> masked_once s = (masked_once s)\<lparr>procs := woken ch (cproc (mycpu s)) {p} (procs s)\<rparr>"
    by (simp add: procs_upd_same)
  ultimately show ?thesis
    using myproc_free [OF assms(1)] acquire_free [of "L_proc p" "masked_once s"] assms(2)
    unfolding wakeup_one_def by (cases "cproc (mycpu s) = Some p") (simp_all cong: if_cong)
qed

lemma woken_woken: "woken ch me B (woken ch me A ps) = woken ch me (A \<union> B) ps"
  by (auto simp: woken_def fun_eq_iff)

lemma wakeup_loop_free:
  assumes "cpu_ok s" "\<And>p. p \<in> set ps \<Longrightarrow> lock_free (L_proc p) s"
  shows "wakeup_loop ch ps (masked_once s) = Ok ((masked_once s)\<lparr>procs := woken ch (cproc (mycpu s)) (set ps) (procs s)\<rparr>)"
  using assms
proof (induction ps arbitrary: s)
  case Nil
  then show ?case by (simp add: procs_upd_same)
next
  case (Cons p ps)
  let ?u = "s\<lparr>procs := woken ch (cproc (mycpu s)) {p} (procs s)\<rparr>"
  have m: "masked_once ?u = (masked_once s)\<lparr>procs := woken ch (cproc (mycpu s)) {p} (procs s)\<rparr>"
    by (simp add: masked_once_def lock_defs)
  have u: "cpu_ok ?u" "cproc (mycpu ?u) = cproc (mycpu s)" using Cons.prems(1) by (simp_all add: cpu_ok_def mycpu_def cpuid_def)
  have "wakeup_one ch p (masked_once s) = Ok (masked_once ?u)"
    using wakeup_one_free [of "masked_once s" p ch] Cons.prems by (simp add: m)
  moreover have "wakeup_loop ch ps (masked_once ?u)
      = Ok ((masked_once ?u)\<lparr>procs := woken ch (cproc (mycpu ?u)) (set ps) (procs ?u)\<rparr>)"
    using Cons.prems(2) u(1) by (intro Cons.IH) (simp_all add: lock_free_def)
  ultimately show ?case by (simp add: m u(2) woken_woken)
qed

text \<open>With the process locks free, \<open>wakeup\<close> makes every other process that sleeps on the channel runnable, and does nothing else.\<close>

lemma wakeup_free:
  assumes "cpu_ok s" "\<And>p. p < NPROC \<Longrightarrow> lock_free (L_proc p) s"
  shows "wakeup ch s = Ok ((masked_once s)\<lparr>procs := woken ch (cproc (mycpu s)) {..<NPROC} (procs s)\<rparr>)"
proof -
  let ?u = "s\<lparr>procs := woken ch (cproc (mycpu s)) {0} (procs s)\<rparr>"
  have m: "masked_once ?u = (masked_once s)\<lparr>procs := woken ch (cproc (mycpu s)) {0} (procs s)\<rparr>"
    by (simp add: masked_once_def lock_defs)
  have u: "cpu_ok ?u" "cproc (mycpu ?u) = cproc (mycpu s)" using assms(1) by (simp_all add: cpu_ok_def mycpu_def cpuid_def)
  have n: "0 < NPROC" by (simp add: NPROC_def)
  have "wakeup_one ch 0 s = Ok (masked_once ?u)" using wakeup_one_free [of s 0 ch] assms n by (simp add: m)
  moreover have "wakeup_loop ch [1..<NPROC] (masked_once ?u)
      = Ok ((masked_once ?u)\<lparr>procs := woken ch (cproc (mycpu ?u)) (set [1..<NPROC]) (procs ?u)\<rparr>)"
    using assms(2) u(1) by (intro wakeup_loop_free) (simp_all add: lock_free_def)
  moreover have "insert 0 {Suc 0..<NPROC} = {..<NPROC}" using n by auto
  ultimately show ?thesis by (simp add: wakeup_def upt_conv_Cons [OF n] m u(2) woken_woken)
qed

section \<open>Properties\<close>


definition idle_proc :: proc where
  "idle_proc = \<lparr>pstate = RUNNABLE, chan = None, killed = False, xstate = 0, pid = 1, parent = None, kstack = 0, psz = 0,
     pagetable = 0, trapframe = 0, pcontext = \<lparr>ra = 0, sp = 0, s_regs = []\<rparr>, ofile = replicate 16 None, cwd = None,
     pname = replicate 16 0\<rparr>"

definition idle_ptable :: ptable where
  "idle_ptable = \<lparr>mem = (\<lambda>_. 0), tp = 0, cpus = (\<lambda>_. \<lparr>noff = 0, intena = False, sie = True, cproc = None\<rparr>),
     locks = (\<lambda>_. \<lparr>locked = False, lname = [], lcpu = None\<rparr>), freelist = 0, ref_count = (\<lambda>_. 0), kend = 0x80022000,
     kernel_pagetable = 0, etext = 0, trampoline = 0, satp = (\<lambda>_. 0),
     procs = (\<lambda>_. idle_proc), nextpid = 2, initproc = None, forkret_addr = 0, ticks = 0\<rparr>"


lemma wakeup_one_waits:
  assumes "plock s p = (True, Some j)" "j \<noteq> tp s" "cproc (cpus s (tp s)) \<noteq> Some p"
  shows "wakeup_one ch p s \<noteq> Ok x"
proof
  assume "wakeup_one ch p s = Ok x"
  then obtain me u where m: "myproc s = Ok (me, u)" and
      w: "(if me = Some p then Ok u else bind_res (acquire (L_proc p) u) (\<lambda>s. release (L_proc p)
        (if pstate (procs s p) = SLEEPING \<and> chan (procs s p) = Some ch
         then set_proc p (\<lambda>q. q\<lparr>pstate := RUNNABLE\<rparr>) s else s))) = Ok x"
    unfolding wakeup_one_def by (elim bind_res_OkE) auto
  note M = myproc_effect [OF m]
  have "me \<noteq> Some p" using M assms(3) by simp
  with w obtain v where "acquire (L_proc p) u = Ok v" by (auto elim!: bind_res_OkE)
  then have "\<not> fst (plock u p)" by (rule acquire_moves(2))
  then show False using M assms(1) by (simp add: plock_def)
qed


definition sleepy_ptable :: ptable where
  "sleepy_ptable = enter_state L_tickslock (idle_ptable\<lparr>
     cpus := (cpus idle_ptable)(0 := \<lparr>noff = 0, intena = False, sie = True, cproc = Some 5\<rparr>),
     procs := (procs idle_ptable)(5 := idle_proc\<lparr>pstate := RUNNING\<rparr>)\<rparr>)"


end
