(* ===== verification/Uart.thy ===== *)
theory Uart
  imports Ring Sched
begin

unbundle bit_operations_syntax

text \<open>
  The driver of the 16550a UART, \<^verbatim>\<open>kernel/uart.c\<close>, and the device it drives. Of the device the state holds the
  control registers, the bytes received and not yet read, the bytes sent so far, and how many more bytes the
  transmitter takes before its idle bit goes off. While a hart polls the line status register the device
  makes progress: it drains its transmitter.

  The transmit buffer is a byte queue. No byte is lost, doubled or reordered between \<open>uartputc\<close> and the wire.
\<close>

section \<open>State\<close>

record uart = ptable +
  uart_lcr :: u8
  uart_ier :: u8
  uart_fcr :: u8
  uart_dll :: u8
  uart_dlm :: u8
  uart_rx :: "u8 list"
  uart_out :: "u8 list"
  uart_room :: nat
  uart_fifo :: nat
  uart_tx_buf :: "u8 list"
  uart_tx_w :: u64
  uart_tx_r :: u64
  panicked :: bool
  pr_locking :: bool

section \<open>Registers\<close>

definition RHR :: nat where "RHR = 0"
definition THR :: nat where "THR = 0"
definition IER :: nat where "IER = 1"
definition IER_RX_ENABLE :: u8 where "IER_RX_ENABLE = push_bit 0 1"
definition IER_TX_ENABLE :: u8 where "IER_TX_ENABLE = push_bit 1 1"
definition FCR :: nat where "FCR = 2"
definition FCR_FIFO_ENABLE :: u8 where "FCR_FIFO_ENABLE = push_bit 0 1"
definition FCR_FIFO_CLEAR :: u8 where "FCR_FIFO_CLEAR = push_bit 1 3"
definition LCR :: nat where "LCR = 3"
definition LCR_EIGHT_BITS :: u8 where "LCR_EIGHT_BITS = push_bit 0 3"
definition LCR_BAUD_LATCH :: u8 where "LCR_BAUD_LATCH = push_bit 7 1"
definition LSR :: nat where "LSR = 5"
definition LSR_RX_READY :: u8 where "LSR_RX_READY = push_bit 0 1"
definition LSR_TX_IDLE :: u8 where "LSR_TX_IDLE = push_bit 5 1"
definition UART_TX_BUF_SIZE :: nat where "UART_TX_BUF_SIZE = 32"

lemmas uart_consts = RHR_def THR_def IER_def IER_RX_ENABLE_def IER_TX_ENABLE_def FCR_def FCR_FIFO_ENABLE_def
  FCR_FIFO_CLEAR_def LCR_def LCR_EIGHT_BITS_def LCR_BAUD_LATCH_def LSR_def LSR_RX_READY_def LSR_TX_IDLE_def

definition ReadReg :: "nat \<Rightarrow> 'a uart_scheme \<Rightarrow> u8 \<times> 'a uart_scheme" where
  "ReadReg reg s =
     (if reg = LSR
      then ((if uart_rx s \<noteq> [] then LSR_RX_READY else 0) OR (if 0 < uart_room s then LSR_TX_IDLE else 0), s)
      else if reg = RHR then (case uart_rx s of [] \<Rightarrow> (0, s) | b # bs \<Rightarrow> (b, s\<lparr>uart_rx := bs\<rparr>))
      else if reg = IER then (uart_ier s, s)
      else if reg = LCR then (uart_lcr s, s)
      else (0, s))"

text \<open>While the baud latch is set, registers 0 and 1 are the divisor.\<close>

definition WriteReg :: "nat \<Rightarrow> u8 \<Rightarrow> 'a uart_scheme \<Rightarrow> 'a uart_scheme" where
  "WriteReg reg v s =
     (if reg = LCR then s\<lparr>uart_lcr := v\<rparr>
      else if reg = FCR then s\<lparr>uart_fcr := v, uart_rx := (if bit v 1 then [] else uart_rx s)\<rparr>
      else if bit (uart_lcr s) 7 \<and> reg = 0 then s\<lparr>uart_dll := v\<rparr>
      else if bit (uart_lcr s) 7 \<and> reg = 1 then s\<lparr>uart_dlm := v\<rparr>
      else if reg = THR then s\<lparr>uart_out := uart_out s @ [v], uart_room := uart_room s - 1\<rparr>
      else if reg = IER then s\<lparr>uart_ier := v\<rparr>
      else s)"

section \<open>Operations\<close>

definition uartinit :: "'a uart_scheme \<Rightarrow> 'a uart_scheme" where
  "uartinit s =
     (let s = WriteReg IER 0x00 s;
          s = WriteReg LCR LCR_BAUD_LATCH s;
          s = WriteReg 0 0x03 s;
          s = WriteReg 1 0x00 s;
          s = WriteReg LCR LCR_EIGHT_BITS s;
          s = WriteReg FCR (FCR_FIFO_ENABLE OR FCR_FIFO_CLEAR) s;
          s = WriteReg IER (IER_TX_ENABLE OR IER_RX_ENABLE) s
      in initlock L_uart_tx ''uart'' s)"

text \<open>Every round of \<open>uartstart\<close> takes a byte out of the buffer, so that as many rounds as there are bytes are enough.\<close>

fun uartstart_loop :: "nat \<Rightarrow> 'a uart_scheme \<Rightarrow> 'a uart_scheme res" where
  "uartstart_loop n s =
     (if uart_tx_w s = uart_tx_r s then Ok s
      else if fst (ReadReg LSR s) AND LSR_TX_IDLE = 0 then Ok s
      else case n of 0 \<Rightarrow> OutOfFuel
        | Suc n \<Rightarrow>
            let c = uart_tx_buf s ! (unat (uart_tx_r s) mod UART_TX_BUF_SIZE);
                s = s\<lparr>uart_tx_r := uart_tx_r s + 1\<rparr>
            in bind_res (wakeup Ch_uart s) (\<lambda>s. uartstart_loop n (WriteReg THR c s)))"

definition uartstart :: "'a uart_scheme \<Rightarrow> 'a uart_scheme res" where
  "uartstart s = uartstart_loop UART_TX_BUF_SIZE s"

definition uart_tx_put :: "u8 \<Rightarrow> 'a uart_scheme \<Rightarrow> 'a uart_scheme" where
  "uart_tx_put c s =
     s\<lparr>uart_tx_buf := (uart_tx_buf s)[unat (uart_tx_w s) mod UART_TX_BUF_SIZE := c], uart_tx_w := uart_tx_w s + 1\<rparr>"

text \<open>The body of the loop of \<open>uartputc\<close>, with the lock held; it is entered again after the sleep.\<close>

definition uartputc_body :: "int \<Rightarrow> 'a uart_scheme \<Rightarrow> (unit, 'a uart_scheme) io res" where
  "uartputc_body c s =
     (if uart_tx_w s = uart_tx_r s + of_nat UART_TX_BUF_SIZE then Ok (Block () s)
      else bind_res (uartstart (uart_tx_put (of_int c) s)) (\<lambda>s.
             bind_res (release L_uart_tx s) (\<lambda>s. Ok (Done () s))))"

definition uartputc :: "int \<Rightarrow> 'a uart_scheme \<Rightarrow> (unit, 'a uart_scheme) io res" where
  "uartputc c s =
     bind_res (acquire L_uart_tx s) (\<lambda>s.
       if panicked s then Spin else uartputc_body c s)"

definition uart_poll :: "'a uart_scheme \<Rightarrow> 'a uart_scheme res" where
  "uart_poll s =
     (if fst (ReadReg LSR s) AND LSR_TX_IDLE \<noteq> 0 then Ok s
      else if uart_fifo s = 0 then Spin
      else Ok (s\<lparr>uart_room := uart_fifo s\<rparr>))"

definition uartputc_sync :: "int \<Rightarrow> 'a uart_scheme \<Rightarrow> 'a uart_scheme res" where
  "uartputc_sync c s =
     (let s = push_off s in
      if panicked s then Spin
      else bind_res (uart_poll s) (\<lambda>s. pop_off (WriteReg THR (of_int c) s)))"

definition uartgetc :: "'a uart_scheme \<Rightarrow> int \<times> 'a uart_scheme" where
  "uartgetc s =
     (if fst (ReadReg LSR s) AND 0x01 \<noteq> 0
      then let (c, s) = ReadReg RHR s in (uint c, s)
      else (-1, s))"

section \<open>The transmit queue\<close>

definition tx_queue :: "'a uart_scheme \<Rightarrow> u8 list" where
  "tx_queue s = ring (uart_tx_buf s) (uart_tx_r s) (uart_tx_w s)"

definition tx_ok :: "'a uart_scheme \<Rightarrow> bool" where
  "tx_ok s \<longleftrightarrow> ring_ok UART_TX_BUF_SIZE (uart_tx_buf s) (uart_tx_r s) (uart_tx_w s)"

definition uart_tx_get :: "'a uart_scheme \<Rightarrow> u8 \<times> 'a uart_scheme" where
  "uart_tx_get s = (uart_tx_buf s ! (unat (uart_tx_r s) mod UART_TX_BUF_SIZE), s\<lparr>uart_tx_r := uart_tx_r s + 1\<rparr>)"

lemma tx_size: "UART_TX_BUF_SIZE dvd 2 ^ LENGTH(64)" "UART_TX_BUF_SIZE < 2 ^ LENGTH(64)"
  by (simp_all add: UART_TX_BUF_SIZE_def)

interpretation tx: byte_queue tx_queue tx_ok UART_TX_BUF_SIZE uart_tx_put uart_tx_get
proof (unfold_locales, goal_cases)
  case (1 q c)
  then show ?case using tx_size by (simp add: tx_queue_def tx_ok_def uart_tx_put_def ring_push)
next
  case (2 q c)
  then show ?case using tx_size by (simp add: tx_queue_def tx_ok_def uart_tx_put_def ring_ok_push)
next
  case (3 q)
  then show ?case
    by (simp add: tx_queue_def tx_ok_def uart_tx_get_def ring_empty_iff ring_pop ring_ok_def)
next
  case (4 q)
  then show ?case by (simp add: tx_queue_def tx_ok_def uart_tx_get_def ring_empty_iff ring_ok_pop)
next
  case (5 q)
  then show ?case by (simp add: tx_queue_def tx_ok_def ring_ok_def)
qed

section \<open>Sending\<close>

text \<open>Inside a critical section \<open>wakeup\<close> changes the process table and nothing else.\<close>

lemma masked_once_inside: "noff (mycpu s) \<noteq> 0 \<Longrightarrow> masked_once s = s"
  by (simp add: masked_once_def)

lemma wakeup_inside:
  assumes "cpu_ok s" "noff (mycpu s) \<noteq> 0" "\<And>p. p < NPROC \<Longrightarrow> lock_free (L_proc p) s"
  shows "wakeup ch s = Ok (s\<lparr>procs := woken ch (cproc (mycpu s)) {..<NPROC} (procs s)\<rparr>)"
  using wakeup_free [OF assms(1,3), of ch] by (simp add: masked_once_inside [OF assms(2)])

lemma LSR_reads [simp]:
  "fst (ReadReg LSR s) AND LSR_TX_IDLE = 0 \<longleftrightarrow> uart_room s = 0"
  "fst (ReadReg LSR s) AND 1 = 0 \<longleftrightarrow> uart_rx s = []"
  by (auto simp: ReadReg_def uart_consts)

lemma write_THR:
  "\<not> bit (uart_lcr s) 7 \<Longrightarrow> WriteReg THR c s = s\<lparr>uart_out := uart_out s @ [c], uart_room := uart_room s - 1\<rparr>"
  by (simp add: WriteReg_def uart_consts)

declare uartstart_loop.simps [simp del]

text \<open>What one call of \<open>uartstart\<close> does: bytes move from the front of the queue to the wire until one of them is used up.\<close>

definition drained :: "'a uart_scheme \<Rightarrow> 'a uart_scheme \<Rightarrow> bool" where
  "drained s t \<longleftrightarrow> uart_out t @ tx_queue t = uart_out s @ tx_queue s \<and> tx_ok t \<and> (tx_queue t = [] \<or> uart_room t = 0) \<and>
     t = s\<lparr>uart_tx_r := uart_tx_r t, procs := procs t, uart_out := uart_out t, uart_room := uart_room t\<rparr>"

lemma drained_refl:
  assumes "tx_ok s" "uart_tx_w s = uart_tx_r s \<or> uart_room s = 0"
  shows "drained s s"
  using assms by (auto simp: drained_def tx_queue_def)

lemma drained_step:
  assumes "drained (s\<lparr>uart_tx_r := uart_tx_r s + 1, procs := ps, uart_out := uart_out s @ [c], uart_room := uart_room s - 1\<rparr>) t"
      (is "drained ?u t")
    and "uart_tx_w s \<noteq> uart_tx_r s" "tx_ok s" "c = uart_tx_buf s ! (unat (uart_tx_r s) mod UART_TX_BUF_SIZE)"
  shows "drained s t"
proof -
  have "tx_queue s = c # ring (uart_tx_buf s) (uart_tx_r s + 1) (uart_tx_w s)"
    using assms(2-4) by (simp add: tx_queue_def tx_ok_def ring_ok_def ring_pop)
  then have q: "uart_out ?u @ tx_queue ?u = uart_out s @ tx_queue s" by (simp add: tx_queue_def)
  have "t = ?u\<lparr>uart_tx_r := uart_tx_r t, procs := procs t, uart_out := uart_out t, uart_room := uart_room t\<rparr>"
    using assms(1) unfolding drained_def by blast
  also have "\<dots> = s\<lparr>uart_tx_r := uart_tx_r t, procs := procs t, uart_out := uart_out t, uart_room := uart_room t\<rparr>" by simp
  finally have "t = s\<lparr>uart_tx_r := uart_tx_r t, procs := procs t, uart_out := uart_out t, uart_room := uart_room t\<rparr>" .
  with assms(1) show ?thesis unfolding drained_def q by (elim conjE) (intro conjI)
qed

lemma uartstart_loop_drains:
  assumes "cpu_ok s" "noff (mycpu s) \<noteq> 0" "\<And>p. p < NPROC \<Longrightarrow> lock_free (L_proc p) s" "\<not> bit (uart_lcr s) 7"
    "tx_ok s" "length (tx_queue s) \<le> n"
  shows "\<exists>t. uartstart_loop n s = Ok t \<and> drained s t"
  using assms
proof (induction n arbitrary: s)
  case 0
  then show ?case using drained_refl [of s] by (simp add: uartstart_loop.simps [of 0] tx_queue_def unat_eq_0)
next
  case (Suc n)
  show ?case
  proof (cases "uart_tx_w s = uart_tx_r s \<or> uart_room s = 0")
    case True
    then show ?thesis using drained_refl [of s] Suc.prems(5) by (auto simp: uartstart_loop.simps [of _ s])
  next
    case False
    then have ne: "uart_tx_r s \<noteq> uart_tx_w s" by auto
    let ?c = "uart_tx_buf s ! (unat (uart_tx_r s) mod UART_TX_BUF_SIZE)" and ?s = "s\<lparr>uart_tx_r := uart_tx_r s + 1\<rparr>"
    let ?ps = "woken Ch_uart (cproc (mycpu ?s)) {..<NPROC} (procs ?s)"
    let ?u = "s\<lparr>uart_tx_r := uart_tx_r s + 1, procs := ?ps, uart_out := uart_out s @ [?c], uart_room := uart_room s - 1\<rparr>"
    have hart: "cpu_ok ?s" "noff (mycpu ?s) \<noteq> 0" "\<And>p. p < NPROC \<Longrightarrow> lock_free (L_proc p) ?s"
      using Suc.prems by (simp_all add: cpu_ok_def mycpu_def cpuid_def lock_free_def)
    have run: "uartstart_loop (Suc n) s = uartstart_loop n ?u"
      using False wakeup_inside [OF hart, of Ch_uart] Suc.prems(4)
      by (simp add: uartstart_loop.simps [of "Suc n" s] Let_def write_THR)
    have "\<exists>t. uartstart_loop n ?u = Ok t \<and> drained ?u t"
    proof (rule Suc.IH)
      show "tx_ok ?u" using Suc.prems(5) False by (auto simp: tx_ok_def intro: ring_ok_pop)
      show "length (tx_queue ?u) \<le> n"
        using Suc.prems(6) unat_diff_pop [OF ne] by (simp add: tx_queue_def)
    qed (use Suc.prems in \<open>simp_all add: cpu_ok_def mycpu_def cpuid_def lock_free_def\<close>)
    then show ?thesis using run drained_step [OF _ _ Suc.prems(5) refl] False by auto
  qed
qed

lemma uartstart_drains:
  assumes "cpu_ok s" "noff (mycpu s) \<noteq> 0" "\<And>p. p < NPROC \<Longrightarrow> lock_free (L_proc p) s" "\<not> bit (uart_lcr s) 7" "tx_ok s"
  obtains t where "uartstart s = Ok t" "drained s t"
  using uartstart_loop_drains [OF assms, of UART_TX_BUF_SIZE] tx.ok_bound [OF assms(5)] by (auto simp: uartstart_def)

text \<open>The state of the machine in which a system call may write to the UART.\<close>

definition uart_ready :: "'a uart_scheme \<Rightarrow> bool" where
  "uart_ready s \<longleftrightarrow> cpu_ok s \<and> lock_free L_uart_tx s \<and> (\<forall>p < NPROC. lock_free (L_proc p) s) \<and>
     \<not> panicked s \<and> \<not> bit (uart_lcr s) 7 \<and> tx_ok s"

lemma enter_uart [simp]:
  "uart_tx_buf (enter_state l s) = uart_tx_buf s" "uart_tx_r (enter_state l s) = uart_tx_r s"
  "uart_tx_w (enter_state l s) = uart_tx_w s" "uart_out (enter_state l s) = uart_out s"
  "uart_room (enter_state l s) = uart_room s" "uart_lcr (enter_state l s) = uart_lcr s" "panicked (enter_state l s) = panicked s"
  by (simp_all add: enter_state_def lock_defs)

lemma enter_hart:
  assumes "cpu_ok s" "\<And>p. l \<noteq> L_proc p" "\<And>p. p < NPROC \<Longrightarrow> lock_free (L_proc p) s"
  shows "cpu_ok (enter_state l s)" "noff (mycpu (enter_state l s)) \<noteq> 0" "p < NPROC \<Longrightarrow> lock_free (L_proc p) (enter_state l s)"
  using assms by (auto simp: cpu_ok_def enter_state_def lock_free_def lock_defs)

lemma uartputc_sends:
  assumes "uart_ready s" "length (tx_queue s) < UART_TX_BUF_SIZE"
  obtains t where "uartputc c s = Ok (Done () t)" "uart_out t @ tx_queue t = uart_out s @ tx_queue s @ [of_int c]" "uart_ready t"
    "tx_queue t = [] \<or> uart_room t = 0" "lock_ctx s t"
proof -
  let ?e = "enter_state L_uart_tx s" and ?p = "uart_tx_put (of_int c) (enter_state L_uart_tx s)"
  have r: "cpu_ok s" "lock_free L_uart_tx s" "\<And>p. p < NPROC \<Longrightarrow> lock_free (L_proc p) s" "\<not> panicked s"
    "\<not> bit (uart_lcr s) 7" "tx_ok s"
    using assms(1) by (auto simp: uart_ready_def)
  note e = enter_hart [of s L_uart_tx, OF r(1) _ r(3)]
  have qe: "tx_queue ?e = tx_queue s" "tx_ok ?e" using r(6) by (simp_all add: tx_queue_def tx_ok_def)
  note q = tx.contents_put [OF qe(2), of "of_int c", unfolded qe(1), OF assms(2)] tx.ok_put [OF qe(2), of "of_int c", unfolded qe(1), OF assms(2)]
  have hart: "cpu_ok ?p" "noff (mycpu ?p) \<noteq> 0" "\<And>p. p < NPROC \<Longrightarrow> lock_free (L_proc p) ?p" "\<not> bit (uart_lcr ?p) 7"
    using e r(5) by (simp_all add: uart_tx_put_def cpu_ok_def mycpu_def cpuid_def lock_free_def)
  obtain u where u: "uartstart ?p = Ok u" "drained ?p u" by (rule uartstart_drains [OF hart q(2)])
  define v where "v = u\<lparr>cpus := cpus (masked_once s), locks := locks s\<rparr>"
  have f: "u = ?p\<lparr>uart_tx_r := uart_tx_r u, procs := procs u, uart_out := uart_out u, uart_room := uart_room u\<rparr>"
    using u(2) unfolding drained_def by (elim conjE)
  have "locks u = locks ?e" "cpus u = cpus ?e" "tp u = tp s" "panicked u = panicked s" "uart_lcr u = uart_lcr s"
    by (subst f, simp add: uart_tx_put_def)+
  note fr = this
  have "release L_uart_tx u = Ok v" unfolding v_def by (rule release_enter [OF r(2,1) fr(1-3)])
  moreover have "uart_tx_w s \<noteq> uart_tx_r s + of_nat UART_TX_BUF_SIZE"
    using assms(2) ring_full_iff [OF tx_size(2), of "uart_tx_w s" "uart_tx_r s"] by (simp add: tx_queue_def)
  ultimately have "uartputc c s = Ok (Done () v)"
    using r(4) u(1) by (simp add: uartputc_def uartputc_body_def acquire_free [OF r(2)])
  moreover have "uart_out v @ tx_queue v = uart_out s @ tx_queue s @ [of_int c]" "tx_queue v = [] \<or> uart_room v = 0" "tx_ok v"
    using u(2) q(1) by (auto simp: v_def drained_def tx_queue_def tx_ok_def uart_tx_put_def)
  moreover have "lock_ctx s v" using fr by (simp add: lock_ctx_def v_def)
  moreover have "uart_ready v"
    using r fr \<open>tx_ok v\<close> lock_ctx_cpu_ok [OF \<open>lock_ctx s v\<close>] by (simp add: uart_ready_def v_def lock_free_def)
  ultimately show ?thesis using that by blast
qed

section \<open>Properties\<close>

text \<open>
  (C15) The transmit side of the UART is a queue of at most 32 bytes. A call of \<open>uartputc\<close> on a full buffer goes to
  sleep; any other call returns, and then the bytes on the wire followed by those in the buffer are
  what they were with the new byte behind them. Bytes stay in the buffer only while the device is busy.
\<close>

theorem uartputc_fifo:
  assumes "uart_ready s"
  shows "if length (tx_queue s) = UART_TX_BUF_SIZE then uartputc c s = Ok (Block () (enter_state L_uart_tx s))
    else \<exists>t. uartputc c s = Ok (Done () t) \<and> uart_out t @ tx_queue t = uart_out s @ tx_queue s @ [of_int c] \<and>
      length (tx_queue t) \<le> UART_TX_BUF_SIZE \<and> (tx_queue t = [] \<or> uart_room t = 0) \<and> uart_ready t \<and> lock_ctx s t"
proof (cases "length (tx_queue s) = UART_TX_BUF_SIZE")
  case True
  then have "uart_tx_w s = uart_tx_r s + of_nat UART_TX_BUF_SIZE"
    using ring_full_iff [OF tx_size(2), of "uart_tx_w s" "uart_tx_r s"] by (simp add: tx_queue_def)
  then show ?thesis using True assms by (simp add: uartputc_def uartputc_body_def acquire_free uart_ready_def)
next
  case False
  then have "length (tx_queue s) < UART_TX_BUF_SIZE" using tx.ok_bound [of s] assms by (simp add: uart_ready_def)
  then obtain t where "uartputc c s = Ok (Done () t)" "uart_out t @ tx_queue t = uart_out s @ tx_queue s @ [of_int c]"
      "uart_ready t" "tx_queue t = [] \<or> uart_room t = 0" "lock_ctx s t"
    by (rule uartputc_sends [OF assms])
  then show ?thesis using False tx.ok_bound [of t] by (auto simp: uart_ready_def)
qed

definition quiet_uart :: uart where
  "quiet_uart = ptable.extend idle_ptable (uart.fields 3 3 1 3 0 [] [] 0 16 (replicate 32 7) 18446744073709551614 18446744073709551613 False True)"

theorem uartputc_fifo_witness:
  "\<exists>t. uartputc 65 quiet_uart = Ok (Done () t) \<and> uart_out t @ tx_queue t = [7, 65] \<and> uart_ready quiet_uart"
proof -
  have q: "uart_out quiet_uart = []" "tx_queue quiet_uart = [7]"
    by (simp_all add: quiet_uart_def ptable.defs uart.defs tx_queue_def ring_def)
  have "uart_ready quiet_uart"
    by (simp add: uart_ready_def quiet_uart_def ptable.defs uart.defs idle_ptable_def cpu_ok_def lock_free_def tx_ok_def ring_ok_def
        UART_TX_BUF_SIZE_def lock_defs)
  then show ?thesis using uartputc_fifo [of quiet_uart 65] q by (auto simp: UART_TX_BUF_SIZE_def)
qed

end
