(* ===== verification/Decimal.thy ===== *)
theory Decimal
  imports Xv6_Prelude
begin

text \<open>
  Numerals. The kernel's and the C library's \<open>printint\<close> and the library's \<open>atoi\<close> are compared with the
  mathematical digits of a number: \<open>nat_digits\<close> lists them from the least significant one on, \<open>from_digits\<close> reads
  such a list. \<open>bytes\<close> gives the bytes of a string literal.
\<close>

definition bytes :: "string \<Rightarrow> u8 list" where
  "bytes cs = map of_char cs"

lemma bytes_simps [simp]: "bytes [] = []" "bytes (c # cs) = of_char c # bytes cs" "length (bytes cs) = length cs"
  by (simp_all add: bytes_def)

function nat_digits :: "nat \<Rightarrow> nat \<Rightarrow> nat list" where
  "nat_digits b x = x mod b # (if b < 2 \<or> x div b = 0 then [] else nat_digits b (x div b))"
  by pat_completeness auto

termination nat_digits
proof (relation "measure snd", goal_cases)
  case (2 b x)
  then have "x \<noteq> 0" by (cases "x = 0") auto
  then have "0 < x" "1 < b" using 2 by auto
  then show ?case by simp
qed simp

declare nat_digits.simps [simp del]

definition from_digits :: "nat \<Rightarrow> nat list \<Rightarrow> nat" where
  "from_digits b ds = foldr (\<lambda>d a. d + b * a) ds 0"

lemma from_digits_simps [simp]: "from_digits b [] = 0" "from_digits b (d # ds) = d + b * from_digits b ds"
  by (simp_all add: from_digits_def)

lemma from_nat_digits: "2 \<le> b \<Longrightarrow> from_digits b (nat_digits b x) = x"
proof (induction b x rule: nat_digits.induct)
  case (1 b x)
  have "x mod b + b * (x div b) = x" by simp
  then show ?case using 1 by (cases "x div b = 0") (simp_all add: nat_digits.simps [of b x])
qed

lemma nat_digits_less: "2 \<le> b \<Longrightarrow> d \<in> set (nat_digits b x) \<Longrightarrow> d < b"
proof (induction b x rule: nat_digits.induct)
  case (1 b x)
  have "d = x mod b \<or> (x div b \<noteq> 0 \<and> d \<in> set (nat_digits b (x div b)))"
    using 1(3) by (subst (asm) nat_digits.simps) (auto split: if_splits)
  then show ?case using 1(1) [OF _ 1(2)] 1(2) by auto
qed

lemma nat_digits_length: "2 \<le> b \<Longrightarrow> x < b ^ k \<Longrightarrow> 0 < k \<Longrightarrow> length (nat_digits b x) \<le> k"
proof (induction b x arbitrary: k rule: nat_digits.induct)
  case (1 b x)
  show ?case
  proof (cases "x div b = 0")
    case True
    then show ?thesis using 1(4) by (simp add: nat_digits.simps [of b x])
  next
    case False
    have "k \<noteq> 1" using 1(2,3) False by auto
    then obtain j where j: "k = Suc j" "0 < j" using 1(4) by (cases k) auto
    have "x div b < b ^ j" using 1(2,3) j by (auto simp: less_mult_imp_div_less mult.commute)
    then have "length (nat_digits b (x div b)) \<le> j" using 1(1) [OF _ 1(2) _ j(2)] False 1(2) by auto
    then show ?thesis using j False by (simp add: nat_digits.simps [of b x])
  qed
qed

text \<open>The value of a string of decimal digits, most significant first, and of one with a sign.\<close>

definition dec_value :: "u8 list \<Rightarrow> nat" where
  "dec_value cs = foldl (\<lambda>a c. 10 * a + (unat c - 48)) 0 cs"

definition int_value :: "u8 list \<Rightarrow> int" where
  "int_value cs = (case cs of c # ds \<Rightarrow> if c = 45 then - int (dec_value ds) else int (dec_value cs) | [] \<Rightarrow> 0)"

lemma dec_value_rev: "dec_value (rev cs) = from_digits 10 (map (\<lambda>c. unat c - 48) cs)"
  by (simp add: dec_value_def foldl_conv_foldr from_digits_def foldr_map comp_def add.commute)

text \<open>The signed reading of a 32-bit word.\<close>

lemma sint_split: "sint (x :: u32) = int (unat x) - (if bit x 31 then 4294967296 else 0)"
proof -
  have "sint x = signed_take_bit 31 (uint x)" by (simp add: sint_uint)
  also have "\<dots> = uint x - (if bit x 31 then 4294967296 else 0)"
    using uint_bounded [of x] by (simp add: signed_take_bit_eq_take_bit_minus bit_uint_iff take_bit_int_eq_self)
  finally show ?thesis by simp
qed

lemma sint_neg:
  fixes x :: u32
  shows "0 \<le> sint x \<Longrightarrow> int (unat x) = sint x" "sint x < 0 \<Longrightarrow> int (unat (- x)) = - sint x"
proof -
  have b: "0 \<le> uint x" "uint x < 4294967296" using uint_bounded [of x] by simp_all
  then show "0 \<le> sint x \<Longrightarrow> int (unat x) = sint x" by (auto simp: sint_split split: if_splits)
  assume "sint x < 0"
  then have n: "bit x 31" "sint x = uint x - 4294967296" by (auto simp: sint_split split: if_splits)
  then have "uint x \<noteq> 0" by (metis bit_0_eq bot_apply bot_bool_def uint_0_iff)
  then have "uint (- x) = 4294967296 - uint x" using b by (simp add: uint_word_ariths zmod_zminus1_eq_if)
  then show "int (unat (- x)) = - sint x" using n by simp
qed

end
