(* ===== verification/Printf.thy ===== *)
theory Printf
  imports Uart Decimal
begin

unbundle bit_operations_syntax

text \<open>
  Formatted output to the console: \<^verbatim>\<open>kernel/printf.c\<close>, \<open>consputc\<close> of \<^verbatim>\<open>kernel/console.c\<close> and \<open>procdump\<close> of
  \<^verbatim>\<open>kernel/proc.c\<close>. The variable arguments are a list of tagged values; a conversion without an argument of its type
  has no defined result, here \<open>Panic\<close>. The buffer of \<open>printint\<close> has 16 bytes, which is the bound on the rounds of its loop.
\<close>

section \<open>Definitions\<close>

definition BACKSPACE :: int where "BACKSPACE = 0x100"

definition consputc :: "int \<Rightarrow> 'a uart_scheme \<Rightarrow> 'a uart_scheme res" where
  "consputc c s =
     (if c = BACKSPACE
      then bind_res (uartputc_sync 8 s) (\<lambda>s. bind_res (uartputc_sync 32 s) (uartputc_sync 8))
      else uartputc_sync c s)"

fun consputs :: "u8 list \<Rightarrow> 'a uart_scheme \<Rightarrow> 'a uart_scheme res" where
  "consputs [] s = Ok s"
| "consputs (c # cs) s = bind_res (consputc (uint c) s) (consputs cs)"

definition digits :: "u8 list" where
  "digits = bytes ''0123456789abcdef''"

fun printint_loop :: "nat \<Rightarrow> u32 \<Rightarrow> u32 \<Rightarrow> u8 list res" where
  "printint_loop 0 x base = OutOfFuel"
| "printint_loop (Suc n) x base =
     (let d = digits ! unat (x mod base); x = x div base in
      if x \<noteq> 0 then bind_res (printint_loop n x base) (\<lambda>buf. Ok (d # buf)) else Ok [d])"

definition printint :: "u32 \<Rightarrow> u32 \<Rightarrow> bool \<Rightarrow> 'a uart_scheme \<Rightarrow> 'a uart_scheme res" where
  "printint xx base sign s =
     (let neg = (sign \<and> sint xx < 0);
          x = (if neg then - xx else xx)
      in bind_res (printint_loop 16 x base) (\<lambda>buf.
           let buf = (if neg then buf @ [45] else buf) in consputs (rev buf) s))"

fun printptr_loop :: "nat \<Rightarrow> u64 \<Rightarrow> 'a uart_scheme \<Rightarrow> 'a uart_scheme res" where
  "printptr_loop 0 x s = Ok s"
| "printptr_loop (Suc n) x s =
     bind_res (consputc (uint (digits ! unat (drop_bit 60 x))) s) (printptr_loop n (push_bit 4 x))"

definition printptr :: "u64 \<Rightarrow> 'a uart_scheme \<Rightarrow> 'a uart_scheme res" where
  "printptr x s = bind_res (consputc 48 s) (\<lambda>s. bind_res (consputc 120 s) (printptr_loop 16 x))"

datatype arg = A_int u32 | A_ptr u64 | A_str "u8 list option"

fun printf_loop :: "u8 list \<Rightarrow> arg list \<Rightarrow> 'a uart_scheme \<Rightarrow> 'a uart_scheme res" where
  "printf_loop [] as s = Ok s"
| "printf_loop (c # fmt) as s =
     (if c = 0 then Ok s
      else if c \<noteq> 37 then bind_res (consputc (uint c) s) (printf_loop fmt as)
      else case fmt of [] \<Rightarrow> Ok s
        | c # fmt \<Rightarrow>
            if c = 0 then Ok s
            else if c = 100
            then (case as of A_int i # as \<Rightarrow> bind_res (printint i 10 True s) (printf_loop fmt as) | _ \<Rightarrow> Panic ''va_arg'')
            else if c = 120
            then (case as of A_int i # as \<Rightarrow> bind_res (printint i 16 True s) (printf_loop fmt as) | _ \<Rightarrow> Panic ''va_arg'')
            else if c = 112
            then (case as of A_ptr p # as \<Rightarrow> bind_res (printptr p s) (printf_loop fmt as) | _ \<Rightarrow> Panic ''va_arg'')
            else if c = 115
            then (case as of A_str str # as \<Rightarrow>
                    bind_res (consputs (takeWhile (\<lambda>b. b \<noteq> 0) (case str of None \<Rightarrow> bytes ''(null)'' | Some b \<Rightarrow> b)) s)
                      (printf_loop fmt as)
                  | _ \<Rightarrow> Panic ''va_arg'')
            else if c = 37 then bind_res (consputc 37 s) (printf_loop fmt as)
            else bind_res (consputc 37 s) (\<lambda>s. bind_res (consputc (uint c) s) (printf_loop fmt as)))"

definition printf :: "u8 list option \<Rightarrow> arg list \<Rightarrow> 'a uart_scheme \<Rightarrow> 'a uart_scheme res" where
  "printf fmt as s =
     (let locking = pr_locking s in
      bind_res (if locking then acquire L_pr s else Ok s) (\<lambda>s.
        case fmt of None \<Rightarrow> Panic ''null fmt''
        | Some f \<Rightarrow> bind_res (printf_loop f as s) (\<lambda>s. if locking then release L_pr s else Ok s)))"

text \<open>What \<open>panic\<close> does before it loops for ever. The model's other functions return \<open>Panic\<close> where they call it.\<close>

definition panic :: "string \<Rightarrow> 'a uart_scheme \<Rightarrow> 'a uart_scheme res" where
  "panic msg s =
     (let s = s\<lparr>pr_locking := False\<rparr> in
      bind_res (printf (Some (bytes ''panic: '')) [] s) (\<lambda>s.
        bind_res (printf (Some (bytes msg)) [] s) (\<lambda>s.
          bind_res (printf (Some [10]) [] s) (\<lambda>s. Ok (s\<lparr>panicked := True\<rparr>)))))"

definition printfinit :: "'a uart_scheme \<Rightarrow> 'a uart_scheme" where
  "printfinit s = (initlock L_pr ''pr'' s)\<lparr>pr_locking := True\<rparr>"

definition states :: "procstate \<Rightarrow> string option" where
  "states st = (case st of UNUSED \<Rightarrow> Some ''unused'' | SLEEPING \<Rightarrow> Some ''sleep '' | RUNNABLE \<Rightarrow> Some ''runble''
     | RUNNING \<Rightarrow> Some ''run   '' | ZOMBIE \<Rightarrow> Some ''zombie'' | USED \<Rightarrow> None)"

fun procdump_loop :: "nat list \<Rightarrow> 'a uart_scheme \<Rightarrow> 'a uart_scheme res" where
  "procdump_loop [] s = Ok s"
| "procdump_loop (p # ps) s =
     (if pstate (procs s p) = UNUSED then procdump_loop ps s
      else let state = (case states (pstate (procs s p)) of Some st \<Rightarrow> st | None \<Rightarrow> ''???'') in
        bind_res (printf (Some (bytes ''%d %s %s''))
            [A_int (of_int (pid (procs s p))), A_str (Some (bytes state)), A_str (Some (pname (procs s p)))] s) (\<lambda>s.
          bind_res (printf (Some [10]) [] s) (procdump_loop ps)))"

definition procdump :: "'a uart_scheme \<Rightarrow> 'a uart_scheme res" where
  "procdump s = bind_res (printf (Some [10]) [] s) (procdump_loop [0..<NPROC])"

section \<open>Polled output\<close>

text \<open>A hart may print when the UART is set up; the transmitter takes bytes when it is polled.\<close>

definition can_print :: "'a uart_scheme \<Rightarrow> bool" where
  "can_print s \<longleftrightarrow> cpu_ok s \<and> \<not> panicked s \<and> 0 < uart_fifo s \<and> \<not> bit (uart_lcr s) 7"

text \<open>Printing the bytes \<open>bs\<close> leads from \<open>s\<close> to \<open>t\<close> and changes nothing but the device and the interrupt bookkeeping.\<close>

definition printed :: "u8 list \<Rightarrow> 'a uart_scheme \<Rightarrow> 'a uart_scheme \<Rightarrow> bool" where
  "printed bs s t \<longleftrightarrow> uart_out t = uart_out s @ bs \<and> can_print t \<and> lock_ctx s t \<and>
     t\<lparr>cpus := cpus s, uart_out := uart_out s, uart_room := uart_room s\<rparr> = s"

lemma printed_Nil: "can_print s \<Longrightarrow> printed [] s s"
  by (simp add: printed_def)

lemma printed_append:
  assumes "printed bs s t" "printed cs t u"
  shows "printed (bs @ cs) s u"
proof -
  have "u\<lparr>cpus := cpus t, uart_out := uart_out t, uart_room := uart_room t\<rparr> = t"
      and "t\<lparr>cpus := cpus s, uart_out := uart_out s, uart_room := uart_room s\<rparr> = s"
    using assms by (auto simp: printed_def)
  then have "u\<lparr>cpus := cpus t, uart_out := uart_out t, uart_room := uart_room t,
      cpus := cpus s, uart_out := uart_out s, uart_room := uart_room s\<rparr> = s" by simp
  moreover have "u\<lparr>cpus := cpus t, uart_out := uart_out t, uart_room := uart_room t,
      cpus := cpus s, uart_out := uart_out s, uart_room := uart_room s\<rparr>
    = u\<lparr>cpus := cpus s, uart_out := uart_out s, uart_room := uart_room s\<rparr>" by (cases u) simp
  ultimately show ?thesis using assms lock_ctx_trans [of s t u] by (auto simp: printed_def)
qed

lemma pop_off_frame:
  "pop_off (s\<lparr>uart_out := out, uart_room := r\<rparr>) = bind_res (pop_off s) (\<lambda>t. Ok (t\<lparr>uart_out := out, uart_room := r\<rparr>))"
  by (simp add: lock_defs)

lemma masked_once_uart [simp]:
  "uart_out (masked_once s) = uart_out s" "uart_room (masked_once s) = uart_room s" "uart_fifo (masked_once s) = uart_fifo s"
  "panicked (masked_once s) = panicked s" "uart_lcr (masked_once s) = uart_lcr s"
  by (simp_all add: masked_once_def lock_defs)

lemma nested_uart [simp]:
  "uart_out (nested s n) = uart_out s" "uart_room (nested s n) = uart_room s" "uart_fifo (nested s n) = uart_fifo s"
  "panicked (nested s n) = panicked s" "uart_lcr (nested s n) = uart_lcr s"
  by (simp_all add: nested_def lock_defs)

lemma uartputc_sync_prints:
  assumes "can_print s"
  obtains t where "uartputc_sync c s = Ok t" "printed [of_int c] s t"
proof -
  have s: "cpu_ok s" "\<not> panicked s" "0 < uart_fifo s" "\<not> bit (uart_lcr s) 7" using assms by (auto simp: can_print_def)
  let ?r = "if uart_room s = 0 then uart_fifo s else uart_room s"
  let ?t = "(masked_once s)\<lparr>uart_out := uart_out s @ [of_int c], uart_room := ?r - 1\<rparr>"
  have "uart_poll (nested s 1) = Ok ((nested s 1)\<lparr>uart_room := ?r\<rparr>)"
    using s(3) by (auto simp: uart_poll_def)
  then have "uartputc_sync c s = Ok ?t"
    using s pop_off_nested_1 [OF s(1)]
    by (simp add: uartputc_sync_def push_off_nested Let_def write_THR pop_off_frame)
  moreover have "?t\<lparr>cpus := cpus s, uart_out := uart_out s, uart_room := uart_room s\<rparr> = s"
    by (cases s) (simp add: masked_once_def lock_defs)
  then have "printed [of_int c] s ?t"
    using s lock_ctx_cpu_ok [of s ?t] by (auto simp: printed_def can_print_def lock_ctx_def)
  ultimately show ?thesis using that by blast
qed

definition cons_bytes :: "int \<Rightarrow> u8 list" where
  "cons_bytes c = (if c = BACKSPACE then [8, 32, 8] else [of_int c])"

lemma consputc_prints:
  assumes "can_print s"
  obtains t where "consputc c s = Ok t" "printed (cons_bytes c) s t"
proof (cases "c = BACKSPACE")
  case True
  obtain t where t: "uartputc_sync 8 s = Ok t" "printed [8] s t" using uartputc_sync_prints [OF assms, of 8] by auto
  obtain u where u: "uartputc_sync 32 t = Ok u" "printed [32] t u"
    using uartputc_sync_prints [of t 32] t(2) by (auto simp: printed_def)
  obtain v where v: "uartputc_sync 8 u = Ok v" "printed [8] u v"
    using uartputc_sync_prints [of u 8] u(2) by (auto simp: printed_def)
  show ?thesis using that [of v] True t(1) u(1) v(1) printed_append [OF t(2) printed_append [OF u(2) v(2)]]
    by (simp add: consputc_def cons_bytes_def)
next
  case False
  then show ?thesis using uartputc_sync_prints [OF assms, of c] that by (auto simp: consputc_def cons_bytes_def)
qed

lemma cons_bytes_byte [simp]: "cons_bytes (uint (c :: u8)) = [c]"
proof -
  have "uint c < 256" using uint_bounded [of c] by simp
  then show ?thesis by (simp add: cons_bytes_def BACKSPACE_def)
qed

lemma consputs_prints:
  assumes "can_print s"
  obtains t where "consputs cs s = Ok t" "printed cs s t"
  using assms
proof (induction cs arbitrary: s thesis)
  case Nil
  then show ?case using printed_Nil by auto
next
  case (Cons c cs)
  obtain t where t: "consputc (uint c) s = Ok t" "printed [c] s t"
    using consputc_prints [OF Cons.prems(2), of "uint c"] by auto
  then have "can_print t" by (simp add: printed_def)
  then obtain u where "consputs cs t = Ok u" "printed cs t u" using Cons.IH by blast
  then show ?case using Cons.prems(1) t printed_append [of "[c]" s t cs u] by auto
qed

section \<open>Numbers\<close>

lemma printint_loop_digits:
  assumes "2 \<le> unat base" "unat base \<le> 16" "length (nat_digits (unat base) (unat x)) \<le> n"
  shows "printint_loop n x base = Ok (map (nth digits) (nat_digits (unat base) (unat x)))"
  using assms(3)
proof (induction n arbitrary: x)
  case 0
  then show ?case by (simp add: nat_digits.simps [of "unat base"])
next
  case (Suc n)
  have u: "unat (x mod base) = unat x mod unat base" "unat (x div base) = unat x div unat base"
    by (simp_all add: unat_mod unat_div)
  have z: "x div base = 0 \<longleftrightarrow> unat x div unat base = 0" by (simp only: u(2) [symmetric] unat_eq_0)
  note D = nat_digits.simps [of "unat base" "unat x"]
  show ?case
  proof (cases "x div base = 0")
    case True
    then show ?thesis using z assms(1) by (simp add: D u Let_def)
  next
    case False
    then have "printint_loop n (x div base) base = Ok (map (nth digits) (nat_digits (unat base) (unat x div unat base)))"
      using Suc.prems Suc.IH [of "x div base"] z assms(1) by (simp add: D u)
    then show ?thesis using False z assms(1) by (simp add: D u Let_def)
  qed
qed

text \<open>The text that \<open>printint\<close> writes.\<close>

definition int_text :: "u32 \<Rightarrow> nat \<Rightarrow> bool \<Rightarrow> u8 list" where
  "int_text xx base sign =
     (if sign \<and> sint xx < 0 then [45] @ rev (map (nth digits) (nat_digits base (unat (- xx))))
      else rev (map (nth digits) (nat_digits base (unat xx))))"

lemma digits_fit:
  fixes x :: u32
  assumes "2 \<le> b"
  shows "length (nat_digits b (unat x)) \<le> 32" "10 \<le> b \<Longrightarrow> length (nat_digits b (unat x)) \<le> 10"
proof -
  have x: "unat x < 4294967296" using unsigned_less [of x] by simp
  have "(2 :: nat) ^ 32 \<le> b ^ 32" using assms by (rule power_mono) simp
  then show "length (nat_digits b (unat x)) \<le> 32" using x assms by (intro nat_digits_length) auto
  assume "10 \<le> b"
  then have "(10 :: nat) ^ 10 \<le> b ^ 10" by (rule power_mono) simp
  then show "length (nat_digits b (unat x)) \<le> 10" using x assms by (intro nat_digits_length) auto
qed

lemma printint_prints:
  assumes "can_print s" "10 \<le> unat base" "unat base \<le> 16"
  obtains t where "printint xx base sign s = Ok t" "printed (int_text xx (unat base) sign) s t"
proof -
  have l: "printint_loop 16 x base = Ok (map (nth digits) (nat_digits (unat base) (unat x)))" for x
    using digits_fit(2) [of "unat base" x] assms by (intro printint_loop_digits) auto
  obtain t where "consputs (int_text xx (unat base) sign) s = Ok t" "printed (int_text xx (unat base) sign) s t"
    using consputs_prints [OF assms(1)] by blast
  then show ?thesis using that [of t]
    by (cases "sign \<and> sint xx < 0") (simp_all add: printint_def Let_def l int_text_def)
qed

lemma digit_value:
  assumes "d < 10"
  shows "unat (digits ! d) - 48 = d" "digits ! d \<noteq> 45"
proof -
  have "d = 0 \<or> d = 1 \<or> d = 2 \<or> d = 3 \<or> d = 4 \<or> d = 5 \<or> d = 6 \<or> d = 7 \<or> d = 8 \<or> d = 9"
    using assms by presburger
  then show "unat (digits ! d) - 48 = d" "digits ! d \<noteq> 45" by (auto simp: digits_def)
qed

lemma dec_value_digits: "dec_value (rev (map (nth digits) (nat_digits 10 n))) = n"
proof -
  have "map ((\<lambda>c. unat c - 48) \<circ> nth digits) (nat_digits 10 n) = map id (nat_digits 10 n)"
    using nat_digits_less [of 10] by (intro map_cong) (auto simp: digit_value)
  then show ?thesis by (simp add: dec_value_rev from_nat_digits)
qed

lemma nat_digits_not_Nil [simp]: "nat_digits b n \<noteq> []"
  by (simp add: nat_digits.simps [of b])

lemma int_value_digits: "int_value (rev (map (nth digits) (nat_digits 10 n))) = int n"
proof -
  have "hd (rev (map (nth digits) (nat_digits 10 n))) \<in> set (map (nth digits) (nat_digits 10 n))"
    by (metis hd_in_set map_is_Nil_conv nat_digits_not_Nil rev_is_Nil_conv set_rev)
  then have "hd (rev (map (nth digits) (nat_digits 10 n))) \<noteq> 45" using nat_digits_less [of 10 _ n] digit_value(2) by auto
  then show ?thesis
    using dec_value_digits [of n] by (cases "rev (map (nth digits) (nat_digits 10 n))") (auto simp: int_value_def)
qed

lemma int_text_value: "int_value (int_text xx 10 True) = sint xx"
proof (cases "sint xx < 0")
  case True
  then show ?thesis using sint_neg(2) dec_value_digits [of "unat (- xx)"] by (simp add: int_text_def int_value_def)
next
  case False
  then show ?thesis using sint_neg(1) int_value_digits [of "unat xx"] by (simp add: int_text_def)
qed

text \<open>The digits that \<open>printptr\<close> writes.\<close>

primrec ptr_text :: "nat \<Rightarrow> u64 \<Rightarrow> u8 list" where
  "ptr_text 0 x = []"
| "ptr_text (Suc n) x = digits ! unat (drop_bit 60 x) # ptr_text n (push_bit 4 x)"

section \<open>Formatted text\<close>

text \<open>The text that a call of \<open>printf\<close> stands for, without the console.\<close>

fun printf_text :: "u8 list \<Rightarrow> arg list \<Rightarrow> u8 list option" where
  "printf_text [] as = Some []"
| "printf_text (c # fmt) as =
     (if c = 0 then Some []
      else if c \<noteq> 37 then map_option (\<lambda>ts. c # ts) (printf_text fmt as)
      else case fmt of [] \<Rightarrow> Some []
        | c # fmt \<Rightarrow>
            if c = 0 then Some []
            else if c = 100 \<or> c = 120
            then (case as of A_int i # as \<Rightarrow>
                map_option (\<lambda>ts. int_text i (if c = 100 then 10 else 16) True @ ts) (printf_text fmt as) | _ \<Rightarrow> None)
            else if c = 112
            then (case as of A_ptr p # as \<Rightarrow>
                map_option (\<lambda>ts. [48, 120] @ ptr_text 16 p @ ts) (printf_text fmt as) | _ \<Rightarrow> None)
            else if c = 115
            then (case as of A_str str # as \<Rightarrow>
                map_option (\<lambda>ts. takeWhile (\<lambda>b. b \<noteq> 0) (case str of None \<Rightarrow> bytes ''(null)'' | Some b \<Rightarrow> b) @ ts) (printf_text fmt as)
              | _ \<Rightarrow> None)
            else if c = 37 then map_option (\<lambda>ts. 37 # ts) (printf_text fmt as)
            else map_option (\<lambda>ts. 37 # c # ts) (printf_text fmt as))"

text \<open>A routine prints \<open>bs\<close> if it does so from every state in which printing is possible.\<close>

definition prints :: "('a uart_scheme \<Rightarrow> 'a uart_scheme res) \<Rightarrow> u8 list \<Rightarrow> bool" where
  "prints f bs \<longleftrightarrow> (\<forall>s. can_print s \<longrightarrow> (\<exists>t. f s = Ok t \<and> printed bs s t))"

lemma prints_bind:
  assumes "prints f bs" "prints g cs"
  shows "prints (\<lambda>s. bind_res (f s) g) (bs @ cs)"
  unfolding prints_def
proof (intro allI impI)
  fix s :: "'a uart_scheme" assume "can_print s"
  then obtain t where t: "f s = Ok t" "printed bs s t" using assms(1) unfolding prints_def by blast
  then have "can_print t" by (simp add: printed_def)
  then obtain u where "g t = Ok u" "printed cs t u" using assms(2) unfolding prints_def by blast
  then show "\<exists>u. bind_res (f s) g = Ok u \<and> printed (bs @ cs) s u" using t printed_append by fastforce
qed

lemma prints_cong: "prints g bs \<Longrightarrow> (\<And>s. f s = g s) \<Longrightarrow> prints f bs"
  by (simp add: prints_def)

lemma prints_ret: "prints Ok []"
  by (simp add: prints_def printed_Nil)

lemma prints_consputc: "prints (consputc (uint (c :: u8))) [c]"
  unfolding prints_def using consputc_prints [of _ "uint c"] by (metis cons_bytes_byte)

lemma prints_consputs: "prints (consputs cs) cs"
  unfolding prints_def by (metis consputs_prints)

lemma prints_printint:
  "10 \<le> unat base \<Longrightarrow> unat base \<le> 16 \<Longrightarrow> prints (printint i base sign) (int_text i (unat base) sign)"
  unfolding prints_def by (metis printint_prints)

lemma prints_printptr_loop: "prints (printptr_loop n x) (ptr_text n x)"
proof (induction n arbitrary: x)
  case 0
  have "printptr_loop 0 x = (Ok :: 'a uart_scheme \<Rightarrow> _)" by (rule ext) simp
  then show ?case using prints_ret by simp
next
  case (Suc n)
  have e: "printptr_loop (Suc n) x
      = (\<lambda>s :: 'a uart_scheme. bind_res (consputc (uint (digits ! unat (drop_bit 60 x))) s) (printptr_loop n (push_bit 4 x)))"
    by (rule ext) simp
  show ?case unfolding e using prints_bind [OF prints_consputc Suc.IH] by simp
qed

lemma prints_printptr: "prints (printptr x) ([48, 120] @ ptr_text 16 x)"
  using prints_bind [OF prints_consputc [of 48] prints_bind [OF prints_consputc [of 120] prints_printptr_loop [of 16 x]]]
  by (simp add: printptr_def [abs_def])

lemma printf_conversion:
  assumes "\<And>ar ds. printf_text g ar = Some ds \<Longrightarrow> prints (printf_loop g ar :: 'a uart_scheme \<Rightarrow> _) ds"
    and "printf_text (37 # d # g) as = Some bs"
  shows "prints (printf_loop (37 # d # g) as :: 'a uart_scheme \<Rightarrow> _) bs"
proof -
  have seq: "prints (\<lambda>s :: 'a uart_scheme. bind_res (f s) (printf_loop g ar)) (cs @ ds)"
    if "prints f cs" "printf_text g ar = Some ds" for f cs ar ds
    using prints_bind [OF that(1) assms(1) [OF that(2)]] .
  consider "d = 0" | "d = 100" | "d = 120" | "d = 112" | "d = 115" | "d = 37"
    | "d \<noteq> 0" "d \<noteq> 100" "d \<noteq> 120" "d \<noteq> 112" "d \<noteq> 115" "d \<noteq> 37" by blast
  then show ?thesis
  proof cases
    case 1
    then show ?thesis using assms(2) by (auto intro: prints_cong [OF prints_ret])
  next
    case 2
    then obtain i ar ds where "as = A_int i # ar" "printf_text g ar = Some ds" "bs = int_text i 10 True @ ds"
      using assms(2) by (auto split: list.splits arg.splits)
    then show ?thesis using 2 by (auto intro!: prints_cong [OF seq [OF prints_printint [of 10 i True, simplified]]])
  next
    case 3
    then obtain i ar ds where "as = A_int i # ar" "printf_text g ar = Some ds" "bs = int_text i 16 True @ ds"
      using assms(2) by (auto split: list.splits arg.splits)
    then show ?thesis using 3 by (auto intro!: prints_cong [OF seq [OF prints_printint [of 16 i True, simplified]]])
  next
    case 4
    then obtain x ar ds where "as = A_ptr x # ar" "printf_text g ar = Some ds" "bs = [48, 120] @ ptr_text 16 x @ ds"
      using assms(2) by (auto split: list.splits arg.splits)
    then show ?thesis using 4 prints_cong [OF seq [OF prints_printptr [of x], of ar ds]] by auto
  next
    case 5
    then obtain str ar ds where "as = A_str str # ar" "printf_text g ar = Some ds"
        "bs = takeWhile (\<lambda>b. b \<noteq> 0) (case str of None \<Rightarrow> bytes ''(null)'' | Some b \<Rightarrow> b) @ ds"
      using assms(2) by (auto split: list.splits arg.splits)
    then show ?thesis using 5 prints_cong [OF seq [OF prints_consputs, of ar ds]] by auto
  next
    case 6
    then show ?thesis using assms(2) prints_cong [OF seq [OF prints_consputc [of 37], of as]] by auto
  next
    case 7
    then obtain ds where "printf_text g as = Some ds" "bs = [37, d] @ ds" using assms(2) by auto
    then show ?thesis
      using prints_cong [OF prints_bind [OF prints_consputc [of 37] seq [OF prints_consputc [of d], of as ds]]] 7 by auto
  qed
qed

lemma printf_loop_prints:
  "printf_text fmt as = Some bs \<Longrightarrow> prints (printf_loop fmt as :: 'a uart_scheme \<Rightarrow> _) bs"
proof (induction "length fmt" arbitrary: fmt as bs rule: less_induct)
  case less
  note IH = less.hyps
  have seq: "prints (\<lambda>s :: 'a uart_scheme. bind_res (f s) (printf_loop fm ar)) (cs @ ds)"
    if "prints f cs" "length fm < length fmt" "printf_text fm ar = Some ds" for f cs fm ar ds
    using prints_bind [OF that(1) IH [OF that(2,3)]] .
  show ?case
  proof (cases fmt)
    case Nil
    then show ?thesis using less.prems by (auto intro: prints_cong [OF prints_ret])
  next
    case (Cons c f)
    show ?thesis
    proof (cases "c = 37")
      case False
      show ?thesis
      proof (cases "c = 0")
        case True
        then show ?thesis using less.prems Cons by (auto intro: prints_cong [OF prints_ret])
      next
        case nz: False
        then obtain ds where "printf_text f as = Some ds" "bs = [c] @ ds" using less.prems False Cons by auto
        then show ?thesis using prints_cong [OF seq [OF prints_consputc, of f as ds c]] False nz Cons by auto
      qed
    next
      case True
      show ?thesis
      proof (cases f)
        case Nil
        then show ?thesis using less.prems True Cons by (auto intro: prints_cong [OF prints_ret])
      next
        case (Cons d g)
        note fmt = \<open>fmt = c # f\<close> [unfolded True Cons]
        show ?thesis unfolding fmt
          by (rule printf_conversion) (use less.prems IH in \<open>simp_all add: fmt\<close>)
      qed
    qed
  qed
qed

lemma can_print_enter [simp]: "can_print (enter_state l s) = (cpu_ok (enter_state l s) \<and> \<not> panicked s \<and> 0 < uart_fifo s \<and> \<not> bit (uart_lcr s) 7)"
  by (simp add: can_print_def enter_state_def lock_defs)

lemma cpu_ok_enter: "cpu_ok s \<Longrightarrow> cpu_ok (enter_state l s)" "cpu_ok s \<Longrightarrow> masked_once (enter_state l s) = enter_state l s"
  by (auto simp: cpu_ok_def masked_once_def enter_state_def lock_defs)

lemma printed_locked:
  assumes "lock_free l s" "cpu_ok s" "printed bs (enter_state l s) u"
  obtains t where "release l u = Ok t" "printed bs s t"
proof -
  let ?t = "u\<lparr>cpus := cpus (masked_once s), locks := locks s\<rparr>"
  have u: "lock_ctx (enter_state l s) u" "u\<lparr>cpus := cpus (enter_state l s), uart_out := uart_out s, uart_room := uart_room s\<rparr> = enter_state l s"
    "can_print u" "uart_out u = uart_out s @ bs"
    using assms(3) by (simp_all add: printed_def)
  have c: "tp u = tp s" "locks u = locks (enter_state l s)" "cpus u = cpus (enter_state l s)"
    using u(1) cpu_ok_enter(2) [OF assms(2), of l] by (auto simp: lock_ctx_def)
  have "release l u = Ok ?t" by (rule release_enter [OF assms(1,2) c(2,3,1)])
  moreover have "?t\<lparr>cpus := cpus s, uart_out := uart_out s, uart_room := uart_room s\<rparr>
      = (u\<lparr>cpus := cpus (enter_state l s), uart_out := uart_out s, uart_room := uart_room s\<rparr>)\<lparr>cpus := cpus s, locks := locks s\<rparr>"
    by (cases u) simp
  then have "?t\<lparr>cpus := cpus s, uart_out := uart_out s, uart_room := uart_room s\<rparr> = s"
    unfolding u(2) by (cases s) (simp add: enter_state_def lock_defs)
  moreover have "lock_ctx s ?t" using c by (simp add: lock_ctx_def)
  then have "can_print ?t" using u(3) lock_ctx_cpu_ok [of s ?t] assms(2) by (simp add: can_print_def)
  ultimately show ?thesis using that [of ?t] u(4) \<open>lock_ctx s ?t\<close> by (simp add: printed_def)
qed

lemma printf_run:
  assumes "can_print s" "pr_locking s \<Longrightarrow> lock_free L_pr s" "printf_text f as = Some bs"
  shows "\<exists>t. printf (Some f) as s = Ok t \<and> printed bs s t"
proof (cases "pr_locking s")
  case True
  have s: "cpu_ok s" "\<not> panicked s" "0 < uart_fifo s" "\<not> bit (uart_lcr s) 7" "lock_free L_pr s"
    using assms(1,2) True by (auto simp: can_print_def)
  have "can_print (enter_state L_pr s)" using s cpu_ok_enter by simp
  then obtain u where u: "printf_loop f as (enter_state L_pr s) = Ok u" "printed bs (enter_state L_pr s) u"
    using printf_loop_prints [OF assms(3)] unfolding prints_def by blast
  then obtain t where "release L_pr u = Ok t" "printed bs s t" using printed_locked [OF s(5,1)] by blast
  then show ?thesis using True u(1) by (simp add: printf_def acquire_free [OF s(5)])
next
  case False
  then show ?thesis
    using printf_loop_prints [OF assms(3)] assms(1) unfolding prints_def by (auto simp: printf_def)
qed

section \<open>Properties\<close>



text \<open>
  (C17) Printed numbers read back. For every 32-bit argument \<open>printint\<close> writes a decimal numeral of the
  argument's signed value, the smallest number included, and it never needs more than 11 of the 16
  bytes of its buffer.
\<close>

theorem printint_reads_back:
  assumes "can_print s"
  shows "\<exists>t bs. printint xx 10 True s = Ok t \<and> uart_out t = uart_out s @ bs \<and> int_value bs = sint xx \<and> length bs \<le> 11"
proof -
  obtain t where "printint xx 10 True s = Ok t" "printed (int_text xx 10 True) s t"
    using printint_prints [OF assms, where base = 10 and xx = xx and sign = True] by auto
  moreover have "length (int_text xx 10 True) \<le> 11"
    using digits_fit(2) [of 10 xx] digits_fit(2) [of 10 "- xx"] by (auto simp: int_text_def)
  ultimately show ?thesis using int_text_value [of xx] by (auto simp: printed_def)
qed

theorem printint_reads_back_witness:
  "\<exists>t bs. printint 0x80000000 10 True quiet_uart = Ok t \<and> uart_out t = bs \<and> int_value bs = - 2147483648"
proof -
  have "can_print quiet_uart"
    by (simp add: can_print_def quiet_uart_def ptable.defs uart.defs idle_ptable_def cpu_ok_def lock_defs)
  moreover have "uart_out quiet_uart = []" by (simp add: quiet_uart_def ptable.defs uart.defs)
  ultimately show ?thesis using printint_reads_back [of quiet_uart "0x80000000"] by (auto simp: sint_split)
qed

end
