(* ===== verification/Console.thy ===== *)
theory Console
  imports Printf
begin

unbundle bit_operations_syntax

text \<open>
  Console input and output: \<^verbatim>\<open>kernel/console.c\<close>, and \<open>uartintr\<close> of \<^verbatim>\<open>kernel/uart.c\<close>, which calls it. The input buffer is
  a ring with three indices: \<open>r\<close> to \<open>w\<close> are whole lines that may be read, \<open>w\<close> to \<open>e\<close> is the line being edited.
\<close>

section \<open>State\<close>

record cons = uart +
  cbuf :: "u8 list"
  cr :: u32
  cw :: u32
  ce :: u32

definition INPUT_BUF :: nat where "INPUT_BUF = 128"

definition ctrl :: "int \<Rightarrow> int" where
  "ctrl x = x - 64"

section \<open>Operations\<close>

text \<open>The bytes of a write come from a user address or from the kernel; a short write ends where a byte cannot be read.\<close>

fun src_at :: "source \<Rightarrow> nat \<Rightarrow> source" where
  "src_at (User_src va) i = User_src (va + of_nat i)"
| "src_at (Page_src a) i = Page_src (a + of_nat i)"
| "src_at (Var_src bs) i = Var_src (drop i bs)"

fun dst_at :: "dest \<Rightarrow> nat \<Rightarrow> dest" where
  "dst_at (User_dst va) i = User_dst (va + of_nat i)"
| "dst_at (Page_dst a) i = Page_dst (a + of_nat i)"
| "dst_at Var_dst i = Var_dst"

fun consolewrite_loop :: "nat \<Rightarrow> source \<Rightarrow> nat \<Rightarrow> 'a cons_scheme \<Rightarrow> (nat, 'a cons_scheme) io res" where
  "consolewrite_loop 0 src i s = Ok (Done i s)"
| "consolewrite_loop (Suc k) src i s =
     bind_res (either_copyin (src_at src i) 1 s) (\<lambda>(r, bs, s).
       if r = -1 then Ok (Done i s)
       else bind_res (uartputc (uint (hd bs)) s) (\<lambda>o'. case o' of
           Block _ s \<Rightarrow> Ok (Block i s)
         | Done _ s \<Rightarrow> consolewrite_loop k src (i + 1) s))"

definition consolewrite :: "source \<Rightarrow> int \<Rightarrow> 'a cons_scheme \<Rightarrow> (nat, 'a cons_scheme) io res" where
  "consolewrite src n s = consolewrite_loop (nat n) src 0 s"

text \<open>
  The loop of \<open>consoleread\<close>, with the lock held. Its progress is the number of bytes delivered so far, \<open>k\<close>
  is the number still wanted. The result \<open>None\<close> is the return of -1 for a killed process.
\<close>

fun consoleread_loop :: "nat \<Rightarrow> dest \<Rightarrow> nat \<Rightarrow> u8 list \<Rightarrow> 'a cons_scheme \<Rightarrow> (nat option \<times> u8 list, 'a cons_scheme) io res" where
  "consoleread_loop 0 dst i got s = Ok (Done (Some i, got) s)"
| "consoleread_loop (Suc k) dst i got s =
     (if cr s = cw s
      then bind_res (curproc s) (\<lambda>(p, s).
             if killed (procs s p) then Ok (Done (None, got) s) else Ok (Block (Some i, got) s))
      else let c = cbuf s ! (unat (cr s) mod INPUT_BUF);
               s = s\<lparr>cr := cr s + 1\<rparr>
           in if uint c = ctrl 68
              then Ok (Done (Some i, got) (if 0 < i then s\<lparr>cr := cr s - 1\<rparr> else s))
              else bind_res (either_copyout (dst_at dst i) [c] s) (\<lambda>(r, s).
                if r = -1 then Ok (Done (Some i, got) s)
                else if c = 10 then Ok (Done (Some (i + 1), got @ [c]) s)
                else consoleread_loop k dst (i + 1) (got @ [c]) s))"

definition consoleread :: "dest \<Rightarrow> int \<Rightarrow> 'a cons_scheme \<Rightarrow> (int \<times> u8 list, 'a cons_scheme) io res" where
  "consoleread dst n s =
     bind_res (acquire L_cons s) (\<lambda>s.
       bind_res (consoleread_loop (nat n) dst 0 [] s) (\<lambda>o'. case o' of
           Block (i, got) s \<Rightarrow> Ok (Block (int (the i), got) s)
         | Done (i, got) s \<Rightarrow> bind_res (release L_cons s) (\<lambda>s.
             Ok (Done (case i of None \<Rightarrow> -1 | Some i \<Rightarrow> int i, got) s))))"

text \<open>Every round of the loop for control-u takes a byte off the line, of which the buffer has at most \<open>INPUT_BUF\<close>.\<close>

fun kill_line :: "nat \<Rightarrow> 'a cons_scheme \<Rightarrow> 'a cons_scheme res" where
  "kill_line n s =
     (if ce s = cw s \<or> cbuf s ! (unat (ce s - 1) mod INPUT_BUF) = 10 then Ok s
      else case n of 0 \<Rightarrow> OutOfFuel
        | Suc n \<Rightarrow> bind_res (consputc BACKSPACE (s\<lparr>ce := ce s - 1\<rparr>)) (kill_line n))"

definition cons_put :: "u8 \<Rightarrow> 'a cons_scheme \<Rightarrow> 'a cons_scheme" where
  "cons_put c s = s\<lparr>cbuf := (cbuf s)[unat (ce s) mod INPUT_BUF := c], ce := ce s + 1\<rparr>"

definition consoleintr_switch :: "int \<Rightarrow> 'a cons_scheme \<Rightarrow> 'a cons_scheme res" where
  "consoleintr_switch c s =
     (if c = ctrl 80 then procdump s
      else if c = ctrl 85 then kill_line INPUT_BUF s
      else if c = ctrl 72 \<or> c = 0x7f
      then if ce s \<noteq> cw s then consputc BACKSPACE (s\<lparr>ce := ce s - 1\<rparr>) else Ok s
      else if c \<noteq> 0 \<and> ce s - cr s < of_nat INPUT_BUF
      then let c = (if c = 13 then 10 else c) in
           bind_res (consputc c s) (\<lambda>s.
             let s = cons_put (of_int c) s in
             if c = 10 \<or> c = ctrl 68 \<or> ce s = cr s + of_nat INPUT_BUF
             then wakeup Ch_cons (s\<lparr>cw := ce s\<rparr>)
             else Ok s)
      else Ok s)"

definition consoleintr :: "int \<Rightarrow> 'a cons_scheme \<Rightarrow> 'a cons_scheme res" where
  "consoleintr c s = bind_res (acquire L_cons s) (\<lambda>s. bind_res (consoleintr_switch c s) (release L_cons))"

fun uartintr_loop :: "nat \<Rightarrow> 'a cons_scheme \<Rightarrow> 'a cons_scheme res" where
  "uartintr_loop n s =
     (case uartgetc s of (c, s) \<Rightarrow>
        if c = -1 then Ok s
        else case n of 0 \<Rightarrow> OutOfFuel | Suc n \<Rightarrow> bind_res (consoleintr c s) (uartintr_loop n))"

text \<open>The handler reads until the receiver is empty, once for every byte that it holds.\<close>

definition uartintr :: "'a cons_scheme \<Rightarrow> 'a cons_scheme res" where
  "uartintr s =
     bind_res (uartintr_loop (length (uart_rx s)) s) (\<lambda>s.
       bind_res (acquire L_uart_tx s) (\<lambda>s.
         bind_res (uartstart s) (release L_uart_tx)))"

definition console_uart_init :: "'a cons_scheme \<Rightarrow> 'a cons_scheme" where
  "console_uart_init s = uartinit (initlock L_cons ''cons'' s)"

section \<open>The line discipline\<close>

text \<open>The abstract console: the bytes that may be read, and the line being typed.\<close>

definition ready_bytes :: "'a cons_scheme \<Rightarrow> u8 list" where
  "ready_bytes s = ring (cbuf s) (cr s) (cw s)"

definition edit_line :: "'a cons_scheme \<Rightarrow> u8 list" where
  "edit_line s = ring (cbuf s) (cw s) (ce s)"

definition line_edit :: "int \<Rightarrow> u8 list \<times> u8 list \<Rightarrow> u8 list \<times> u8 list" where
  "line_edit c = (\<lambda>(rd, ln).
     if c = ctrl 80 then (rd, ln)
     else if c = ctrl 85 then (rd, [])
     else if c = ctrl 72 \<or> c = 0x7f then (rd, butlast ln)
     else if c \<noteq> 0 \<and> length rd + length ln < INPUT_BUF
     then let c = (if c = 13 then 10 else c); ln = ln @ [of_int c] in
          if c = 10 \<or> c = ctrl 68 \<or> length rd + length ln = INPUT_BUF then (rd @ ln, []) else (rd, ln)
     else (rd, ln))"

definition cons_ok :: "'a cons_scheme \<Rightarrow> bool" where
  "cons_ok s \<longleftrightarrow> length (cbuf s) = INPUT_BUF \<and> unat (cw s - cr s) + unat (ce s - cw s) = unat (ce s - cr s) \<and>
     unat (ce s - cr s) \<le> INPUT_BUF \<and> 10 \<notin> set (edit_line s)"

text \<open>What a routine inside the critical section of \<open>consoleintr\<close> leaves alone.\<close>

definition inside :: "'a cons_scheme \<Rightarrow> 'a cons_scheme \<Rightarrow> bool" where
  "inside s t \<longleftrightarrow> tp t = tp s \<and> locks t = locks s \<and> cpus t = cpus s \<and> uart_rx t = uart_rx s \<and> panicked t = panicked s \<and>
     uart_fifo t = uart_fifo s \<and> uart_lcr t = uart_lcr s \<and> pr_locking t = pr_locking s \<and>
     uart_tx_buf t = uart_tx_buf s \<and> uart_tx_r t = uart_tx_r s \<and> uart_tx_w t = uart_tx_w s"

definition same_input :: "'a cons_scheme \<Rightarrow> 'a cons_scheme \<Rightarrow> bool" where
  "same_input s t \<longleftrightarrow> cbuf t = cbuf s \<and> cr t = cr s \<and> cw t = cw s \<and> ce t = ce s"

lemma inside_trans: "inside s t \<Longrightarrow> inside t u \<Longrightarrow> inside s u"
  by (simp add: inside_def)

lemma inside_can_print: "inside s t \<Longrightarrow> can_print s \<Longrightarrow> can_print t"
  by (simp add: inside_def can_print_def cpu_ok_def mycpu_def cpuid_def)

lemma inside_masked: "inside s t \<Longrightarrow> noff (mycpu s) \<noteq> 0 \<Longrightarrow> noff (mycpu t) \<noteq> 0"
  by (simp add: inside_def mycpu_def cpuid_def)

lemma printed_inside:
  assumes "printed bs s t" "noff (mycpu s) \<noteq> 0"
  shows "inside s t" "same_input s t" "procs t = procs s"
proof -
  have l: "lock_ctx s t" and e: "t\<lparr>cpus := cpus s, uart_out := uart_out s, uart_room := uart_room s\<rparr> = s"
    using assms(1) by (simp_all add: printed_def)
  have "f t = f s" if "\<And>c o' r. f (t\<lparr>cpus := c, uart_out := o', uart_room := r\<rparr>) = f t" for f :: "'a cons_scheme \<Rightarrow> 'b"
    using that e by metis
  note F = this
  show "same_input s t" unfolding same_input_def by (intro conjI; rule F; simp)
  show "procs t = procs s" by (rule F) simp
  have "uart_rx t = uart_rx s \<and> panicked t = panicked s \<and> uart_fifo t = uart_fifo s \<and> uart_lcr t = uart_lcr s \<and>
    pr_locking t = pr_locking s \<and> uart_tx_buf t = uart_tx_buf s \<and> uart_tx_r t = uart_tx_r s \<and> uart_tx_w t = uart_tx_w s"
    by (intro conjI; rule F; simp)
  then show "inside s t" using l masked_once_inside [OF assms(2)] by (auto simp: inside_def lock_ctx_def)
qed

text \<open>The process list is printed whatever the table holds.\<close>

lemma procdump_line:
  "\<exists>bs. printf_text (bytes ''%d %s %s'') [A_int i, A_str (Some st), A_str (Some nm)] = Some bs"
  "printf_text [10] [] = Some [10]"
  by (simp_all add: bytes_def)

lemma printf_inside:
  assumes "can_print s" "noff (mycpu s) \<noteq> 0" "pr_locking s \<Longrightarrow> lock_free L_pr s" "\<exists>bs. printf_text f as = Some bs"
  obtains t where "printf (Some f) as s = Ok t" "inside s t" "same_input s t"
  using printf_run [of s f as] assms printed_inside by blast

lemma procdump_loop_inside:
  assumes "can_print s" "noff (mycpu s) \<noteq> 0" "pr_locking s \<Longrightarrow> lock_free L_pr s"
  shows "\<exists>t. procdump_loop ps s = Ok t \<and> inside s t \<and> same_input s t"
  using assms
proof (induction ps arbitrary: s)
  case Nil
  then show ?case by (simp add: inside_def same_input_def)
next
  case (Cons p ps)
  show ?case
  proof (cases "pstate (procs s p) = UNUSED")
    case True
    then show ?thesis using Cons by simp
  next
    case False
    let ?st = "case states (pstate (procs s p)) of Some st \<Rightarrow> st | None \<Rightarrow> ''???''"
    obtain t where t: "printf (Some (bytes ''%d %s %s'')) [A_int (of_int (pid (procs s p))), A_str (Some (bytes ?st)),
        A_str (Some (pname (procs s p)))] s = Ok t" "inside s t" "same_input s t"
      using printf_inside [OF Cons.prems procdump_line(1)] by blast
    have k: "can_print t" "noff (mycpu t) \<noteq> 0" "pr_locking t \<Longrightarrow> lock_free L_pr t"
      using Cons.prems t(2) inside_can_print [OF t(2)] inside_masked [OF t(2)] by (auto simp: inside_def lock_free_def)
    obtain u where u: "printf (Some [10]) [] t = Ok u" "inside t u" "same_input t u"
      using printf_inside [OF k] procdump_line(2) by blast
    have k': "can_print u" "noff (mycpu u) \<noteq> 0" "pr_locking u \<Longrightarrow> lock_free L_pr u"
      using k u(2) inside_can_print [OF u(2)] inside_masked [OF u(2)] by (auto simp: inside_def lock_free_def)
    obtain v where "procdump_loop ps u = Ok v" "inside u v" "same_input u v" using Cons.IH [OF k'] by blast
    then show ?thesis using False t u by (auto simp: Let_def inside_def same_input_def)
  qed
qed

lemma procdump_inside:
  assumes "can_print s" "noff (mycpu s) \<noteq> 0" "pr_locking s \<Longrightarrow> lock_free L_pr s"
  obtains t where "procdump s = Ok t" "inside s t" "same_input s t"
proof -
  obtain t where t: "printf (Some [10]) [] s = Ok t" "inside s t" "same_input s t"
    using printf_inside [OF assms] procdump_line(2) by blast
  have k: "can_print t" "noff (mycpu t) \<noteq> 0" "pr_locking t \<Longrightarrow> lock_free L_pr t"
    using assms t(2) inside_can_print [OF t(2)] inside_masked [OF t(2)] by (auto simp: inside_def lock_free_def)
  then show ?thesis
    using procdump_loop_inside [OF k, of "[0..<NPROC]"] t that by (auto simp: procdump_def inside_def same_input_def)
qed

lemma consputc_inside:
  assumes "can_print s" "noff (mycpu s) \<noteq> 0"
  obtains t where "consputc c s = Ok t" "inside s t" "same_input s t" "procs t = procs s"
  using consputc_prints [OF assms(1), of c] printed_inside [OF _ assms(2)] by metis

declare kill_line.simps [simp del]

lemma cons_ok_back:
  assumes "cons_ok s" "ce s \<noteq> cw s" "same_input (s\<lparr>ce := ce s - 1\<rparr>) t"
  shows "cons_ok t" "ready_bytes t = ready_bytes s" "edit_line t = butlast (edit_line s)"
proof -
  have t: "cbuf t = cbuf s" "cr t = cr s" "cw t = cw s" "ce t = ce s - 1" using assms(3) by (simp_all add: same_input_def)
  then show "ready_bytes t = ready_bytes s" by (simp add: ready_bytes_def)
  show e: "edit_line t = butlast (edit_line s)" using t by (simp add: edit_line_def ring_back [OF assms(2)])
  have b: "Suc (unat (ce s - 1 - cw s)) = unat (ce s - cw s)" by (rule unat_diff_back [OF assms(2)])
  have "ce s \<noteq> cr s" using assms(1) b by (auto simp: cons_ok_def)
  then have "Suc (unat (ce s - 1 - cr s)) = unat (ce s - cr s)" by (rule unat_diff_back)
  then show "cons_ok t" using assms(1) b t e by (auto simp: cons_ok_def dest: in_set_butlastD)
qed

lemma kill_line_inside:
  assumes "can_print s" "noff (mycpu s) \<noteq> 0" "cons_ok s" "length (edit_line s) \<le> n"
  shows "\<exists>t. kill_line n s = Ok t \<and> inside s t \<and> cons_ok t \<and> ready_bytes t = ready_bytes s \<and> edit_line t = []"
  using assms
proof (induction n arbitrary: s)
  case 0
  then have "ce s = cw s" by (simp add: edit_line_def unat_eq_0)
  then show ?case using 0 by (simp add: kill_line.simps [of 0] inside_def edit_line_def)
next
  case (Suc n)
  show ?case
  proof (cases "ce s = cw s")
    case True
    then show ?thesis using Suc.prems by (simp add: kill_line.simps [of _ s] inside_def edit_line_def)
  next
    case False
    have "edit_line s \<noteq> []" using False by (simp add: edit_line_def ring_empty_iff)
    then have nl: "cbuf s ! (unat (ce s - 1) mod INPUT_BUF) \<noteq> 10"
      using Suc.prems(3) ring_last [OF False, of "cbuf s"] last_in_set [of "edit_line s"] by (auto simp: cons_ok_def edit_line_def)
    have k: "can_print (s\<lparr>ce := ce s - 1\<rparr>)" "noff (mycpu (s\<lparr>ce := ce s - 1\<rparr>)) \<noteq> 0"
      using Suc.prems(1,2) by (simp_all add: can_print_def cpu_ok_def mycpu_def cpuid_def)
    obtain t where t: "consputc BACKSPACE (s\<lparr>ce := ce s - 1\<rparr>) = Ok t" "inside (s\<lparr>ce := ce s - 1\<rparr>) t"
        "same_input (s\<lparr>ce := ce s - 1\<rparr>) t" by (rule consputc_inside [OF k])
    note b = cons_ok_back [OF Suc.prems(3) False t(3)]
    have "\<exists>u. kill_line n t = Ok u \<and> inside t u \<and> cons_ok u \<and> ready_bytes u = ready_bytes t \<and> edit_line u = []"
      using Suc.prems(4) inside_can_print [OF t(2) k(1)] inside_masked [OF t(2) k(2)] b by (intro Suc.IH) auto
    then show ?thesis using False nl t(1,2) b(2) by (auto simp: kill_line.simps [of "Suc n" s] inside_def)
  qed
qed

lemma input_size: "INPUT_BUF dvd 2 ^ LENGTH(32)" "INPUT_BUF < 2 ^ LENGTH(32)"
  by (simp_all add: INPUT_BUF_def)

lemma cons_all: "cons_ok s \<Longrightarrow> ring (cbuf s) (cr s) (ce s) = ready_bytes s @ edit_line s"
  unfolding cons_ok_def ready_bytes_def edit_line_def by (elim conjE) (rule ring_append)

text \<open>Storing a typed byte, before the line is handed over.\<close>

lemma cons_put_lines:
  assumes "cons_ok s" "unat (ce s - cr s) < INPUT_BUF"
  shows "ready_bytes (cons_put c s) = ready_bytes s" "edit_line (cons_put c s) = edit_line s @ [c]"
    "unat (ce s + 1 - cr s) = Suc (unat (ce s - cr s))" "unat (ce s + 1 - cw s) = Suc (unat (ce s - cw s))"
proof -
  have ok: "length (cbuf s) = INPUT_BUF" "unat (cw s - cr s) + unat (ce s - cw s) = unat (ce s - cr s)"
    using assms(1) by (simp_all add: cons_ok_def)
  show r: "unat (ce s + 1 - cr s) = Suc (unat (ce s - cr s))" by (rule unat_diff_Suc [OF assms(2) input_size(2)])
  show w: "unat (ce s + 1 - cw s) = Suc (unat (ce s - cw s))" using ok(2) assms(2) by (intro unat_diff_Suc [OF _ input_size(2)]) simp
  let ?b = "(cbuf s)[unat (ce s) mod INPUT_BUF := c]"
  have "ring ?b (cr s) (ce s + 1) = ring (cbuf s) (cr s) (ce s) @ [c]"
    using ok(1) assms(2) input_size by (intro ring_push) (simp_all add: ring_ok_def)
  moreover have "ring ?b (cr s) (ce s + 1) = ring ?b (cr s) (cw s) @ ring ?b (cw s) (ce s + 1)"
    by (rule ring_append) (simp add: r w ok(2))
  ultimately have "ring ?b (cr s) (cw s) @ ring ?b (cw s) (ce s + 1) = ready_bytes s @ (edit_line s @ [c])"
    using cons_all [OF assms(1)] by simp
  moreover have "length (ring ?b (cr s) (cw s)) = length (ready_bytes s)" by (simp add: ready_bytes_def)
  ultimately show "ready_bytes (cons_put c s) = ready_bytes s" "edit_line (cons_put c s) = edit_line s @ [c]"
    by (simp_all add: ready_bytes_def edit_line_def cons_put_def)
qed

lemma lengths: "length (ready_bytes s) = unat (cw s - cr s)" "length (edit_line s) = unat (ce s - cw s)"
  by (simp_all add: ready_bytes_def edit_line_def)

lemma cons_put_ok:
  assumes "cons_ok s" "unat (ce s - cr s) < INPUT_BUF"
  shows "c \<noteq> 10 \<Longrightarrow> cons_ok (cons_put c s)"
    and "cons_ok ((cons_put c s)\<lparr>cw := ce (cons_put c s)\<rparr>)"
    and "ready_bytes ((cons_put c s)\<lparr>cw := ce (cons_put c s)\<rparr>) = ready_bytes s @ edit_line s @ [c]"
    and "edit_line ((cons_put c s)\<lparr>cw := ce (cons_put c s)\<rparr>) = []"
proof -
  note L = cons_put_lines(1,2) [OF assms, of c] cons_put_lines(3,4) [OF assms]
  have f: "cr (cons_put c s) = cr s" "cw (cons_put c s) = cw s" "ce (cons_put c s) = ce s + 1"
    "length (cbuf (cons_put c s)) = length (cbuf s)" by (simp_all add: cons_put_def)
  show "c \<noteq> 10 \<Longrightarrow> cons_ok (cons_put c s)"
    using assms L by (auto simp: cons_ok_def f)
  have "ring (cbuf (cons_put c s)) (cr s) (ce s + 1) = ready_bytes (cons_put c s) @ edit_line (cons_put c s)"
    unfolding ready_bytes_def edit_line_def f using assms(1) by (intro ring_append) (simp add: L cons_ok_def)
  then show "ready_bytes ((cons_put c s)\<lparr>cw := ce (cons_put c s)\<rparr>) = ready_bytes s @ edit_line s @ [c]"
    by (simp add: L(1,2)) (simp add: ready_bytes_def f)
  show "edit_line ((cons_put c s)\<lparr>cw := ce (cons_put c s)\<rparr>) = []" by (simp add: edit_line_def)
  then show "cons_ok ((cons_put c s)\<lparr>cw := ce (cons_put c s)\<rparr>)" using assms L by (simp add: cons_ok_def f)
qed

text \<open>The states in which a console interrupt may be handled.\<close>

definition cons_ready :: "'a cons_scheme \<Rightarrow> bool" where
  "cons_ready s \<longleftrightarrow> can_print s \<and> cons_ok s \<and> lock_free L_cons s \<and> (\<forall>p < NPROC. lock_free (L_proc p) s) \<and>
     (pr_locking s \<longrightarrow> lock_free L_pr s)"

text \<open>The handler's body inside the critical section.\<close>

definition edited :: "int \<Rightarrow> 'a cons_scheme \<Rightarrow> 'a cons_scheme \<Rightarrow> bool" where
  "edited c s t \<longleftrightarrow> inside s t \<and> cons_ok t \<and> (ready_bytes t, edit_line t) = line_edit c (ready_bytes s, edit_line s)"

lemma cons_ok_same:
  assumes "same_input s t" "cons_ok s"
  shows "cons_ok t" "ready_bytes t = ready_bytes s" "edit_line t = edit_line s"
  using assms by (simp_all add: same_input_def cons_ok_def ready_bytes_def edit_line_def)

lemma room_iff: "cons_ok s \<Longrightarrow> ce s - cr s < of_nat INPUT_BUF \<longleftrightarrow> length (ready_bytes s) + length (edit_line s) < INPUT_BUF"
  by (simp add: lengths cons_ok_def word_less_nat_alt INPUT_BUF_def)

lemma typed_edited:
  assumes "can_print s" "noff (mycpu s) \<noteq> 0" "cons_ok s" "\<And>p. p < NPROC \<Longrightarrow> lock_free (L_proc p) s" "0 \<le> c" "c < 256"
    and "length (ready_bytes s) + length (edit_line s) < INPUT_BUF" "c \<notin> {0, ctrl 80, ctrl 85, ctrl 72, 0x7f}"
  shows "\<exists>t. consoleintr_switch c s = Ok t \<and> edited c s t"
proof -
  define d where "d = (if c = 13 then 10 else c)"
  have room: "unat (ce s - cr s) < INPUT_BUF" using assms(3,7) by (simp add: lengths cons_ok_def)
  obtain u where u: "consputc d s = Ok u" "inside s u" "same_input s u" by (rule consputc_inside [OF assms(1,2)])
  note U = cons_ok_same [OF u(3) assms(3)]
  have ru: "unat (ce u - cr u) < INPUT_BUF" using room u(3) by (simp add: same_input_def)
  let ?p = "cons_put (of_int d) u"
  note P = cons_put_ok [OF U(1) ru, where c = "of_int d"] cons_put_lines(1,2) [OF U(1) ru, of "of_int d"]
  have full: "ce ?p = cr ?p + of_nat INPUT_BUF \<longleftrightarrow> length (ready_bytes s) + length (edit_line s @ [of_int d]) = INPUT_BUF"
    using ring_full_iff [OF input_size(2), of "ce ?p" "cr ?p"] cons_put_lines(3) [OF U(1) ru] assms(3) u(3)
    by (simp add: lengths cons_ok_def cons_put_def same_input_def)
  have ins: "inside s ?p" "inside s (?p\<lparr>cw := ce ?p\<rparr>)" using u(2) by (simp_all add: inside_def cons_put_def)
  have body: "consoleintr_switch c s = (if d = 10 \<or> d = ctrl 68 \<or> ce ?p = cr ?p + of_nat INPUT_BUF
      then wakeup Ch_cons (?p\<lparr>cw := ce ?p\<rparr>) else Ok ?p)"
    using assms(3,7,8) room_iff [OF assms(3)] u(1) unfolding consoleintr_switch_def d_def by (auto simp: Let_def)
  have spec: "line_edit c (ready_bytes s, edit_line s) = (if d = 10 \<or> d = ctrl 68 \<or> ce ?p = cr ?p + of_nat INPUT_BUF
      then (ready_bytes s @ edit_line s @ [of_int d], []) else (ready_bytes s, edit_line s @ [of_int d]))"
    using assms(7,8) full unfolding line_edit_def d_def by (auto simp: Let_def)
  show ?thesis
  proof (cases "d = 10 \<or> d = ctrl 68 \<or> ce ?p = cr ?p + of_nat INPUT_BUF")
    case True
    let ?q = "?p\<lparr>cw := ce ?p\<rparr>"
    have h: "cpu_ok ?q" "noff (mycpu ?q) \<noteq> 0" "\<And>p. p < NPROC \<Longrightarrow> lock_free (L_proc p) ?q"
      using inside_can_print [OF ins(2) assms(1)] inside_masked [OF ins(2) assms(2)] ins(2) assms(4)
      by (auto simp: can_print_def inside_def lock_free_def)
    obtain ps where w: "wakeup Ch_cons ?q = Ok (?q\<lparr>procs := ps\<rparr>)" using wakeup_inside [OF h] by blast
    have "inside s (?q\<lparr>procs := ps\<rparr>)" "same_input ?q (?q\<lparr>procs := ps\<rparr>)" using ins(2) by (simp_all add: inside_def same_input_def)
    then show ?thesis
      using True body w spec cons_ok_same [of ?q "?q\<lparr>procs := ps\<rparr>"] P U by (simp add: edited_def)
  next
    case False
    have "uint (of_int d :: u8) = d" using assms(5,6) by (simp add: d_def unsigned_of_int take_bit_int_eq_self)
    then have "of_int d \<noteq> (10 :: u8)" using False by auto
    then show ?thesis using False body spec P U ins(1) by (simp add: edited_def)
  qed
qed

lemma switch_edited:
  assumes "can_print s" "noff (mycpu s) \<noteq> 0" "cons_ok s" "\<And>p. p < NPROC \<Longrightarrow> lock_free (L_proc p) s"
    "pr_locking s \<Longrightarrow> lock_free L_pr s" "0 \<le> c" "c < 256"
  shows "\<exists>t. consoleintr_switch c s = Ok t \<and> edited c s t"
proof -
  have stay: "inside s s" "same_input s s" by (simp_all add: inside_def same_input_def)
  consider "c = ctrl 80" | "c = ctrl 85" | "c = ctrl 72 \<or> c = 0x7f" | "c \<notin> {ctrl 80, ctrl 85, ctrl 72, 0x7f}" by auto
  then show ?thesis
  proof cases
    case 1
    obtain t where "procdump s = Ok t" "inside s t" "same_input s t" using procdump_inside [OF assms(1,2,5)] by blast
    then show ?thesis using 1 cons_ok_same [of s t] assms(3) by (simp add: consoleintr_switch_def edited_def line_edit_def)
  next
    case 2
    have "length (edit_line s) \<le> INPUT_BUF" using assms(3) by (simp add: lengths cons_ok_def)
    then show ?thesis using 2 kill_line_inside [OF assms(1-3)]
      by (auto simp: consoleintr_switch_def edited_def line_edit_def ctrl_def)
  next
    case 3
    show ?thesis
    proof (cases "ce s = cw s")
      case True
      then show ?thesis using 3 stay assms(3)
        by (auto simp: consoleintr_switch_def edited_def line_edit_def ctrl_def edit_line_def)
    next
      case False
      have k: "can_print (s\<lparr>ce := ce s - 1\<rparr>)" "noff (mycpu (s\<lparr>ce := ce s - 1\<rparr>)) \<noteq> 0"
        using assms(1,2) by (simp_all add: can_print_def cpu_ok_def mycpu_def cpuid_def)
      obtain t where t: "consputc BACKSPACE (s\<lparr>ce := ce s - 1\<rparr>) = Ok t" "inside (s\<lparr>ce := ce s - 1\<rparr>) t"
        "same_input (s\<lparr>ce := ce s - 1\<rparr>) t" by (rule consputc_inside [OF k])
      have "inside s t" using t(2) by (simp add: inside_def)
      then show ?thesis using 3 False t(1) cons_ok_back [OF assms(3) False t(3)]
        by (auto simp: consoleintr_switch_def edited_def line_edit_def ctrl_def)
    qed
  next
    case 4
    show ?thesis
    proof (cases "c \<noteq> 0 \<and> length (ready_bytes s) + length (edit_line s) < INPUT_BUF")
      case True
      then show ?thesis using 4 typed_edited [OF assms(1-4,6,7)] by auto
    next
      case False
      then show ?thesis using 4 stay assms(3) room_iff [OF assms(3)]
        by (auto simp: consoleintr_switch_def edited_def line_edit_def)
    qed
  qed
qed

lemma enter_cons [simp]:
  "cbuf (enter_state l s) = cbuf s" "cr (enter_state l s) = cr s" "cw (enter_state l s) = cw s" "ce (enter_state l s) = ce s"
  "pr_locking (enter_state l s) = pr_locking s" "uart_rx (enter_state l s) = uart_rx s" "uart_fifo (enter_state l s) = uart_fifo s"
  by (simp_all add: enter_state_def lock_defs)

lemma consoleintr_edits:
  assumes "cons_ready s" "0 \<le> c" "c < 256"
  obtains t where "consoleintr c s = Ok t" "(ready_bytes t, edit_line t) = line_edit c (ready_bytes s, edit_line s)"
    "cons_ready t" "uart_rx t = uart_rx s" "lock_ctx s t" "tx_ok t = tx_ok s"
proof -
  let ?e = "enter_state L_cons s"
  have s: "can_print s" "cons_ok s" "lock_free L_cons s" "\<And>p. p < NPROC \<Longrightarrow> lock_free (L_proc p) s" "pr_locking s \<Longrightarrow> lock_free L_pr s"
    "cpu_ok s"
    using assms(1) by (auto simp: cons_ready_def can_print_def)
  note e = enter_hart [of s L_cons, OF s(6) _ s(4)]
  have pr: "lock_free L_pr ?e" if "pr_locking s" using s(5) [OF that] by (simp add: lock_free_def enter_state_def lock_defs)
  have si: "same_input s ?e" by (simp add: same_input_def)
  note E = cons_ok_same [OF si s(2)]
  have ce: "can_print ?e" using s(1) e(1) by (simp add: can_print_def)
  obtain u where u: "consoleintr_switch c ?e = Ok u" "edited c ?e u"
    using switch_edited [OF ce e(2) E(1) e(3) _ assms(2,3)] pr by auto
  have i: "inside ?e u" "cons_ok u" using u(2) by (simp_all add: edited_def)
  let ?t = "u\<lparr>cpus := cpus (masked_once s), locks := locks s\<rparr>"
  have "release L_cons u = Ok ?t" using i(1) by (intro release_enter [OF s(3,6)]) (simp_all add: inside_def)
  then have "consoleintr c s = Ok ?t" using u(1) by (simp add: consoleintr_def acquire_free [OF s(3)])
  moreover have "lock_ctx s ?t" using i(1) by (simp add: lock_ctx_def inside_def)
  moreover have q: "same_input u ?t" by (simp add: same_input_def)
  moreover have "cons_ready ?t"
    using s i(1) cons_ok_same(1) [OF q i(2)] lock_ctx_cpu_ok [OF \<open>lock_ctx s ?t\<close>]
    by (auto simp: cons_ready_def can_print_def inside_def lock_free_def)
  moreover have "tx_ok ?t = tx_ok s" using i(1) by (simp add: tx_ok_def inside_def)
  ultimately show ?thesis using that u(2) cons_ok_same [OF q i(2)] E i(1) by (auto simp: edited_def inside_def)
qed

declare uartintr_loop.simps [simp del]

lemma uartgetc_reads:
  "uartgetc s = (case uart_rx s of [] \<Rightarrow> (-1, s) | b # bs \<Rightarrow> (uint b, s\<lparr>uart_rx := bs\<rparr>))"
  by (auto simp: uartgetc_def ReadReg_def uart_consts split: list.splits)

lemma uartintr_loop_edits:
  assumes "cons_ready s"
  shows "\<exists>t. uartintr_loop (length (uart_rx s)) s = Ok t \<and> uart_rx t = [] \<and> cons_ready t \<and> lock_ctx s t \<and> tx_ok t = tx_ok s \<and>
    (ready_bytes t, edit_line t) = fold (\<lambda>b. line_edit (uint b)) (uart_rx s) (ready_bytes s, edit_line s)"
  using assms
proof (induction "uart_rx s" arbitrary: s)
  case Nil
  then show ?case by (simp add: uartintr_loop.simps [of _ s] uartgetc_reads flip: Nil(1))
next
  case (Cons b bs)
  let ?u = "s\<lparr>uart_rx := bs\<rparr>"
  have u: "cons_ready ?u" "ready_bytes ?u = ready_bytes s" "edit_line ?u = edit_line s" "tx_ok ?u = tx_ok s"
    using Cons.prems by (simp_all add: cons_ready_def can_print_def cons_ok_def cpu_ok_def mycpu_def cpuid_def lock_free_def
        ready_bytes_def edit_line_def tx_ok_def)
  have b: "0 \<le> uint b" "uint b < 256" "uint b \<noteq> -1" using uint_bounded [of b] uint_nonnegative [of b] by (simp_all, linarith)
  obtain v where v: "consoleintr (uint b) ?u = Ok v" "(ready_bytes v, edit_line v) = line_edit (uint b) (ready_bytes ?u, edit_line ?u)"
      "cons_ready v" "uart_rx v = uart_rx ?u" "lock_ctx ?u v" "tx_ok v = tx_ok ?u"
    by (rule consoleintr_edits [OF u(1) b(1,2)])
  have "lock_ctx s ?u" by (simp add: lock_ctx_def)
  then have l: "lock_ctx s v" using v(5) lock_ctx_trans by blast
  have r: "uart_rx v = bs" "uart_rx s = b # bs" using v(4) Cons(2) by simp_all
  from Cons(1) [OF r(1) [symmetric] v(3)]
  obtain t where t: "uartintr_loop (length bs) v = Ok t" "uart_rx t = []" "cons_ready t" "lock_ctx v t" "tx_ok t = tx_ok v"
      "(ready_bytes t, edit_line t) = fold (\<lambda>b. line_edit (uint b)) bs (ready_bytes v, edit_line v)"
    using r by auto
  have "uartintr_loop (length (uart_rx s)) s = Ok t"
    using b(3) v(1) t(1) by (simp add: r(2) uartintr_loop.simps [of "Suc _" s] uartgetc_reads)
  then show ?case using t v(2,6) u lock_ctx_trans [OF l t(4)] r(2) by simp
qed

section \<open>Properties\<close>

text \<open>
  (C14) Console input is line at a time. Whatever has been typed, the interrupt handler takes every received byte, in
  order, and the input buffer, a ring with three wrapping 32-bit indices, acts as the pair of the finished
  lines and the line being edited: backspace and control-u change only the current line, a newline or
  control-d hands it over, and what does not fit into 128 bytes is dropped.
\<close>

theorem console_lines:
  assumes "cons_ready s" "lock_free L_uart_tx s" "tx_ok s"
  shows "\<exists>t. uartintr s = Ok t \<and> uart_rx t = [] \<and> cons_ready t \<and> lock_ctx s t \<and>
    (ready_bytes t, edit_line t) = fold (\<lambda>b. line_edit (uint b)) (uart_rx s) (ready_bytes s, edit_line s)"
proof -
  obtain u where u: "uartintr_loop (length (uart_rx s)) s = Ok u" "uart_rx u = []" "cons_ready u" "lock_ctx s u" "tx_ok u"
      "(ready_bytes u, edit_line u) = fold (\<lambda>b. line_edit (uint b)) (uart_rx s) (ready_bytes s, edit_line s)"
    using uartintr_loop_edits [OF assms(1)] assms(3) by auto
  let ?e = "enter_state L_uart_tx u"
  have f: "lock_free L_uart_tx u" "cpu_ok u" "\<And>p. p < NPROC \<Longrightarrow> lock_free (L_proc p) u" "\<not> bit (uart_lcr u) 7"
    using u(3) assms(2) lock_ctx_free [OF u(4)] by (auto simp: cons_ready_def can_print_def)
  have e: "cpu_ok ?e" "noff (mycpu ?e) \<noteq> 0" "\<And>p. p < NPROC \<Longrightarrow> lock_free (L_proc p) ?e" "\<not> bit (uart_lcr ?e) 7" "tx_ok ?e"
    using enter_hart [of u L_uart_tx, OF f(2) _ f(3)] f(4) u(5) by (auto simp: tx_ok_def)
  obtain v where v: "uartstart ?e = Ok v" "drained ?e v" by (rule uartstart_drains [OF e])
  have fr: "v = ?e\<lparr>uart_tx_r := uart_tx_r v, procs := procs v, uart_out := uart_out v, uart_room := uart_room v\<rparr>"
    using v(2) unfolding drained_def by (elim conjE)
  have k: "locks v = locks ?e" "cpus v = cpus ?e" "tp v = tp u" "uart_rx v = uart_rx u" "panicked v = panicked u" "uart_fifo v = uart_fifo u"
    "uart_lcr v = uart_lcr u" "pr_locking v = pr_locking u" "cbuf v = cbuf u" "cr v = cr u" "cw v = cw u" "ce v = ce u"
    by (subst fr, simp)+
  let ?t = "v\<lparr>cpus := cpus (masked_once u), locks := locks u\<rparr>"
  have "release L_uart_tx v = Ok ?t" by (rule release_enter [OF f(1,2) k(1-3)])
  then have "uartintr s = Ok ?t" using u(1) v(1) by (simp add: uartintr_def acquire_free [OF f(1)])
  moreover have l: "lock_ctx u ?t" using k by (simp add: lock_ctx_def)
  moreover have "same_input u ?t" using k by (simp add: same_input_def)
  moreover have "cons_ready ?t"
    using u(3) k cons_ok_same(1) [OF \<open>same_input u ?t\<close>] lock_ctx_cpu_ok [OF l]
    by (auto simp: cons_ready_def can_print_def lock_free_def)
  moreover have "ready_bytes ?t = ready_bytes u" "edit_line ?t = edit_line u"
    using k by (simp_all add: ready_bytes_def edit_line_def)
  ultimately show ?thesis using u(2,6) k(4) lock_ctx_trans [OF u(4) l] by auto
qed

definition quiet_cons :: cons where
  "quiet_cons = uart.extend (quiet_uart\<lparr>uart_rx := bytes ''lx'' @ [8] @ bytes ''s'' @ [13] @ bytes ''wc''\<rparr>)
     (cons.fields (replicate 128 0) 4294967295 4294967295 4294967295)"

theorem console_lines_witness:
  "\<exists>t. uartintr quiet_cons = Ok t \<and> uart_rx t = [] \<and> ready_bytes t = bytes ''ls'' @ [10] \<and> edit_line t = bytes ''wc''"
proof -
  note D = quiet_cons_def quiet_uart_def ptable.defs uart.defs cons.defs idle_ptable_def
  have "ready_bytes quiet_cons = []" "edit_line quiet_cons = []"
    by (simp_all add: D ready_bytes_def edit_line_def)
  moreover have "cons_ready quiet_cons" "lock_free L_uart_tx quiet_cons" "tx_ok quiet_cons"
    by (simp_all add: D cons_ready_def can_print_def cons_ok_def cpu_ok_def lock_free_def tx_ok_def ring_ok_def lock_defs
        UART_TX_BUF_SIZE_def INPUT_BUF_def edit_line_def)
  moreover have "fold (\<lambda>b. line_edit (uint b)) (uart_rx quiet_cons) ([], []) = (bytes ''ls'' @ [10], bytes ''wc'')"
    by (simp add: D line_edit_def ctrl_def Let_def INPUT_BUF_def)
  ultimately show ?thesis using console_lines [of quiet_cons] by auto
qed

end
