(* ===== verification/Sleeplock.thy ===== *)
theory Sleeplock
  imports Console
begin

text \<open>
  Long-term locks: \<^verbatim>\<open>kernel/sleeplock.c\<close>. A sleep lock is named like the spin lock inside it. Where \<open>acquiresleep\<close>
  finds the lock taken it calls \<open>sleep\<close>, which ends the call here with the outcome \<open>Sleep\<close>.
\<close>

record sleeplock =
  slocked :: bool
  sname :: string
  spid :: int

record slocks = cons +
  sleeplocks :: "lockid \<Rightarrow> sleeplock"

definition set_sleeplock :: "lockid \<Rightarrow> (sleeplock \<Rightarrow> sleeplock) \<Rightarrow> 'a slocks_scheme \<Rightarrow> 'a slocks_scheme" where
  "set_sleeplock l f s = s\<lparr>sleeplocks := (sleeplocks s)(l := f (sleeplocks s l))\<rparr>"

definition initsleeplock :: "lockid \<Rightarrow> string \<Rightarrow> 'a slocks_scheme \<Rightarrow> 'a slocks_scheme" where
  "initsleeplock l n s = set_sleeplock l (\<lambda>_. \<lparr>slocked = False, sname = n, spid = 0\<rparr>) (initlock l ''sleep lock'' s)"

definition acquiresleep :: "lockid \<Rightarrow> 'a slocks_scheme \<Rightarrow> 'a slocks_scheme res" where
  "acquiresleep l s =
     bind_res (acquire l s) (\<lambda>s.
       if slocked (sleeplocks s l) then Sleep
       else let s = set_sleeplock l (\<lambda>k. k\<lparr>slocked := True\<rparr>) s in
         bind_res (curproc s) (\<lambda>(p, s).
           release l (set_sleeplock l (\<lambda>k. k\<lparr>spid := pid (procs s p)\<rparr>) s)))"

definition releasesleep :: "lockid \<Rightarrow> 'a slocks_scheme \<Rightarrow> 'a slocks_scheme res" where
  "releasesleep l s =
     bind_res (acquire l s) (\<lambda>s.
       bind_res (wakeup (Ch_sleeplock l) (set_sleeplock l (\<lambda>k. k\<lparr>slocked := False, spid := 0\<rparr>) s)) (release l))"

definition holdingsleep :: "lockid \<Rightarrow> 'a slocks_scheme \<Rightarrow> (bool \<times> 'a slocks_scheme) res" where
  "holdingsleep l s =
     bind_res (acquire l s) (\<lambda>s.
       bind_res (if slocked (sleeplocks s l)
                 then bind_res (curproc s) (\<lambda>(p, s). Ok (spid (sleeplocks s l) = pid (procs s p), s))
                 else Ok (False, s)) (\<lambda>(r, s).
         bind_res (release l s) (\<lambda>s. Ok (r, s))))"

section \<open>Critical sections of a process\<close>

text \<open>The state in which a process may take short locks: interrupts are in order and no process lock is held.\<close>

definition hart_ok :: "'a ptable_scheme \<Rightarrow> bool" where
  "hart_ok s \<longleftrightarrow> cpu_ok s \<and> (\<forall>p < NPROC. lock_free (L_proc p) s)"

text \<open>Processes may be woken; nothing else of them changes.\<close>

definition woke :: "(nat \<Rightarrow> proc) \<Rightarrow> (nat \<Rightarrow> proc) \<Rightarrow> bool" where
  "woke ps qs \<longleftrightarrow> (\<forall>p. (qs p)\<lparr>pstate := pstate (ps p)\<rparr> = ps p)"

lemma woke_refl [simp]: "woke ps ps"
  by (simp add: woke_def)

lemma woke_trans: "woke ps qs \<Longrightarrow> woke qs rs \<Longrightarrow> woke ps rs"
  unfolding woke_def by (metis (no_types, lifting) proc.surjective proc.update_convs(1))

lemma woke_pid: "woke ps qs \<Longrightarrow> pid (qs p) = pid (ps p)"
proof -
  assume "woke ps qs"
  then have "pid ((qs p)\<lparr>pstate := pstate (ps p)\<rparr>) = pid (ps p)" by (simp add: woke_def)
  then show ?thesis by simp
qed

lemma wakeup_hart:
  assumes "hart_ok s" "noff (mycpu s) \<noteq> 0"
  obtains ps where "wakeup ch s = Ok (s\<lparr>procs := ps\<rparr>)" "woke (procs s) ps"
proof -
  have "woke (procs s) (woken ch (cproc (mycpu s)) {..<NPROC} (procs s))" by (auto simp: woke_def woken_def)
  then show ?thesis using wakeup_inside [of s ch] assms that by (auto simp: hart_ok_def)
qed

lemma lock_ctx_hart: "lock_ctx s t \<Longrightarrow> hart_ok s \<Longrightarrow> hart_ok t" for s t :: "'a ptable_scheme"
  by (simp add: hart_ok_def lock_ctx_cpu_ok lock_ctx_free)

lemma curproc_inside:
  assumes "cpu_ok s" "noff (mycpu s) \<noteq> 0" "cproc (mycpu s) = Some p"
  shows "curproc s = Ok (p, s)"
  using curproc_free [OF assms(1,3)] masked_once_inside [OF assms(2)] by simp

lemma enter_cproc [simp]: "cproc (mycpu (enter_state l s)) = cproc (mycpu s)"
  by (simp add: enter_state_def lock_defs)

section \<open>What the operations do\<close>

lemma sleeplocks_enter [simp]: "sleeplocks (enter_state l s) = sleeplocks s" "procs (enter_state l s) = procs s"
  by (simp_all add: enter_state_def lock_defs)

lemma set_sleeplock_eq: "set_sleeplock l f s = s\<lparr>sleeplocks := (sleeplocks s)(l := f (sleeplocks s l))\<rparr>"
  by (simp add: set_sleeplock_def)

lemma acquiresleep_run:
  assumes "cpu_ok s" "lock_free l s" "cproc (mycpu s) = Some p"
  shows "acquiresleep l s = (if slocked (sleeplocks s l) then Sleep
    else Ok (set_sleeplock l (\<lambda>k. k\<lparr>slocked := True, spid := pid (procs s p)\<rparr>) (masked_once s)))"
proof (cases "slocked (sleeplocks s l)")
  case True
  then show ?thesis by (simp add: acquiresleep_def acquire_free [OF assms(2)])
next
  case False
  let ?e = "enter_state l s" and ?u = "set_sleeplock l (\<lambda>k. k\<lparr>slocked := True\<rparr>) (enter_state l s)"
  have h: "cpu_ok ?e" "noff (mycpu ?e) \<noteq> 0" using assms(1) by (auto simp: cpu_ok_def enter_state_def lock_defs)
  then have "cpu_ok ?u" "noff (mycpu ?u) \<noteq> 0" "cproc (mycpu ?u) = Some p"
    using assms(3) by (simp_all add: set_sleeplock_def cpu_ok_def mycpu_def cpuid_def enter_state_def lock_defs)
  then have c: "curproc ?u = Ok (p, ?u)" by (rule curproc_inside)
  have "release l (set_sleeplock l (\<lambda>k. k\<lparr>slocked := True, spid := pid (procs s p)\<rparr>) ?e)
      = Ok (set_sleeplock l (\<lambda>k. k\<lparr>slocked := True, spid := pid (procs s p)\<rparr>) (masked_once s))"
    by (rule critical_section) (use assms in \<open>simp_all add: set_sleeplock_def\<close>)
  then show ?thesis using False c by (simp add: acquiresleep_def acquire_free [OF assms(2)]) (simp add: set_sleeplock_def)
qed

lemma holdingsleep_run:
  assumes "cpu_ok s" "lock_free l s" "cproc (mycpu s) = Some p"
  shows "holdingsleep l s = Ok (slocked (sleeplocks s l) \<and> spid (sleeplocks s l) = pid (procs s p), masked_once s)"
proof -
  let ?e = "enter_state l s"
  have h: "cpu_ok ?e" "noff (mycpu ?e) \<noteq> 0" using assms(1) by (auto simp: cpu_ok_def enter_state_def lock_defs)
  have c: "curproc ?e = Ok (p, ?e)" by (rule curproc_inside [OF h]) (simp add: assms(3))
  have "release l ?e = Ok (masked_once s)" using acquire_release [OF assms(2,1)] by (simp add: acquire_free [OF assms(2)])
  then show ?thesis using c by (auto simp: holdingsleep_def acquire_free [OF assms(2)])
qed

lemma releasesleep_run:
  assumes "hart_ok s" "lock_free l s" "\<And>p. l \<noteq> L_proc p"
  obtains ps where "releasesleep l s = Ok ((set_sleeplock l (\<lambda>k. k\<lparr>slocked := False, spid := 0\<rparr>) (masked_once s))\<lparr>procs := ps\<rparr>)"
    "woke (procs s) ps"
proof -
  let ?g = "set_sleeplock l (\<lambda>k. k\<lparr>slocked := False, spid := 0\<rparr>)"
  let ?e = "enter_state l s"
  have s: "cpu_ok s" "\<And>p. p < NPROC \<Longrightarrow> lock_free (L_proc p) s" using assms(1) by (auto simp: hart_ok_def)
  note e = enter_hart [of s l, OF s(1) assms(3) s(2)]
  have "hart_ok (?g ?e)" "noff (mycpu (?g ?e)) \<noteq> 0"
    using e by (simp_all add: set_sleeplock_def hart_ok_def cpu_ok_def mycpu_def cpuid_def lock_free_def)
  then obtain ps where w: "wakeup (Ch_sleeplock l) (?g ?e) = Ok ((?g ?e)\<lparr>procs := ps\<rparr>)" "woke (procs (?g ?e)) ps" by (rule wakeup_hart)
  have "release l ((\<lambda>t. (?g t)\<lparr>procs := ps\<rparr>) ?e) = Ok ((\<lambda>t. (?g t)\<lparr>procs := ps\<rparr>) (masked_once s))"
    by (rule critical_section) (use assms(2) s(1) in \<open>simp_all add: set_sleeplock_def\<close>)
  then show ?thesis using that [of ps] w by (simp add: releasesleep_def acquire_free [OF assms(2)]) (simp add: set_sleeplock_def)
qed

end
