(* ===== verification/Virtio.thy ===== *)
theory Virtio
  imports Sleeplock
begin

unbundle bit_operations_syntax

text \<open>
  The disk driver, \<^verbatim>\<open>kernel/virtio_disk.c\<close>, over the buffers of \<^verbatim>\<open>kernel/buf.h\<close> and \<^verbatim>\<open>kernel/bio.c\<close> and the queue structures of
  \<^verbatim>\<open>kernel/virtio.h\<close>. A DMA address is the name of the kernel object that it points to. The device is
  the hardware side of the queue: it takes the next request from the available ring, moves the data between
  the buffer and its medium, stores the status and appends to the used ring. The medium is an array of
  bytes; the list of block writes that it has carried out is kept for the arguments about crashes.

  A process that waits for the disk sleeps. While it does, the device serves requests and its interrupt is handled;
  \<open>virtio_disk_wait\<close> is the wait loop with these steps in it.
\<close>

section \<open>State\<close>

definition NBUF :: nat where "NBUF = 30"
definition BSIZE :: nat where "BSIZE = 1024"
definition NUM :: nat where "NUM = 8"

record buf =
  valid :: bool
  disk :: bool
  bdev :: u32
  blockno :: u32
  refcnt :: u32
  bprev :: nat
  bnext :: nat
  bdata :: "u8 list"

text \<open>The buffers of the cache; the one with number \<open>NBUF\<close> is the head of the list.\<close>

record bcache = slocks +
  bufs :: "nat \<Rightarrow> buf"

datatype dma = D_null | D_op nat | D_data nat | D_status nat

record virtq_desc =
  addr :: dma
  dlen :: u32
  dflags :: u16
  dnext :: u16

record virtio_blk_req =
  rtype :: u32
  reserved :: u32
  sector :: u64

record vdisk = bcache +
  mmio :: "u32 \<Rightarrow> u32"
  disk_pages :: u64
  desc :: "nat \<Rightarrow> virtq_desc"
  avail_idx :: u16
  avail_ring :: "nat \<Rightarrow> u16"
  dused_idx :: u16
  used_ring :: "nat \<Rightarrow> u32"
  dfree :: "nat \<Rightarrow> bool"
  used_idx :: u16
  info_b :: "nat \<Rightarrow> nat option"
  info_status :: "nat \<Rightarrow> u8"
  ops :: "nat \<Rightarrow> virtio_blk_req"
  dev_idx :: u16
  medium :: "nat \<Rightarrow> u8"
  written :: "(nat \<times> u8 list) list"

section \<open>Constants\<close>

definition VIRTIO_MMIO_MAGIC_VALUE :: u32 where "VIRTIO_MMIO_MAGIC_VALUE = 0x000"
definition VIRTIO_MMIO_VERSION :: u32 where "VIRTIO_MMIO_VERSION = 0x004"
definition VIRTIO_MMIO_DEVICE_ID :: u32 where "VIRTIO_MMIO_DEVICE_ID = 0x008"
definition VIRTIO_MMIO_VENDOR_ID :: u32 where "VIRTIO_MMIO_VENDOR_ID = 0x00c"
definition VIRTIO_MMIO_DEVICE_FEATURES :: u32 where "VIRTIO_MMIO_DEVICE_FEATURES = 0x010"
definition VIRTIO_MMIO_DRIVER_FEATURES :: u32 where "VIRTIO_MMIO_DRIVER_FEATURES = 0x020"
definition VIRTIO_MMIO_GUEST_PAGE_SIZE :: u32 where "VIRTIO_MMIO_GUEST_PAGE_SIZE = 0x028"
definition VIRTIO_MMIO_QUEUE_SEL :: u32 where "VIRTIO_MMIO_QUEUE_SEL = 0x030"
definition VIRTIO_MMIO_QUEUE_NUM_MAX :: u32 where "VIRTIO_MMIO_QUEUE_NUM_MAX = 0x034"
definition VIRTIO_MMIO_QUEUE_NUM :: u32 where "VIRTIO_MMIO_QUEUE_NUM = 0x038"
definition VIRTIO_MMIO_QUEUE_PFN :: u32 where "VIRTIO_MMIO_QUEUE_PFN = 0x040"
definition VIRTIO_MMIO_QUEUE_NOTIFY :: u32 where "VIRTIO_MMIO_QUEUE_NOTIFY = 0x050"
definition VIRTIO_MMIO_INTERRUPT_STATUS :: u32 where "VIRTIO_MMIO_INTERRUPT_STATUS = 0x060"
definition VIRTIO_MMIO_INTERRUPT_ACK :: u32 where "VIRTIO_MMIO_INTERRUPT_ACK = 0x064"
definition VIRTIO_MMIO_STATUS :: u32 where "VIRTIO_MMIO_STATUS = 0x070"
definition VIRTIO_CONFIG_S_ACKNOWLEDGE :: u32 where "VIRTIO_CONFIG_S_ACKNOWLEDGE = 1"
definition VIRTIO_CONFIG_S_DRIVER :: u32 where "VIRTIO_CONFIG_S_DRIVER = 2"
definition VIRTIO_CONFIG_S_DRIVER_OK :: u32 where "VIRTIO_CONFIG_S_DRIVER_OK = 4"
definition VIRTIO_CONFIG_S_FEATURES_OK :: u32 where "VIRTIO_CONFIG_S_FEATURES_OK = 8"
definition VIRTIO_BLK_F_RO :: nat where "VIRTIO_BLK_F_RO = 5"
definition VIRTIO_BLK_F_SCSI :: nat where "VIRTIO_BLK_F_SCSI = 7"
definition VIRTIO_BLK_F_CONFIG_WCE :: nat where "VIRTIO_BLK_F_CONFIG_WCE = 11"
definition VIRTIO_BLK_F_MQ :: nat where "VIRTIO_BLK_F_MQ = 12"
definition VIRTIO_F_ANY_LAYOUT :: nat where "VIRTIO_F_ANY_LAYOUT = 27"
definition VIRTIO_RING_F_INDIRECT_DESC :: nat where "VIRTIO_RING_F_INDIRECT_DESC = 28"
definition VIRTIO_RING_F_EVENT_IDX :: nat where "VIRTIO_RING_F_EVENT_IDX = 29"
definition VRING_DESC_F_NEXT :: u16 where "VRING_DESC_F_NEXT = 1"
definition VRING_DESC_F_WRITE :: u16 where "VRING_DESC_F_WRITE = 2"
definition VIRTIO_BLK_T_IN :: u32 where "VIRTIO_BLK_T_IN = 0"
definition VIRTIO_BLK_T_OUT :: u32 where "VIRTIO_BLK_T_OUT = 1"

section \<open>The driver\<close>

definition set_buf :: "nat \<Rightarrow> (buf \<Rightarrow> buf) \<Rightarrow> 'a bcache_scheme \<Rightarrow> 'a bcache_scheme" where
  "set_buf b f s = bufs_update (\<lambda>g. g(b := f (g b))) s"

definition set_mmio :: "u32 \<Rightarrow> u32 \<Rightarrow> 'a vdisk_scheme \<Rightarrow> 'a vdisk_scheme" where
  "set_mmio r v s = mmio_update (\<lambda>g. g(r := v)) s"

definition null_desc :: virtq_desc where
  "null_desc = \<lparr>addr = D_null, dlen = 0, dflags = 0, dnext = 0\<rparr>"

definition virtio_disk_init :: "'a vdisk_scheme \<Rightarrow> 'a vdisk_scheme res" where
  "virtio_disk_init s =
     (let s = initlock L_vdisk ''virtio_disk'' s in
      if mmio s VIRTIO_MMIO_MAGIC_VALUE \<noteq> 0x74726976 \<or> mmio s VIRTIO_MMIO_VERSION \<noteq> 1 \<or>
         mmio s VIRTIO_MMIO_DEVICE_ID \<noteq> 2 \<or> mmio s VIRTIO_MMIO_VENDOR_ID \<noteq> 0x554d4551
      then Panic ''could not find virtio disk''
      else
        let status = VIRTIO_CONFIG_S_ACKNOWLEDGE;
            s = set_mmio VIRTIO_MMIO_STATUS status s;
            status = status OR VIRTIO_CONFIG_S_DRIVER;
            s = set_mmio VIRTIO_MMIO_STATUS status s;
            features = mmio s VIRTIO_MMIO_DEVICE_FEATURES;
            features = features AND NOT (push_bit VIRTIO_BLK_F_RO 1);
            features = features AND NOT (push_bit VIRTIO_BLK_F_SCSI 1);
            features = features AND NOT (push_bit VIRTIO_BLK_F_CONFIG_WCE 1);
            features = features AND NOT (push_bit VIRTIO_BLK_F_MQ 1);
            features = features AND NOT (push_bit VIRTIO_F_ANY_LAYOUT 1);
            features = features AND NOT (push_bit VIRTIO_RING_F_EVENT_IDX 1);
            features = features AND NOT (push_bit VIRTIO_RING_F_INDIRECT_DESC 1);
            s = set_mmio VIRTIO_MMIO_DRIVER_FEATURES features s;
            status = status OR VIRTIO_CONFIG_S_FEATURES_OK;
            s = set_mmio VIRTIO_MMIO_STATUS status s;
            status = status OR VIRTIO_CONFIG_S_DRIVER_OK;
            s = set_mmio VIRTIO_MMIO_STATUS status s;
            s = set_mmio VIRTIO_MMIO_GUEST_PAGE_SIZE (ucast PGSIZE) s;
            s = set_mmio VIRTIO_MMIO_QUEUE_SEL 0 s;
            max' = mmio s VIRTIO_MMIO_QUEUE_NUM_MAX
        in if max' = 0 then Panic ''virtio disk has no queue 0''
           else if max' < of_nat NUM then Panic ''virtio disk max queue too short''
           else
             let s = set_mmio VIRTIO_MMIO_QUEUE_NUM (of_nat NUM) s;
                 s = s\<lparr>desc := (\<lambda>_. null_desc), avail_idx := 0, avail_ring := (\<lambda>_. 0), dused_idx := 0, used_ring := (\<lambda>_. 0)\<rparr>;
                 s = set_mmio VIRTIO_MMIO_QUEUE_PFN (ucast (drop_bit PGSHIFT (disk_pages s))) s
             in Ok (s\<lparr>dfree := (\<lambda>i. if i < NUM then True else dfree s i)\<rparr>))"

fun alloc_desc_loop :: "nat list \<Rightarrow> 'a vdisk_scheme \<Rightarrow> int \<times> 'a vdisk_scheme" where
  "alloc_desc_loop [] s = (-1, s)"
| "alloc_desc_loop (i # is) s =
     (if dfree s i then (int i, s\<lparr>dfree := (dfree s)(i := False)\<rparr>) else alloc_desc_loop is s)"

definition alloc_desc :: "'a vdisk_scheme \<Rightarrow> int \<times> 'a vdisk_scheme" where
  "alloc_desc s = alloc_desc_loop [0..<NUM] s"

definition free_desc :: "nat \<Rightarrow> 'a vdisk_scheme \<Rightarrow> 'a vdisk_scheme res" where
  "free_desc i s =
     (if NUM \<le> i then Panic ''free_desc 1''
      else if dfree s i then Panic ''free_desc 2''
      else wakeup Ch_disk (s\<lparr>desc := (desc s)(i := null_desc), dfree := (dfree s)(i := True)\<rparr>))"

text \<open>A chain is freed link by link; it has at most \<open>NUM\<close> links, since a second visit of one panics.\<close>

fun free_chain :: "nat \<Rightarrow> nat \<Rightarrow> 'a vdisk_scheme \<Rightarrow> 'a vdisk_scheme res" where
  "free_chain 0 i s = OutOfFuel"
| "free_chain (Suc n) i s =
     (let flag = dflags (desc s i); nxt = unat (dnext (desc s i)) in
      bind_res (free_desc i s) (\<lambda>s.
        if flag AND VRING_DESC_F_NEXT \<noteq> 0 then free_chain n nxt s else Ok s))"

fun free_descs :: "nat list \<Rightarrow> 'a vdisk_scheme \<Rightarrow> 'a vdisk_scheme res" where
  "free_descs [] s = Ok s"
| "free_descs (i # is) s = bind_res (free_desc i s) (free_descs is)"

fun alloc3_desc_loop :: "nat \<Rightarrow> nat list \<Rightarrow> 'a vdisk_scheme \<Rightarrow> (nat list option \<times> 'a vdisk_scheme) res" where
  "alloc3_desc_loop 0 idx s = Ok (Some idx, s)"
| "alloc3_desc_loop (Suc n) idx s =
     (case alloc_desc s of (i, s) \<Rightarrow>
        if i < 0 then bind_res (free_descs idx s) (\<lambda>s. Ok (None, s))
        else alloc3_desc_loop n (idx @ [nat i]) s)"

definition alloc3_desc :: "'a vdisk_scheme \<Rightarrow> (nat list option \<times> 'a vdisk_scheme) res" where
  "alloc3_desc s = alloc3_desc_loop 3 [] s"

definition virtio_disk_submit :: "nat \<Rightarrow> bool \<Rightarrow> nat \<Rightarrow> nat \<Rightarrow> nat \<Rightarrow> 'a vdisk_scheme \<Rightarrow> 'a vdisk_scheme" where
  "virtio_disk_submit b write i0 i1 i2 s =
     (let sec = ucast (blockno (bufs s b) * of_nat (BSIZE div 512)) :: u64;
          s = ops_update (\<lambda>f. f(i0 := \<lparr>rtype = (if write then VIRTIO_BLK_T_OUT else VIRTIO_BLK_T_IN), reserved = 0, sector = sec\<rparr>)) s;
          s = desc_update (\<lambda>f. f(i0 := \<lparr>addr = D_op i0, dlen = 16, dflags = VRING_DESC_F_NEXT, dnext = of_nat i1\<rparr>)) s;
          s = desc_update (\<lambda>f. f(i1 := \<lparr>addr = D_data b, dlen = of_nat BSIZE,
                dflags = (if write then 0 else VRING_DESC_F_WRITE) OR VRING_DESC_F_NEXT, dnext = of_nat i2\<rparr>)) s;
          s = info_status_update (\<lambda>f. f(i0 := 0xff)) s;
          s = desc_update (\<lambda>f. f(i2 := \<lparr>addr = D_status i0, dlen = 1, dflags = VRING_DESC_F_WRITE, dnext = 0\<rparr>)) s;
          s = set_buf b (\<lambda>x. x\<lparr>disk := True\<rparr>) s;
          s = info_b_update (\<lambda>f. f(i0 := Some b)) s;
          s = avail_ring_update (\<lambda>f. f(unat (avail_idx s) mod NUM := of_nat i0)) s;
          s = avail_idx_update (\<lambda>i. i + 1) s
      in set_mmio VIRTIO_MMIO_QUEUE_NOTIFY 0 s)"

section \<open>The device\<close>

definition read_medium :: "(nat \<Rightarrow> u8) \<Rightarrow> nat \<Rightarrow> nat \<Rightarrow> u8 list" where
  "read_medium d a n = map d [a..<a + n]"

definition write_medium :: "(nat \<Rightarrow> u8) \<Rightarrow> nat \<Rightarrow> u8 list \<Rightarrow> nat \<Rightarrow> u8" where
  "write_medium d a bs = (\<lambda>i. if a \<le> i \<and> i < a + length bs then bs ! (i - a) else d i)"

text \<open>
  One request: a chain of a header, a data buffer and a status byte, as the virtio specification has it for
  legacy block devices. A chain of another shape is not served.
\<close>

definition virtio_serve :: "'a vdisk_scheme \<Rightarrow> 'a vdisk_scheme option" where
  "virtio_serve s =
     (if dev_idx s = avail_idx s then None
      else let i0 = unat (avail_ring s (unat (dev_idx s) mod NUM));
               i1 = unat (dnext (desc s i0));
               i2 = unat (dnext (desc s i1))
           in case (addr (desc s i0), addr (desc s i1), addr (desc s i2)) of
                (D_op r, D_data b, D_status q) \<Rightarrow>
                  let a = unat (sector (ops s r)) * 512;
                      n = unat (dlen (desc s i1));
                      s = (if rtype (ops s r) = VIRTIO_BLK_T_OUT
                           then s\<lparr>medium := write_medium (medium s) a (take n (bdata (bufs s b))),
                                  written := written s @ [(a div BSIZE, take n (bdata (bufs s b)))]\<rparr>
                           else set_buf b (\<lambda>x. x\<lparr>bdata := read_medium (medium s) a n @ drop n (bdata x)\<rparr>) s);
                      s = s\<lparr>info_status := (info_status s)(q := 0)\<rparr>;
                      s = s\<lparr>used_ring := (used_ring s)(unat (dused_idx s) mod NUM := of_nat i0)\<rparr>;
                      s = s\<lparr>dused_idx := dused_idx s + 1, dev_idx := dev_idx s + 1\<rparr>
                  in Some (set_mmio VIRTIO_MMIO_INTERRUPT_STATUS 1 s)
              | _ \<Rightarrow> None)"

section \<open>Completion\<close>

fun virtio_intr_loop :: "nat \<Rightarrow> 'a vdisk_scheme \<Rightarrow> 'a vdisk_scheme res" where
  "virtio_intr_loop n s =
     (if used_idx s = dused_idx s then Ok s
      else case n of 0 \<Rightarrow> OutOfFuel
        | Suc n \<Rightarrow>
            let id = unat (used_ring s (unat (used_idx s) mod NUM)) in
            if info_status s id \<noteq> 0 then Panic ''virtio_disk_intr status''
            else case info_b s id of None \<Rightarrow> Panic ''kerneltrap''
              | Some b \<Rightarrow>
                  bind_res (wakeup (Ch_buf b) (set_buf b (\<lambda>x. x\<lparr>disk := False\<rparr>) s)) (\<lambda>s.
                    virtio_intr_loop n (s\<lparr>used_idx := used_idx s + 1\<rparr>)))"

text \<open>The used ring holds at most \<open>NUM\<close> entries that the driver has not seen.\<close>

definition virtio_disk_intr :: "'a vdisk_scheme \<Rightarrow> 'a vdisk_scheme res" where
  "virtio_disk_intr s =
     bind_res (acquire L_vdisk s) (\<lambda>s.
       let s = set_mmio VIRTIO_MMIO_INTERRUPT_ACK (mmio s VIRTIO_MMIO_INTERRUPT_STATUS AND 0x3) s in
       bind_res (virtio_intr_loop NUM s) (release L_vdisk))"

fun virtio_disk_wait :: "nat \<Rightarrow> nat \<Rightarrow> 'a vdisk_scheme \<Rightarrow> 'a vdisk_scheme res" where
  "virtio_disk_wait n b s =
     (if \<not> disk (bufs s b) then Ok s
      else case n of 0 \<Rightarrow> OutOfFuel
        | Suc n \<Rightarrow>
            bind_res (release L_vdisk s) (\<lambda>s.
              case virtio_serve s of None \<Rightarrow> Sleep
              | Some s \<Rightarrow> bind_res (virtio_disk_intr s) (\<lambda>s.
                  bind_res (acquire L_vdisk s) (virtio_disk_wait n b))))"

definition virtio_disk_rw :: "nat \<Rightarrow> bool \<Rightarrow> 'a vdisk_scheme \<Rightarrow> 'a vdisk_scheme res" where
  "virtio_disk_rw b write s =
     bind_res (acquire L_vdisk s) (\<lambda>s.
       bind_res (alloc3_desc s) (\<lambda>(idx, s).
         case idx of None \<Rightarrow> Sleep
         | Some idx \<Rightarrow>
             bind_res (virtio_disk_wait NUM b (virtio_disk_submit b write (idx ! 0) (idx ! 1) (idx ! 2) s)) (\<lambda>s.
               bind_res (free_chain NUM (idx ! 0) (s\<lparr>info_b := (info_b s)(idx ! 0 := None)\<rparr>)) (release L_vdisk))))"

section \<open>Updates in the form that the record package prints\<close>

lemma set_mmio_eq: "set_mmio r v s = s\<lparr>mmio := (mmio s)(r := v)\<rparr>"
  unfolding set_mmio_def by (simp cong: vdisk.fold_congs)

lemma set_buf_eq: "set_buf b f s = s\<lparr>bufs := (bufs s)(b := f (bufs s b))\<rparr>"
  unfolding set_buf_def by (simp cong: bcache.fold_congs)

end
