(* ===== verification/Virtio_Run.thy ===== *)
theory Virtio_Run
  imports Virtio
begin

unbundle bit_operations_syntax

text \<open>
  A disk transfer from end to end: the request that the driver submits, the device that serves it, the interrupt that reports it
  and the return of its descriptors. A call of \<open>virtio_disk_rw\<close> on an idle queue moves one block and
  leaves the queue idle again.
\<close>

definition vdisk_ok :: "'a vdisk_scheme \<Rightarrow> bool" where
  "vdisk_ok s \<longleftrightarrow> cpu_ok s \<and> lock_free L_vdisk s \<and> (\<forall>p < NPROC. lock_free (L_proc p) s) \<and>
     (\<forall>i < NUM. dfree s i) \<and> dev_idx s = avail_idx s \<and> used_idx s = dused_idx s"

lemma alloc3_all:
  assumes "\<forall>i < NUM. dfree s i"
  shows "alloc3_desc s = Ok (Some [0, 1, 2], s\<lparr>dfree := (dfree s)(0 := False, 1 := False, 2 := False)\<rparr>)"
proof -
  have "[0..<NUM] = [0, 1, 2] @ [3..<NUM]" by (simp add: NUM_def upt_rec)
  then show ?thesis using assms by (simp add: alloc3_desc_def alloc_desc_def numeral_3_eq_3 NUM_def)
qed

lemma NUM_Suc3: "\<exists>n. NUM = Suc (Suc (Suc n))"
  by (rule exI [of _ 5]) (simp add: NUM_def)

lemma free_desc_run:
  assumes "hart_ok s" "noff (mycpu s) \<noteq> 0" "i < NUM" "\<not> dfree s i"
  obtains ps where "free_desc i s = Ok (s\<lparr>desc := (desc s)(i := null_desc), dfree := (dfree s)(i := True), procs := ps\<rparr>)" "woke (procs s) ps"
proof -
  let ?s = "s\<lparr>desc := (desc s)(i := null_desc), dfree := (dfree s)(i := True)\<rparr>"
  have "hart_ok ?s" "noff (mycpu ?s) \<noteq> 0"
    using assms(1,2) by (simp_all add: hart_ok_def cpu_ok_def mycpu_def cpuid_def lock_free_def)
  then obtain ps where "wakeup Ch_disk ?s = Ok (?s\<lparr>procs := ps\<rparr>)" "woke (procs ?s) ps" by (rule wakeup_hart)
  then show ?thesis using that assms(3,4) by (simp add: free_desc_def)
qed

lemma free_chain_next:
  "free_desc i s = Ok t \<Longrightarrow> dflags (desc s i) AND 1 \<noteq> 0 \<Longrightarrow> free_chain (Suc n) i s = free_chain n (unat (dnext (desc s i))) t"
  by (simp add: Let_def VRING_DESC_F_NEXT_def)

lemma free_chain_last: "free_desc i s = Ok t \<Longrightarrow> dflags (desc s i) AND 1 = 0 \<Longrightarrow> free_chain (Suc n) i s = Ok t"
  by (simp add: Let_def VRING_DESC_F_NEXT_def)

declare free_chain.simps [simp del]

lemma free_chain_run:
  assumes "hart_ok s" "noff (mycpu s) \<noteq> 0" "\<not> dfree s 0" "\<not> dfree s 1" "\<not> dfree s 2"
    and "dflags (desc s 0) AND 1 \<noteq> 0" "dnext (desc s 0) = 1" "dflags (desc s 1) AND 1 \<noteq> 0" "dnext (desc s 1) = 2"
    "dflags (desc s 2) AND 1 = 0"
  obtains ps where "free_chain NUM 0 s = Ok (s\<lparr>desc := (desc s)(0 := null_desc, 1 := null_desc, 2 := null_desc),
    dfree := (dfree s)(0 := True, 1 := True, 2 := True), procs := ps\<rparr>)" "woke (procs s) ps"
proof -
  obtain p0 where 0: "free_desc 0 s = Ok (s\<lparr>desc := (desc s)(0 := null_desc), dfree := (dfree s)(0 := True), procs := p0\<rparr>)" (is "_ = Ok ?s0") "woke (procs s) p0"
    by (rule free_desc_run [OF assms(1,2), of 0]) (use assms in \<open>auto simp: NUM_def\<close>)
  have h: "hart_ok ?s0" "noff (mycpu ?s0) \<noteq> 0"
    using assms(1,2) by (simp_all add: hart_ok_def cpu_ok_def mycpu_def cpuid_def lock_free_def)
  obtain p1 where 1: "free_desc 1 ?s0 = Ok (?s0\<lparr>desc := (desc ?s0)(1 := null_desc), dfree := (dfree ?s0)(1 := True), procs := p1\<rparr>)" (is "_ = Ok ?s1") "woke (procs ?s0) p1"
    by (rule free_desc_run [OF h, of 1]) (use assms in \<open>auto simp: NUM_def\<close>)
  have h': "hart_ok ?s1" "noff (mycpu ?s1) \<noteq> 0"
    using h by (simp_all add: hart_ok_def cpu_ok_def mycpu_def cpuid_def lock_free_def)
  obtain p2 where 2: "free_desc 2 ?s1 = Ok (?s1\<lparr>desc := (desc ?s1)(2 := null_desc), dfree := (dfree ?s1)(2 := True), procs := p2\<rparr>)" (is "_ = Ok ?s2") "woke (procs ?s1) p2"
    by (rule free_desc_run [OF h', of 2]) (use assms in \<open>auto simp: NUM_def\<close>)
  obtain n where n: "NUM = Suc (Suc (Suc n))" using NUM_Suc3 by blast
  have "free_chain NUM 0 s = free_chain (Suc (Suc n)) 1 ?s0"
    using free_chain_next [OF 0(1), of "Suc (Suc n)"] assms(6,7) by (simp only: n) simp
  also have "\<dots> = free_chain (Suc n) 2 ?s1"
    using free_chain_next [OF 1(1), of "Suc n"] assms(8,9) by simp
  also have "\<dots> = Ok ?s2" by (rule free_chain_last [OF 2(1)]) (use assms(10) in simp)
  finally show ?thesis using that [of p2] woke_trans [OF 0(2)] woke_trans [of p0 p1 p2] 1(2) 2(2) by simp
qed

text \<open>The request that the driver submits with the first three descriptors, and its completion.\<close>

definition request :: "nat \<Rightarrow> bool \<Rightarrow> 'a vdisk_scheme \<Rightarrow> bool" where
  "request b write s \<longleftrightarrow> unat (avail_ring s (unat (dev_idx s) mod NUM)) = 0 \<and> avail_idx s = dev_idx s + 1 \<and> dused_idx s = used_idx s \<and>
     addr (desc s 0) = D_op 0 \<and> dnext (desc s 0) = 1 \<and> addr (desc s 1) = D_data b \<and> dlen (desc s 1) = of_nat BSIZE \<and>
     dnext (desc s 1) = 2 \<and> addr (desc s 2) = D_status 0 \<and>
     (rtype (ops s 0) = VIRTIO_BLK_T_OUT \<longleftrightarrow> write) \<and> length (bdata (bufs s b)) = BSIZE \<and> info_b s 0 = Some b"

definition block_addr :: "'a vdisk_scheme \<Rightarrow> nat" where
  "block_addr s = unat (sector (ops s 0)) * 512"

lemma virtio_serve_request:
  assumes "request b write s"
  shows "virtio_serve s = Some ((if write
      then s\<lparr>medium := write_medium (medium s) (block_addr s) (bdata (bufs s b)), written := written s @ [(block_addr s div BSIZE, bdata (bufs s b))]\<rparr>
      else set_buf b (\<lambda>x. x\<lparr>bdata := read_medium (medium s) (block_addr s) BSIZE\<rparr>) s)
      \<lparr>info_status := (info_status s)(0 := 0), used_ring := (used_ring s)(unat (used_idx s) mod NUM := 0), dused_idx := used_idx s + 1,
       dev_idx := dev_idx s + 1, mmio := (mmio s)(VIRTIO_MMIO_INTERRUPT_STATUS := 1)\<rparr>)"
proof -
  have "unat (of_nat BSIZE :: u32) = BSIZE" by (simp add: BSIZE_def)
  then show ?thesis using assms
    by (cases "write") (simp_all add: virtio_serve_def request_def Let_def block_addr_def set_mmio_eq set_buf_eq)
qed

lemma virtio_intr_step:
  assumes "used_idx s \<noteq> dused_idx s" "info_status s (unat (used_ring s (unat (used_idx s) mod NUM))) = 0"
    "info_b s (unat (used_ring s (unat (used_idx s) mod NUM))) = Some b" "wakeup (Ch_buf b) (set_buf b (\<lambda>x. x\<lparr>disk := False\<rparr>) s) = Ok t"
  shows "virtio_intr_loop (Suc n) s = virtio_intr_loop n (t\<lparr>used_idx := used_idx t + 1\<rparr>)"
  using assms by (subst virtio_intr_loop.simps) (simp add: Let_def)

lemma virtio_intr_done: "used_idx s = dused_idx s \<Longrightarrow> virtio_intr_loop n s = Ok s"
  by (subst virtio_intr_loop.simps) simp

declare virtio_intr_loop.simps [simp del] virtio_disk_wait.simps [simp del]

lemma virtio_intr_run:
  assumes "hart_ok s" "lock_free L_vdisk s" "dused_idx s = used_idx s + 1" "used_ring s (unat (used_idx s) mod NUM) = 0"
    and "info_status s 0 = 0" "info_b s 0 = Some b"
  obtains ps m where "virtio_disk_intr s = Ok ((masked_once s)\<lparr>mmio := m, bufs := (bufs s)(b := (bufs s b)\<lparr>disk := False\<rparr>), procs := ps,
    used_idx := used_idx s + 1\<rparr>)" "woke (procs s) ps"
proof -
  let ?e = "enter_state L_vdisk s"
  let ?m = "(mmio s)(VIRTIO_MMIO_INTERRUPT_ACK := mmio s VIRTIO_MMIO_INTERRUPT_STATUS AND 0x3)"
  let ?u = "set_buf b (\<lambda>x. x\<lparr>disk := False\<rparr>) (?e\<lparr>mmio := ?m\<rparr>)"
  have f: "mmio ?e = mmio s" "used_idx ?e = used_idx s" "dused_idx ?e = dused_idx s" "used_ring ?e = used_ring s"
    "info_status ?e = info_status s" "info_b ?e = info_b s" "bufs ?e = bufs s"
    by (simp_all add: enter_state_def lock_defs)
  have "hart_ok ?e" "noff (mycpu ?e) \<noteq> 0"
    using enter_hart [of s L_vdisk] assms(1) by (auto simp: hart_ok_def)
  then have "hart_ok ?u" "noff (mycpu ?u) \<noteq> 0"
    by (simp_all add: hart_ok_def cpu_ok_def mycpu_def cpuid_def lock_free_def set_buf_eq)
  then obtain ps where w: "wakeup (Ch_buf b) ?u = Ok (?u\<lparr>procs := ps\<rparr>)" and "woke (procs ?u) ps" by (rule wakeup_hart)
  then have wk: "woke (procs s) ps" by (simp add: set_buf_eq)
  let ?v = "?u\<lparr>procs := ps, used_idx := used_idx s + 1\<rparr>"
  obtain n where n: "NUM = Suc n" using NUM_Suc3 by blast
  have "virtio_intr_loop NUM (?e\<lparr>mmio := ?m\<rparr>) = virtio_intr_loop n (?u\<lparr>procs := ps, used_idx := used_idx (?u\<lparr>procs := ps\<rparr>) + 1\<rparr>)"
    unfolding n by (rule virtio_intr_step [OF _ _ _ w]) (use assms(3-6) in \<open>simp_all add: f\<close>)
  also have "\<dots> = virtio_intr_loop n ?v" by (simp add: set_buf_eq f)
  also have "\<dots> = Ok ?v" using assms(3) by (intro virtio_intr_done) (simp add: f set_buf_eq)
  finally have l: "virtio_intr_loop NUM (?e\<lparr>mmio := ?m\<rparr>) = Ok ?v" .
  let ?g = "\<lambda>t. t\<lparr>mmio := ?m, bufs := (bufs s)(b := (bufs s b)\<lparr>disk := False\<rparr>), procs := ps, used_idx := used_idx s + 1\<rparr>"
  have "release L_vdisk (?g ?e) = Ok (?g (masked_once s))"
    by (rule critical_section) (use assms(1,2) in \<open>simp_all add: hart_ok_def\<close>)
  moreover have "?v = ?g ?e" by (simp add: set_buf_eq f)
  ultimately show ?thesis using that [OF _ wk] l by (simp add: virtio_disk_intr_def acquire_free [OF assms(2)] set_mmio_eq f)
qed

section \<open>A transfer\<close>

text \<open>What a call of the driver leaves alone: everything but the queue, the buffers and the medium.\<close>

definition untouched :: "'a vdisk_scheme \<Rightarrow> 'a vdisk_scheme \<Rightarrow> bool" where
  "untouched s t \<longleftrightarrow> lock_ctx s t \<and> woke (procs s) (procs t) \<and> mem t = mem s \<and> freelist t = freelist s \<and> ref_count t = ref_count s \<and>
     kend t = kend s \<and> kernel_pagetable t = kernel_pagetable s \<and> etext t = etext s \<and> trampoline t = trampoline s \<and> satp t = satp s \<and>
     nextpid t = nextpid s \<and> initproc t = initproc s \<and> forkret_addr t = forkret_addr s \<and> ticks t = ticks s \<and>
     disk_pages t = disk_pages s \<and> vdisk.more t = vdisk.more s"

definition kept :: "'a vdisk_scheme \<Rightarrow> 'a vdisk_scheme \<Rightarrow> bool" where
  "kept s t \<longleftrightarrow> untouched s t \<and> sleeplocks t = sleeplocks s"

lemma untouched_refl [simp]: "untouched s s"
  by (simp add: untouched_def)

lemma untouched_trans: "untouched s t \<Longrightarrow> untouched t u \<Longrightarrow> untouched s u"
  unfolding untouched_def by (auto intro: lock_ctx_trans woke_trans)

lemma kept_refl [simp]: "kept s s"
  by (simp add: kept_def untouched_def)

lemma kept_trans: "kept s t \<Longrightarrow> kept t u \<Longrightarrow> kept s u"
  unfolding kept_def by (auto intro: untouched_trans)

lemma virtio_wait_step:
  "disk (bufs s b) \<Longrightarrow> release L_vdisk s = Ok t \<Longrightarrow> virtio_serve t = Some u \<Longrightarrow> virtio_disk_intr u = Ok v \<Longrightarrow> acquire L_vdisk v = Ok w \<Longrightarrow>
   virtio_disk_wait (Suc n) b s = virtio_disk_wait n b w"
  by (subst virtio_disk_wait.simps) simp

lemma virtio_wait_done: "\<not> disk (bufs s b) \<Longrightarrow> virtio_disk_wait n b s = Ok s"
  by (subst virtio_disk_wait.simps) simp

text \<open>The fields of the state in which the request is out and the lock is not held.\<close>

definition submitted :: "nat \<Rightarrow> bool \<Rightarrow> 'a vdisk_scheme \<Rightarrow> 'a vdisk_scheme \<Rightarrow> bool" where
  "submitted b w s t \<longleftrightarrow> kept s t \<and> request b w t \<and> lock_free L_vdisk t \<and> hart_ok t \<and>
     dfree t = (dfree s)(0 := False, 1 := False, 2 := False) \<and> used_idx t = used_idx s \<and>
     bufs t = (bufs s)(b := (bufs s b)\<lparr>disk := True\<rparr>) \<and> medium t = medium s \<and> written t = written s \<and>
     sector (ops t 0) = ucast (blockno (bufs s b) * 2) \<and>
     dflags (desc t 0) AND 1 \<noteq> 0 \<and> dflags (desc t 1) AND 1 \<noteq> 0 \<and> dflags (desc t 2) AND 1 = 0"

lemma submit_fields:
  fixes s :: "'a vdisk_scheme"
  assumes "u = virtio_disk_submit b w 0 1 2 s"
  shows "tp u = tp s" "locks u = locks s" "cpus u = cpus s" "mem u = mem s" "procs u = procs s" "kept s u"
    "bufs u = (bufs s)(b := (bufs s b)\<lparr>disk := True\<rparr>)" "medium u = medium s" "written u = written s" "dfree u = dfree s"
    "used_idx u = used_idx s" "dused_idx u = dused_idx s" "dev_idx u = dev_idx s" "avail_idx u = avail_idx s + 1"
    "avail_ring u = (avail_ring s)(unat (avail_idx s) mod NUM := 0)" "info_b u = (info_b s)(0 := Some b)"
    "ops u 0 = \<lparr>rtype = (if w then VIRTIO_BLK_T_OUT else VIRTIO_BLK_T_IN), reserved = 0, sector = ucast (blockno (bufs s b) * 2)\<rparr>"
    "desc u 0 = \<lparr>addr = D_op 0, dlen = 16, dflags = VRING_DESC_F_NEXT, dnext = 1\<rparr>"
    "desc u (Suc 0) = \<lparr>addr = D_data b, dlen = of_nat BSIZE, dflags = (if w then 0 else VRING_DESC_F_WRITE) OR VRING_DESC_F_NEXT, dnext = 2\<rparr>"
    "desc u 2 = \<lparr>addr = D_status 0, dlen = 1, dflags = VRING_DESC_F_WRITE, dnext = 0\<rparr>"
  unfolding assms virtio_disk_submit_def Let_def by (simp_all add: set_buf_def set_mmio_def kept_def untouched_def lock_ctx_def BSIZE_def)

lemma submit_released:
  fixes s :: "'a vdisk_scheme"
  assumes "vdisk_ok s" "length (bdata (bufs s b)) = BSIZE"
    and "u = virtio_disk_submit b w 0 1 2 ((enter_state L_vdisk s)\<lparr>dfree := (dfree s)(0 := False, 1 := False, 2 := False)\<rparr>)"
  obtains v where "release L_vdisk u = Ok v" "submitted b w s v"
proof -
  let ?e = "enter_state L_vdisk s" and ?f = "(dfree s)(0 := False, 1 := False, 2 := False)"
  have s: "cpu_ok s" "lock_free L_vdisk s" "\<And>p. p < NPROC \<Longrightarrow> lock_free (L_proc p) s" "dev_idx s = avail_idx s" "used_idx s = dused_idx s"
    using assms(1) by (auto simp: vdisk_ok_def)
  have E: "bufs ?e = bufs s" "medium ?e = medium s" "written ?e = written s" "used_idx ?e = used_idx s" "dused_idx ?e = dused_idx s"
    "dev_idx ?e = dev_idx s" "avail_idx ?e = avail_idx s" "avail_ring ?e = avail_ring s" "procs ?e = procs s" "freelist ?e = freelist s"
    "ref_count ?e = ref_count s" "kend ?e = kend s" "kernel_pagetable ?e = kernel_pagetable s" "etext ?e = etext s" "trampoline ?e = trampoline s"
    "satp ?e = satp s" "nextpid ?e = nextpid s" "initproc ?e = initproc s" "forkret_addr ?e = forkret_addr s" "ticks ?e = ticks s"
    "sleeplocks ?e = sleeplocks s" "disk_pages ?e = disk_pages s" "vdisk.more ?e = vdisk.more s"
    by (simp_all add: enter_state_def lock_defs)
  note U = submit_fields [OF assms(3)]
  let ?v = "u\<lparr>cpus := cpus (masked_once s), locks := locks s\<rparr>"
  have r: "release L_vdisk u = Ok ?v" by (rule release_enter [OF s(2,1)]) (simp_all add: U(1-3))
  have l: "lock_ctx s ?v" by (simp add: lock_ctx_def U)
  have "kept s ?v" using U(6) l by (simp add: kept_def untouched_def E)
  moreover have "request b w ?v" using assms(2) s by (simp add: request_def U E VIRTIO_BLK_T_OUT_def VIRTIO_BLK_T_IN_def)
  moreover have "hart_ok ?v" using s l lock_ctx_cpu_ok [OF l] lock_ctx_free [OF l] by (simp add: hart_ok_def)
  ultimately have "submitted b w s ?v"
    using s(2) lock_ctx_free [OF l] by (simp add: submitted_def U E VRING_DESC_F_NEXT_def VRING_DESC_F_WRITE_def)
  then show ?thesis using that r by blast
qed

definition block_at :: "u32 \<Rightarrow> nat" where
  "block_at bn = unat (ucast (bn * 2) :: u64) * 512"

text \<open>The state of the disk after the transfer of the buffer \<open>b\<close>.\<close>

definition transferred :: "nat \<Rightarrow> bool \<Rightarrow> 'a vdisk_scheme \<Rightarrow> 'a vdisk_scheme \<Rightarrow> bool" where
  "transferred b w s t \<longleftrightarrow> kept s t \<and>
     bufs t = (bufs s)(b := (bufs s b)\<lparr>disk := False, bdata := (if w then bdata (bufs s b) else read_medium (medium s) (block_at (blockno (bufs s b))) BSIZE)\<rparr>) \<and>
     medium t = (if w then write_medium (medium s) (block_at (blockno (bufs s b))) (bdata (bufs s b)) else medium s) \<and>
     written t = written s @ (if w then [(block_at (blockno (bufs s b)) div BSIZE, bdata (bufs s b))] else [])"

lemma served:
  fixes s :: "'a vdisk_scheme"
  assumes "submitted b w s v"
  obtains x where "virtio_serve v = Some x" "transferred b w s (x\<lparr>bufs := (bufs x)(b := (bufs x b)\<lparr>disk := False\<rparr>)\<rparr>)"
    "lock_free L_vdisk x" "hart_ok x" "dused_idx x = used_idx x + 1" "used_ring x (unat (used_idx x) mod NUM) = 0" "info_status x 0 = 0"
    "info_b x 0 = Some b" "dfree x = dfree v" "desc x = desc v" "dev_idx x = avail_idx x" "used_idx x = used_idx v" "kept s x"
proof -
  have R: "request b w v" and K: "kept s v" and o: "sector (ops v 0) = ucast (blockno (bufs s b) * 2)"
    and B: "bufs v = (bufs s)(b := (bufs s b)\<lparr>disk := True\<rparr>)" "medium v = medium s" "written v = written s"
    and h: "lock_free L_vdisk v" "hart_ok v"
    using assms by (simp_all add: submitted_def)
  have a: "block_addr v = block_at (blockno (bufs s b))" by (simp add: block_addr_def block_at_def o)
  have i: "avail_idx v = dev_idx v + 1" "info_b v 0 = Some b" "length (bdata (bufs v b)) = BSIZE" using R by (simp_all add: request_def)
  let ?x = "the (virtio_serve v)"
  note S = virtio_serve_request [OF R]
  have "virtio_serve v = Some ?x" by (simp add: S)
  moreover have "transferred b w s (?x\<lparr>bufs := (bufs ?x)(b := (bufs ?x b)\<lparr>disk := False\<rparr>)\<rparr>)"
    using K i(3) by (cases w) (simp_all add: S transferred_def a B set_buf_eq kept_def untouched_def lock_ctx_def fun_eq_iff)
  moreover have "kept s ?x" using K by (cases w) (simp_all add: S set_buf_eq kept_def untouched_def lock_ctx_def)
  moreover have "hart_ok ?x" "lock_free L_vdisk ?x"
    using h by (cases w; simp add: S hart_ok_def cpu_ok_def lock_free_def mycpu_def cpuid_def set_buf_eq)+
  moreover have "dused_idx ?x = used_idx ?x + 1" "used_ring ?x (unat (used_idx ?x) mod NUM) = 0" "info_status ?x 0 = 0"
    "info_b ?x 0 = Some b" "dfree ?x = dfree v" "desc ?x = desc v" "dev_idx ?x = avail_idx ?x" "used_idx ?x = used_idx v"
    using i by (cases w; simp add: S set_buf_eq)+
  ultimately show ?thesis using that by blast
qed

lemma kept_masked: "kept s t \<Longrightarrow> kept s (masked_once t)"
proof -
  assume k: "kept s t"
  have "lock_ctx t (masked_once t)" by (simp add: lock_ctx_def)
  then have "lock_ctx s (masked_once t)" using k lock_ctx_trans unfolding kept_def untouched_def by blast
  then show ?thesis using k by (simp add: kept_def untouched_def) (simp add: masked_once_def lock_defs)
qed

lemma finish_chain:
  fixes s :: "'a vdisk_scheme"
  assumes "lock_free L_vdisk y" "hart_ok y" "\<not> dfree y 0" "\<not> dfree y 1" "\<not> dfree y 2"
    and "dflags (desc y 0) AND 1 \<noteq> 0" "dnext (desc y 0) = 1" "dflags (desc y 1) AND 1 \<noteq> 0" "dnext (desc y 1) = 2" "dflags (desc y 2) AND 1 = 0"
  obtains t where "bind_res (free_chain NUM 0 ((enter_state L_vdisk y)\<lparr>info_b := (info_b y)(0 := None)\<rparr>)) (release L_vdisk) = Ok t"
    "kept y t" "bufs t = bufs y" "medium t = medium y" "written t = written y" "dfree t = (dfree y)(0 := True, 1 := True, 2 := True)"
    "used_idx t = used_idx y" "dused_idx t = dused_idx y" "dev_idx t = dev_idx y" "avail_idx t = avail_idx y"
proof -
  let ?e = "(enter_state L_vdisk y)\<lparr>info_b := (info_b y)(0 := None)\<rparr>"
  have E: "dfree (enter_state L_vdisk y) = dfree y" "desc (enter_state L_vdisk y) = desc y" "procs (enter_state L_vdisk y) = procs y"
    by (simp_all add: enter_state_def lock_defs)
  have h: "hart_ok ?e" "noff (mycpu ?e) \<noteq> 0"
    using enter_hart [of y L_vdisk] assms(2) by (auto simp: hart_ok_def cpu_ok_def mycpu_def cpuid_def lock_free_def)
  obtain ps where f: "free_chain NUM 0 ?e = Ok (?e\<lparr>desc := (desc ?e)(0 := null_desc, 1 := null_desc, 2 := null_desc),
      dfree := (dfree ?e)(0 := True, 1 := True, 2 := True), procs := ps\<rparr>)" (is "_ = Ok ?u") and w: "woke (procs ?e) ps"
    by (rule free_chain_run [OF h]) (use assms(3-) in \<open>simp_all add: E\<close>)
  let ?g = "\<lambda>t. t\<lparr>info_b := (info_b y)(0 := None), desc := (desc y)(0 := null_desc, 1 := null_desc, 2 := null_desc),
      dfree := (dfree y)(0 := True, 1 := True, 2 := True), procs := ps\<rparr>"
  have "release L_vdisk (?g (enter_state L_vdisk y)) = Ok (?g (masked_once y))"
    by (rule critical_section) (use assms(1,2) in \<open>simp_all add: hart_ok_def\<close>)
  then have "bind_res (free_chain NUM 0 ?e) (release L_vdisk) = Ok (?g (masked_once y))" using f by (simp add: E)
  moreover have "kept y (?g (masked_once y))"
    using kept_masked [OF kept_refl, of y] w by (simp add: kept_def untouched_def E lock_ctx_def)
  moreover have "bufs (masked_once y) = bufs y" "medium (masked_once y) = medium y" "written (masked_once y) = written y"
    "used_idx (masked_once y) = used_idx y" "dused_idx (masked_once y) = dused_idx y" "dev_idx (masked_once y) = dev_idx y"
    "avail_idx (masked_once y) = avail_idx y"
    by (simp_all add: masked_once_def lock_defs)
  ultimately show ?thesis using that [of "?g (masked_once y)"] by simp
qed

lemma masked_disk [simp]:
  "bufs (masked_once s) = bufs s" "medium (masked_once s) = medium s" "written (masked_once s) = written s" "dfree (masked_once s) = dfree s"
  "desc (masked_once s) = desc s" "dused_idx (masked_once s) = dused_idx s" "dev_idx (masked_once s) = dev_idx s"
  "avail_idx (masked_once s) = avail_idx s" "used_idx (masked_once s) = used_idx s" "info_b (masked_once s) = info_b s"
  by (simp_all add: masked_once_def lock_defs)

lemma virtio_disk_rw_run:
  fixes s :: "'a vdisk_scheme"
  assumes "vdisk_ok s" "length (bdata (bufs s b)) = BSIZE"
  obtains t where "virtio_disk_rw b w s = Ok t" "transferred b w s t" "vdisk_ok t"
proof -
  let ?e = "enter_state L_vdisk s"
  have s: "cpu_ok s" "lock_free L_vdisk s" "\<forall>i < NUM. dfree s i"
    using assms(1) by (auto simp: vdisk_ok_def)
  have E: "dfree ?e = dfree s" by (simp add: enter_state_def lock_defs)
  define u where "u = virtio_disk_submit b w 0 1 2 (?e\<lparr>dfree := (dfree s)(0 := False, 1 := False, 2 := False)\<rparr>)"
  have a: "alloc3_desc ?e = Ok (Some [0, 1, 2], ?e\<lparr>dfree := (dfree s)(0 := False, 1 := False, 2 := False)\<rparr>)"
    using alloc3_all [of ?e] s(3) by (simp add: E)
  obtain v where v: "release L_vdisk u = Ok v" "submitted b w s v" by (rule submit_released [OF assms u_def])
  obtain x where x: "virtio_serve v = Some x" "transferred b w s (x\<lparr>bufs := (bufs x)(b := (bufs x b)\<lparr>disk := False\<rparr>)\<rparr>)"
    "lock_free L_vdisk x" "hart_ok x" "dused_idx x = used_idx x + 1" "used_ring x (unat (used_idx x) mod NUM) = 0" "info_status x 0 = 0"
    "info_b x 0 = Some b" "dfree x = dfree v" "desc x = desc v" "dev_idx x = avail_idx x" "used_idx x = used_idx v" "kept s x"
    by (rule served [OF v(2)])
  obtain ps m where y: "virtio_disk_intr x = Ok ((masked_once x)\<lparr>mmio := m, bufs := (bufs x)(b := (bufs x b)\<lparr>disk := False\<rparr>), procs := ps,
      used_idx := used_idx x + 1\<rparr>)" (is "_ = Ok ?y") and wk: "woke (procs x) ps"
    by (rule virtio_intr_run [OF x(4,3,5,6,7,8)])
  have yl: "lock_free L_vdisk ?y" "hart_ok ?y"
    using x(3,4) by (simp_all add: lock_free_def hart_ok_def cpu_ok_def mycpu_def cpuid_def) (simp_all add: masked_once_def lock_defs)
  have ky: "kept s ?y" using kept_masked [OF x(13)] wk x(13) woke_trans unfolding kept_def untouched_def by (auto simp: lock_ctx_def)
  obtain n where n: "NUM = Suc n" using NUM_Suc3 by blast
  have nd: "\<not> disk (bufs (enter_state L_vdisk ?y) b)" by (simp add: enter_state_def lock_defs)
  have "disk (bufs u b)" using submit_fields(7) [OF u_def] by simp
  then have "virtio_disk_wait NUM b u = virtio_disk_wait n b (enter_state L_vdisk ?y)"
    unfolding n by (rule virtio_wait_step [OF _ v(1) x(1) y acquire_free [OF yl(1)]])
  also have "\<dots> = Ok (enter_state L_vdisk ?y)" by (rule virtio_wait_done [OF nd])
  finally have wt: "virtio_disk_wait NUM b u = Ok (enter_state L_vdisk ?y)" .
  have d: "dfree ?y = dfree v" "desc ?y = desc v" using x(9,10) by simp_all
  obtain t where t: "bind_res (free_chain NUM 0 ((enter_state L_vdisk ?y)\<lparr>info_b := (info_b ?y)(0 := None)\<rparr>)) (release L_vdisk) = Ok t"
    "kept ?y t" "bufs t = bufs ?y" "medium t = medium ?y" "written t = written ?y" "dfree t = (dfree ?y)(0 := True, 1 := True, 2 := True)"
    "used_idx t = used_idx ?y" "dused_idx t = dused_idx ?y" "dev_idx t = dev_idx ?y" "avail_idx t = avail_idx ?y"
    by (rule finish_chain [OF yl]) (use v(2) in \<open>simp_all add: d submitted_def request_def\<close>)
  have ie: "info_b (enter_state L_vdisk ?y) = info_b ?y" by (simp add: enter_state_def lock_defs)
  have "virtio_disk_rw b w s = Ok t"
    using t(1) wt by (simp add: virtio_disk_rw_def acquire_free [OF s(2)] a ie flip: u_def One_nat_def)
  moreover have kt: "kept s t" by (rule kept_trans [OF ky t(2)])
  moreover have "transferred b w s t" using x(2) kt t(3-5) by (simp add: transferred_def)
  moreover have "vdisk_ok t"
  proof -
    have l: "lock_ctx s t" using kt by (simp add: kept_def untouched_def)
    have "dfree v = (dfree s)(0 := False, 1 := False, 2 := False)" using v(2) by (simp add: submitted_def)
    then show ?thesis using assms(1) t(6-10) d x(5,11) lock_ctx_free [OF l] lock_ctx_cpu_ok [OF l] by (simp add: vdisk_ok_def)
  qed
  ultimately show ?thesis using that by blast
qed

section \<open>The medium\<close>

lemma length_read_medium [simp]: "length (read_medium d a n) = n"
  by (simp add: read_medium_def)

lemma read_write_medium: "read_medium (write_medium d a bs) a (length bs) = bs"
  by (rule nth_equalityI) (simp_all add: read_medium_def write_medium_def)

lemma read_write_other:
  "a' + n \<le> a \<or> a + length bs \<le> a' \<Longrightarrow> read_medium (write_medium d a bs) a' n = read_medium d a' n"
  by (auto simp: read_medium_def write_medium_def)

lemma block_at_eq: "unat bn < 2 ^ 31 \<Longrightarrow> block_at bn = unat bn * BSIZE"
proof -
  assume "unat bn < 2 ^ 31"
  then have "unat (bn * 2) = unat bn * 2" by (simp add: unat_word_ariths)
  moreover have "unat (bn * 2) < 2 ^ LENGTH(32)" by (rule unsigned_less)
  then have "unat (bn * 2) < 18446744073709551616" by simp
  then have "unat (ucast (bn * 2) :: u64) = unat (bn * 2)" by (simp add: unsigned_ucast_eq take_bit_nat_eq_self)
  ultimately show ?thesis by (simp add: block_at_def BSIZE_def)
qed

section \<open>Properties\<close>


text \<open>A machine on which process 3 runs, with an idle disk and empty buffers.\<close>

definition quiet_slocks :: slocks where
  "quiet_slocks = cons.extend (quiet_cons\<lparr>uart_rx := [], cpus := (\<lambda>_. \<lparr>noff = 0, intena = False, sie = True, cproc = Some 3\<rparr>)\<rparr>)
     (slocks.fields (\<lambda>_. \<lparr>slocked = False, sname = [], spid = 0\<rparr>))"

definition quiet_bufs :: bcache where
  "quiet_bufs = slocks.extend quiet_slocks (bcache.fields
     (\<lambda>i. \<lparr>valid = False, disk = False, bdev = 0, blockno = 0, refcnt = 0, bprev = i, bnext = i, bdata = replicate BSIZE 0\<rparr>))"

definition quiet_disk :: vdisk where
  "quiet_disk = bcache.extend quiet_bufs (vdisk.fields (\<lambda>_. 0) 0 (\<lambda>_. null_desc) 0 (\<lambda>_. 0) 0 (\<lambda>_. 0) (\<lambda>_. True) 0 (\<lambda>_. None)
     (\<lambda>_. 0) (\<lambda>_. \<lparr>rtype = 0, reserved = 0, sector = 0\<rparr>) 0 (\<lambda>_. 0) [])"

lemma quiet_disk_fields [simp]:
  "cpus quiet_disk = (\<lambda>_. \<lparr>noff = 0, intena = False, sie = True, cproc = Some 3\<rparr>)" "tp quiet_disk = 0"
  "locks quiet_disk = (\<lambda>_. \<lparr>locked = False, lname = [], lcpu = None\<rparr>)" "procs quiet_disk = (\<lambda>_. idle_proc)"
  "sleeplocks quiet_disk = (\<lambda>_. \<lparr>slocked = False, sname = [], spid = 0\<rparr>)"
  "bufs quiet_disk = (\<lambda>i. \<lparr>valid = False, disk = False, bdev = 0, blockno = 0, refcnt = 0, bprev = i, bnext = i, bdata = replicate BSIZE 0\<rparr>)"
  "dfree quiet_disk = (\<lambda>_. True)" "dev_idx quiet_disk = 0" "avail_idx quiet_disk = 0" "used_idx quiet_disk = 0" "dused_idx quiet_disk = 0"
  "medium quiet_disk = (\<lambda>_. 0)" "written quiet_disk = []"
  by (simp_all add: quiet_disk_def quiet_bufs_def quiet_slocks_def quiet_cons_def quiet_uart_def idle_ptable_def
      vdisk.defs bcache.defs slocks.defs cons.defs uart.defs ptable.defs)


end
