(* ===== verification/Bio.thy ===== *)
theory Bio
  imports Virtio_Run
begin

text \<open>
  The buffer cache, \<^verbatim>\<open>kernel/bio.c\<close>. The buffers are linked into a ring through \<open>bnext\<close> and \<open>bprev\<close>, with a head that is
  not a buffer; the searches of \<open>bget\<close> visit each buffer at most once, so that \<open>NBUF\<close> steps are enough.

  The ring is a list of all buffers, most recently used first. A buffer is found if it holds the block,
  otherwise the last unused one of the list is recycled.
\<close>

section \<open>Operations\<close>

definition bnext_to :: "nat \<Rightarrow> nat \<Rightarrow> 'a bcache_scheme \<Rightarrow> 'a bcache_scheme" where
  "bnext_to b x = set_buf b (\<lambda>y. y\<lparr>bnext := x\<rparr>)"

definition bprev_to :: "nat \<Rightarrow> nat \<Rightarrow> 'a bcache_scheme \<Rightarrow> 'a bcache_scheme" where
  "bprev_to b x = set_buf b (\<lambda>y. y\<lparr>bprev := x\<rparr>)"

definition binit_step :: "nat \<Rightarrow> 'a bcache_scheme \<Rightarrow> 'a bcache_scheme" where
  "binit_step b s =
     (let s = bnext_to b (bnext (bufs s NBUF)) s;
          s = bprev_to b NBUF s;
          s = initsleeplock (L_buf b) ''buffer'' s;
          s = bprev_to (bnext (bufs s NBUF)) b s
      in bnext_to NBUF b s)"

definition binit :: "'a bcache_scheme \<Rightarrow> 'a bcache_scheme" where
  "binit s = fold binit_step [0..<NBUF] (bnext_to NBUF NBUF (bprev_to NBUF NBUF (initlock L_bcache ''bcache'' s)))"

fun bget_find :: "nat \<Rightarrow> u32 \<Rightarrow> u32 \<Rightarrow> nat \<Rightarrow> 'a bcache_scheme \<Rightarrow> nat option res" where
  "bget_find n dev bno b s =
     (if b = NBUF then Ok None
      else if bdev (bufs s b) = dev \<and> blockno (bufs s b) = bno then Ok (Some b)
      else case n of 0 \<Rightarrow> OutOfFuel | Suc n \<Rightarrow> bget_find n dev bno (bnext (bufs s b)) s)"

fun bget_lru :: "nat \<Rightarrow> nat \<Rightarrow> 'a bcache_scheme \<Rightarrow> nat option res" where
  "bget_lru n b s =
     (if b = NBUF then Ok None
      else if refcnt (bufs s b) = 0 then Ok (Some b)
      else case n of 0 \<Rightarrow> OutOfFuel | Suc n \<Rightarrow> bget_lru n (bprev (bufs s b)) s)"

definition bget :: "u32 \<Rightarrow> u32 \<Rightarrow> 'a bcache_scheme \<Rightarrow> (nat \<times> 'a bcache_scheme) res" where
  "bget dev bno s =
     bind_res (acquire L_bcache s) (\<lambda>s.
       bind_res (bget_find NBUF dev bno (bnext (bufs s NBUF)) s) (\<lambda>f.
         case f of
           Some b \<Rightarrow>
             bind_res (release L_bcache (set_buf b (\<lambda>x. x\<lparr>refcnt := refcnt x + 1\<rparr>) s)) (\<lambda>s.
               bind_res (acquiresleep (L_buf b) s) (\<lambda>s. Ok (b, s)))
         | None \<Rightarrow>
             bind_res (bget_lru NBUF (bprev (bufs s NBUF)) s) (\<lambda>f.
               case f of
                 Some b \<Rightarrow>
                   bind_res (release L_bcache (set_buf b (\<lambda>x. x\<lparr>bdev := dev, blockno := bno, valid := False, refcnt := 1\<rparr>) s)) (\<lambda>s.
                     bind_res (acquiresleep (L_buf b) s) (\<lambda>s. Ok (b, s)))
               | None \<Rightarrow> Panic ''bget: no buffers'')))"

definition bread :: "u32 \<Rightarrow> u32 \<Rightarrow> 'a vdisk_scheme \<Rightarrow> (nat \<times> 'a vdisk_scheme) res" where
  "bread dev bno s =
     bind_res (bget dev bno s) (\<lambda>(b, s).
       if \<not> valid (bufs s b)
       then bind_res (virtio_disk_rw b False s) (\<lambda>s. Ok (b, set_buf b (\<lambda>x. x\<lparr>valid := True\<rparr>) s))
       else Ok (b, s))"

definition bwrite :: "nat \<Rightarrow> 'a vdisk_scheme \<Rightarrow> 'a vdisk_scheme res" where
  "bwrite b s =
     bind_res (holdingsleep (L_buf b) s) (\<lambda>(h, s).
       if \<not> h then Panic ''bwrite'' else virtio_disk_rw b True s)"

definition bmove_front :: "nat \<Rightarrow> 'a bcache_scheme \<Rightarrow> 'a bcache_scheme" where
  "bmove_front b s =
     (let s = bprev_to (bnext (bufs s b)) (bprev (bufs s b)) s;
          s = bnext_to (bprev (bufs s b)) (bnext (bufs s b)) s;
          s = bnext_to b (bnext (bufs s NBUF)) s;
          s = bprev_to b NBUF s;
          s = bprev_to (bnext (bufs s NBUF)) b s
      in bnext_to NBUF b s)"

definition brelse :: "nat \<Rightarrow> 'a bcache_scheme \<Rightarrow> 'a bcache_scheme res" where
  "brelse b s =
     bind_res (holdingsleep (L_buf b) s) (\<lambda>(h, s).
       if \<not> h then Panic ''brelse''
       else bind_res (releasesleep (L_buf b) s) (\<lambda>s.
         bind_res (acquire L_bcache s) (\<lambda>s.
           let s = set_buf b (\<lambda>x. x\<lparr>refcnt := refcnt x - 1\<rparr>) s
           in release L_bcache (if refcnt (bufs s b) = 0 then bmove_front b s else s))))"

definition bpin :: "nat \<Rightarrow> 'a bcache_scheme \<Rightarrow> 'a bcache_scheme res" where
  "bpin b s = bind_res (acquire L_bcache s) (\<lambda>s. release L_bcache (set_buf b (\<lambda>x. x\<lparr>refcnt := refcnt x + 1\<rparr>) s))"

definition bunpin :: "nat \<Rightarrow> 'a bcache_scheme \<Rightarrow> 'a bcache_scheme res" where
  "bunpin b s = bind_res (acquire L_bcache s) (\<lambda>s. release L_bcache (set_buf b (\<lambda>x. x\<lparr>refcnt := refcnt x - 1\<rparr>) s))"

section \<open>Rings of links\<close>

text \<open>\<open>chain nx pv a xs z\<close>: the links lead from \<open>a\<close> through \<open>xs\<close> to \<open>z\<close>, in both directions.\<close>

fun chain :: "(nat \<Rightarrow> nat) \<Rightarrow> (nat \<Rightarrow> nat) \<Rightarrow> nat \<Rightarrow> nat list \<Rightarrow> nat \<Rightarrow> bool" where
  "chain nx pv a [] z \<longleftrightarrow> nx a = z \<and> pv z = a"
| "chain nx pv a (x # xs) z \<longleftrightarrow> nx a = x \<and> pv x = a \<and> chain nx pv x xs z"

lemma chain_append: "chain nx pv a (xs @ y # ys) z \<longleftrightarrow> chain nx pv a xs y \<and> chain nx pv y ys z"
  by (induction xs arbitrary: a) auto

lemma chain_cong:
  "(\<And>x. x = a \<or> x \<in> set xs \<Longrightarrow> nx x = nx' x) \<Longrightarrow> (\<And>x. x = z \<or> x \<in> set xs \<Longrightarrow> pv x = pv' x) \<Longrightarrow>
   chain nx pv a xs z = chain nx' pv' a xs z"
proof (induction xs arbitrary: a)
  case (Cons x xs)
  have "chain nx pv x xs z = chain nx' pv' x xs z" by (rule Cons.IH) (use Cons.prems in auto)
  then show ?case using Cons.prems by simp
qed simp

lemma chain_end: "chain nx pv a xs z \<Longrightarrow> nx (last (a # xs)) = z \<and> pv z = last (a # xs)"
  by (induction xs arbitrary: a) auto

lemma chain_start: "chain nx pv a xs z \<Longrightarrow> nx a = hd (xs @ [z]) \<and> pv (hd (xs @ [z])) = a"
  by (cases xs) auto

lemma chain_relink_end:
  "chain nx pv a xs z \<Longrightarrow> distinct (a # xs) \<Longrightarrow> y \<notin> set xs \<Longrightarrow>
   chain (nx(last (a # xs) := y)) (pv(y := last (a # xs))) a xs y"
proof (induction xs arbitrary: a)
  case (Cons x xs)
  have "last (x # xs) \<noteq> a" using Cons.prems(2) by (metis distinct.simps(2) last_in_set list.discI)
  then show ?case using Cons by auto
qed simp

text \<open>Taking a node out of a ring.\<close>

lemma chain_unlink:
  assumes "chain nx pv h (xs @ b # ys) h" "distinct (h # xs @ b # ys)"
  shows "chain (nx(pv b := nx b)) (pv(nx b := pv b)) h (xs @ ys) h"
proof -
  have c: "chain nx pv h xs b" "chain nx pv b ys h" using assms(1) by (simp_all add: chain_append)
  have p: "pv b = last (h # xs)" and q: "nx b = hd (ys @ [h])" using chain_end [OF c(1)] chain_start [OF c(2)] by simp_all
  have l: "last (h # xs) \<in> set (h # xs)" by (rule last_in_set) simp
  show ?thesis
  proof (cases ys)
    case Nil
    then show ?thesis using chain_relink_end [OF c(1), of h] assms(2) p q by simp
  next
    case (Cons y zs)
    have "chain (nx(last (h # xs) := y)) (pv(y := last (h # xs))) h xs y"
      by (rule chain_relink_end [OF c(1)]) (use assms(2) Cons in auto)
    moreover have "chain (nx(last (h # xs) := y)) (pv(y := last (h # xs))) y zs h = chain nx pv y zs h"
      by (rule chain_cong) (use assms(2) Cons l in auto)
    ultimately show ?thesis using c(2) Cons p q by (simp add: chain_append)
  qed
qed

text \<open>Putting a node in behind the head.\<close>

lemma chain_insert:
  assumes "chain nx pv h zs h" "distinct (h # b # zs)"
  shows "chain (nx(b := nx h, h := b)) (pv(b := h, nx h := b)) h (b # zs) h"
proof (cases zs)
  case Nil
  then show ?thesis using assms by auto
next
  case (Cons z ys)
  have "chain (nx(b := z, h := b)) (pv(b := h, z := b)) z ys h = chain nx pv z ys h"
    by (rule chain_cong) (use assms(2) Cons in auto)
  then show ?thesis using assms Cons by auto
qed

section \<open>The cache as a list\<close>

definition lru :: "'a bcache_scheme \<Rightarrow> nat list \<Rightarrow> bool" where
  "lru s L \<longleftrightarrow> chain (\<lambda>i. bnext (bufs s i)) (\<lambda>i. bprev (bufs s i)) NBUF L NBUF \<and> distinct L \<and> set L = {..<NBUF}"

lemma lru_cong: "(\<And>i. bnext (bufs t i) = bnext (bufs s i)) \<Longrightarrow> (\<And>i. bprev (bufs t i) = bprev (bufs s i)) \<Longrightarrow> lru s L \<Longrightarrow> lru t L"
  by (simp add: lru_def)

lemma bufs_set_buf [simp]: "bufs (set_buf b f s) = (bufs s)(b := f (bufs s b))"
  by (simp add: set_buf_def)

lemma links_to [simp]:
  "(\<lambda>i. bnext (bufs (bnext_to b x s) i)) = (\<lambda>i. bnext (bufs s i))(b := x)"
  "(\<lambda>i. bprev (bufs (bnext_to b x s) i)) = (\<lambda>i. bprev (bufs s i))"
  "(\<lambda>i. bprev (bufs (bprev_to b x s) i)) = (\<lambda>i. bprev (bufs s i))(b := x)"
  "(\<lambda>i. bnext (bufs (bprev_to b x s) i)) = (\<lambda>i. bnext (bufs s i))"
  by (auto simp: bnext_to_def bprev_to_def fun_eq_iff)

lemma link_to:
  "bnext (bufs (bnext_to b x s) i) = (if i = b then x else bnext (bufs s i))"
  "bprev (bufs (bnext_to b x s) i) = bprev (bufs s i)"
  "bprev (bufs (bprev_to b x s) i) = (if i = b then x else bprev (bufs s i))"
  "bnext (bufs (bprev_to b x s) i) = bnext (bufs s i)"
  by (auto simp: bnext_to_def bprev_to_def)

lemma bmove_front_lru:
  assumes "lru s L" "b < NBUF"
  shows "lru (bmove_front b s) (b # removeAll b L)"
proof -
  let ?nx = "\<lambda>i. bnext (bufs s i)" and ?pv = "\<lambda>i. bprev (bufs s i)"
  have L: "chain ?nx ?pv NBUF L NBUF" "distinct L" "set L = {..<NBUF}" using assms(1) by (simp_all add: lru_def)
  obtain xs ys where d: "L = xs @ b # ys" using L(3) assms(2) by (metis lessThan_iff split_list)
  have dd: "distinct (NBUF # xs @ b # ys)" using L(2,3) d by auto
  let ?nx1 = "?nx(?pv b := ?nx b)" and ?pv1 = "?pv(?nx b := ?pv b)"
  have c: "chain ?nx1 ?pv1 NBUF (xs @ ys) NBUF" using L(1) dd unfolding d by (rule chain_unlink)
  have nb: "?nx b \<noteq> b" "b \<noteq> NBUF" using chain_start [of ?nx ?pv b ys NBUF] L(1) dd d
    by (auto simp: chain_append hd_append split: list.splits)
  have "chain (?nx1(b := ?nx1 NBUF, NBUF := b)) (?pv1(b := NBUF, ?nx1 NBUF := b)) NBUF (b # xs @ ys) NBUF"
    using c dd by (intro chain_insert) auto
  moreover have "(\<lambda>i. bnext (bufs (bmove_front b s) i)) = ?nx1(b := ?nx1 NBUF, NBUF := b)"
      "(\<lambda>i. bprev (bufs (bmove_front b s) i)) = ?pv1(b := NBUF, ?nx1 NBUF := b)"
    using nb by (simp_all add: bmove_front_def Let_def link_to fun_eq_iff)
  moreover have "removeAll b L = xs @ ys" using dd d by simp
  ultimately show ?thesis using L dd d by (auto simp: lru_def)
qed

lemma binit_step_chain:
  assumes "chain (\<lambda>i. bnext (bufs s i)) (\<lambda>i. bprev (bufs s i)) NBUF zs NBUF" "distinct (NBUF # b # zs)"
  shows "chain (\<lambda>i. bnext (bufs (binit_step b s) i)) (\<lambda>i. bprev (bufs (binit_step b s) i)) NBUF (b # zs) NBUF"
proof -
  let ?nx = "\<lambda>i. bnext (bufs s i)" and ?pv = "\<lambda>i. bprev (bufs s i)"
  have i: "bufs (initsleeplock l n u) = bufs u" for l n and u :: "'a bcache_scheme"
    by (simp add: initsleeplock_def set_sleeplock_def initlock_def set_lock_def)
  have "(\<lambda>i. bnext (bufs (binit_step b s) i)) = ?nx(b := ?nx NBUF, NBUF := b)"
      "(\<lambda>i. bprev (bufs (binit_step b s) i)) = ?pv(b := NBUF, ?nx NBUF := b)"
    using assms(2) by (simp_all add: binit_step_def Let_def link_to i fun_eq_iff)
  then show ?thesis using chain_insert [OF assms] by simp
qed

lemma binit_lru: "lru (binit s) (rev [0..<NBUF])"
proof -
  let ?s = "bnext_to NBUF NBUF (bprev_to NBUF NBUF (initlock L_bcache ''bcache'' s))"
  have "chain (\<lambda>i. bnext (bufs (fold binit_step [0..<n] ?s) i)) (\<lambda>i. bprev (bufs (fold binit_step [0..<n] ?s) i)) NBUF (rev [0..<n]) NBUF"
    if "n \<le> NBUF" for n
    using that
  proof (induction n)
    case 0
    then show ?case by simp
  next
    case (Suc n)
    then show ?case using binit_step_chain [of "fold binit_step [0..<n] ?s" "rev [0..<n]" n] by simp
  qed
  then show ?thesis by (auto simp: lru_def binit_def)
qed

declare bget_find.simps [simp del] bget_lru.simps [simp del]

lemma bget_find_list:
  assumes "chain (\<lambda>i. bnext (bufs s i)) pv a L NBUF" "NBUF \<notin> set L" "length L \<le> n"
  shows "bget_find n dev bno (bnext (bufs s a)) s = Ok (List.find (\<lambda>b. bdev (bufs s b) = dev \<and> blockno (bufs s b) = bno) L)"
  using assms
proof (induction L arbitrary: a n)
  case Nil
  then show ?case by (simp add: bget_find.simps)
next
  case (Cons x L)
  then obtain m where "n = Suc m" by (cases n) auto
  then show ?case using Cons by (auto simp: bget_find.simps [of _ _ _ x])
qed

lemma chain_rev: "chain nx pv a xs z \<Longrightarrow> chain pv nx z (rev xs) a"
  by (induction xs arbitrary: a) (auto simp: chain_append)

lemma bget_lru_list:
  assumes "chain (\<lambda>i. bprev (bufs s i)) nx a L NBUF" "NBUF \<notin> set L" "length L \<le> n"
  shows "bget_lru n (bprev (bufs s a)) s = Ok (List.find (\<lambda>b. refcnt (bufs s b) = 0) L)"
  using assms
proof (induction L arbitrary: a n)
  case Nil
  then show ?case by (simp add: bget_lru.simps)
next
  case (Cons x L)
  then obtain m where "n = Suc m" by (cases n) auto
  then show ?case using Cons by (auto simp: bget_lru.simps [of _ x])
qed

lemma lru_searches:
  assumes "lru s L"
  shows "bget_find NBUF dev bno (bnext (bufs s NBUF)) s = Ok (List.find (\<lambda>b. bdev (bufs s b) = dev \<and> blockno (bufs s b) = bno) L)"
    and "bget_lru NBUF (bprev (bufs s NBUF)) s = Ok (List.find (\<lambda>b. refcnt (bufs s b) = 0) (rev L))"
proof -
  have L: "chain (\<lambda>i. bnext (bufs s i)) (\<lambda>i. bprev (bufs s i)) NBUF L NBUF" "NBUF \<notin> set L" "length L = NBUF"
    using assms distinct_card [of L] by (auto simp: lru_def)
  show "bget_find NBUF dev bno (bnext (bufs s NBUF)) s = Ok (List.find (\<lambda>b. bdev (bufs s b) = dev \<and> blockno (bufs s b) = bno) L)"
    using L by (intro bget_find_list) auto
  show "bget_lru NBUF (bprev (bufs s NBUF)) s = Ok (List.find (\<lambda>b. refcnt (bufs s b) = 0) (rev L))"
    using chain_rev [OF L(1)] L(2,3) by (intro bget_lru_list) auto
qed

end
