(* ===== verification/Bio_Cache.thy ===== *)
theory Bio_Cache
  imports Bio
begin

text \<open>
  What the buffer cache promises to its clients. For a device \<open>d\<close> the cache is the current contents of every
  block (\<open>bview\<close>), which of them are in use and how often (\<open>brefs\<close>, \<open>bheld\<close>), and the number of buffers in use (\<open>bused\<close>).
  The invariant says that a block is in at most one buffer and that an unused buffer holds what is on the medium.
\<close>

section \<open>The client's view\<close>

definition dblk :: "'a vdisk_scheme \<Rightarrow> u32 \<Rightarrow> u8 list" where
  "dblk s n = read_medium (medium s) (unat n * BSIZE) BSIZE"

definition holds_block :: "'a bcache_scheme \<Rightarrow> u32 \<Rightarrow> u32 \<Rightarrow> nat \<Rightarrow> bool" where
  "holds_block s d n b \<longleftrightarrow> b < NBUF \<and> bdev (bufs s b) = d \<and> blockno (bufs s b) = n"

definition block_buf :: "'a bcache_scheme \<Rightarrow> u32 \<Rightarrow> u32 \<Rightarrow> nat option" where
  "block_buf s d n = List.find (\<lambda>b. bdev (bufs s b) = d \<and> blockno (bufs s b) = n) [0..<NBUF]"

definition bview :: "'a vdisk_scheme \<Rightarrow> u32 \<Rightarrow> u32 \<Rightarrow> u8 list" where
  "bview s d n = (case block_buf s d n of Some b \<Rightarrow> if valid (bufs s b) then bdata (bufs s b) else dblk s n | None \<Rightarrow> dblk s n)"

definition brefs :: "'a bcache_scheme \<Rightarrow> u32 \<Rightarrow> u32 \<Rightarrow> nat" where
  "brefs s d n = (case block_buf s d n of Some b \<Rightarrow> unat (refcnt (bufs s b)) | None \<Rightarrow> 0)"

definition bheld :: "'a bcache_scheme \<Rightarrow> u32 \<Rightarrow> u32 \<Rightarrow> bool" where
  "bheld s d n \<longleftrightarrow> (case block_buf s d n of Some b \<Rightarrow> slocked (sleeplocks s (L_buf b)) | None \<Rightarrow> False)"

definition bused :: "'a bcache_scheme \<Rightarrow> nat" where
  "bused s = card {b. b < NBUF \<and> refcnt (bufs s b) \<noteq> 0}"

definition mypid :: "'a ptable_scheme \<Rightarrow> int" where
  "mypid s = pid (procs s (the (cproc (mycpu s))))"

definition buf_ok :: "'a vdisk_scheme \<Rightarrow> u32 \<Rightarrow> nat \<Rightarrow> bool" where
  "buf_ok s d b \<longleftrightarrow> length (bdata (bufs s b)) = BSIZE \<and> \<not> disk (bufs s b) \<and> (refcnt (bufs s b) \<noteq> 0 \<longrightarrow> bdev (bufs s b) = d \<and> valid (bufs s b)) \<and>
     (slocked (sleeplocks s (L_buf b)) \<longrightarrow> refcnt (bufs s b) \<noteq> 0) \<and>
     (bdev (bufs s b) = d \<and> valid (bufs s b) \<and> refcnt (bufs s b) = 0 \<longrightarrow> bdata (bufs s b) = dblk s (blockno (bufs s b)))"

definition one_buf :: "'a bcache_scheme \<Rightarrow> u32 \<Rightarrow> bool" where
  "one_buf s d \<longleftrightarrow> (\<forall>a b n. holds_block s d n a \<longrightarrow> holds_block s d n b \<longrightarrow> a = b)"

definition cache_inv :: "'a vdisk_scheme \<Rightarrow> nat list \<Rightarrow> u32 \<Rightarrow> bool" where
  "cache_inv s L d \<longleftrightarrow> lru s L \<and> vdisk_ok s \<and> lock_free L_bcache s \<and> (\<forall>b < NBUF. lock_free (L_buf b) s) \<and>
     cproc (mycpu s) \<noteq> None \<and> (\<forall>b < NBUF. buf_ok s d b) \<and> one_buf s d"

lemma dblk_medium: "medium t = medium s \<Longrightarrow> dblk t = dblk s"
  by (rule ext) (simp add: dblk_def)

lemma block_buf_Some: "block_buf s d n = Some b \<Longrightarrow> holds_block s d n b"
  by (auto simp: block_buf_def holds_block_def find_Some_iff)

lemma block_buf_None: "block_buf s d n = None \<longleftrightarrow> (\<nexists>b. holds_block s d n b)"
  by (auto simp: block_buf_def holds_block_def find_None_iff)

lemma block_buf_eq: "one_buf s d \<Longrightarrow> holds_block s d n b \<Longrightarrow> block_buf s d n = Some b"
  using block_buf_Some [of s d n] block_buf_None [of s d n] by (cases "block_buf s d n") (auto simp: one_buf_def)

lemma find_in_lru:
  assumes "lru s L" "one_buf s d"
  shows "List.find (\<lambda>b. bdev (bufs s b) = d \<and> blockno (bufs s b) = n) L = block_buf s d n"
proof (cases "block_buf s d n")
  case None
  then have "\<nexists>b. holds_block s d n b" by (simp add: block_buf_None)
  then have "List.find (\<lambda>b. bdev (bufs s b) = d \<and> blockno (bufs s b) = n) L = None"
    using assms(1) by (auto simp: find_None_iff lru_def holds_block_def)
  then show ?thesis using None by simp
next
  case (Some b)
  then have b: "holds_block s d n b" by (rule block_buf_Some)
  then have "List.find (\<lambda>b. bdev (bufs s b) = d \<and> blockno (bufs s b) = n) L \<noteq> None"
    using assms(1) by (auto simp: find_None_iff lru_def holds_block_def)
  then obtain a where a: "List.find (\<lambda>b. bdev (bufs s b) = d \<and> blockno (bufs s b) = n) L = Some a" by auto
  then have "holds_block s d n a" using assms(1) by (auto simp: find_Some_iff lru_def holds_block_def dest: nth_mem)
  then show ?thesis using a Some b assms(2) by (auto simp: one_buf_def)
qed

lemma lru_free:
  assumes "lru s L" "bused s < NBUF"
  obtains b where "List.find (\<lambda>b. refcnt (bufs s b) = 0) (rev L) = Some b" "b < NBUF" "refcnt (bufs s b) = 0"
proof -
  have "\<exists>b < NBUF. refcnt (bufs s b) = 0"
  proof (rule ccontr)
    assume "\<not> ?thesis"
    then have "{b. b < NBUF \<and> refcnt (bufs s b) \<noteq> 0} = {..<NBUF}" by auto
    then show False using assms(2) by (simp add: bused_def)
  qed
  then obtain a where a: "a < NBUF" "refcnt (bufs s a) = 0" by blast
  then have "List.find (\<lambda>b. refcnt (bufs s b) = 0) (rev L) \<noteq> None" using assms(1) by (auto simp: find_None_iff lru_def)
  then obtain b where b: "List.find (\<lambda>b. refcnt (bufs s b) = 0) (rev L) = Some b" by auto
  then obtain i where "i < length (rev L)" "rev L ! i = b" "refcnt (bufs s b) = 0" by (auto simp: find_Some_iff)
  then have "b \<in> set (rev L)" "refcnt (bufs s b) = 0" using nth_mem by metis+
  then show ?thesis using that b assms(1) by (auto simp: lru_def)
qed

section \<open>Getting a buffer\<close>

lemma cproc_ctx: "lock_ctx s t \<Longrightarrow> cproc (mycpu t) = cproc (mycpu s)"
  by (auto simp: lock_ctx_def mycpu_def cpuid_def masked_once_def lock_defs)

lemma masked_slocks [simp]: "sleeplocks (masked_once s) = sleeplocks s"
  by (simp add: masked_once_def lock_defs)

definition locked_by :: "int \<Rightarrow> sleeplock \<Rightarrow> sleeplock" where
  "locked_by i k = k\<lparr>slocked := True, spid := i\<rparr>"

lemma buf_section:
  "lock_free L_bcache s \<Longrightarrow> cpu_ok s \<Longrightarrow> release L_bcache (set_buf b f (enter_state L_bcache s)) = Ok (set_buf b f (masked_once s))"
  by (rule critical_section) (simp_all add: set_buf_eq)

lemma bget_lock:
  fixes s :: "'a vdisk_scheme"
  assumes "vdisk_ok s" "lock_free L_bcache s" "lock_free (L_buf b) s" "cproc (mycpu s) \<noteq> None" "\<not> slocked (sleeplocks s (L_buf b))"
  obtains t where "bind_res (release L_bcache (set_buf b f (enter_state L_bcache s))) (\<lambda>s. bind_res (acquiresleep (L_buf b) s) (\<lambda>s. Ok (b, s))) = Ok (b, t)"
    "untouched s t" "bufs t = (bufs s)(b := f (bufs s b))" "sleeplocks t = (sleeplocks s)(L_buf b := locked_by (mypid s) (sleeplocks s (L_buf b)))"
    "medium t = medium s" "written t = written s" "vdisk_ok t"
proof -
  obtain p where p: "cproc (mycpu s) = Some p" using assms(4) by auto
  have c: "cpu_ok s" using assms(1) by (simp add: vdisk_ok_def)
  have r: "release L_bcache (set_buf b f (enter_state L_bcache s)) = Ok (set_buf b f (masked_once s))"
    by (rule buf_section [OF assms(2) c])
  let ?u = "set_buf b f (masked_once s)"
  have l: "lock_ctx s ?u" by (simp add: lock_ctx_def set_buf_def)
  have u: "cpu_ok ?u" "lock_free (L_buf b) ?u" "cproc (mycpu ?u) = Some p" "\<not> slocked (sleeplocks ?u (L_buf b))"
    using lock_ctx_cpu_ok [OF l] lock_ctx_free [OF l] cproc_ctx [OF l] c assms(3,5) p
    by (simp_all add: set_buf_def masked_once_def lock_defs)
  let ?t = "set_sleeplock (L_buf b) (\<lambda>k. k\<lparr>slocked := True, spid := pid (procs ?u p)\<rparr>) (masked_once ?u)"
  have "acquiresleep (L_buf b) ?u = Ok ?t" using acquiresleep_run [OF u(1-3)] u(4) by simp
  moreover have lt: "lock_ctx s ?t"
    by (rule lock_ctx_trans [OF l]) (simp add: lock_ctx_def set_sleeplock_def)
  moreover have "untouched s ?t" using lt by (simp add: untouched_def set_sleeplock_def set_buf_def masked_once_def lock_defs)
  moreover have "vdisk_ok ?t"
    using assms(1) lock_ctx_cpu_ok [OF lt] lock_ctx_free [OF lt]
    by (simp add: vdisk_ok_def) (simp add: set_sleeplock_def set_buf_def masked_once_def lock_defs)
  ultimately show ?thesis using that [of ?t] r p
    by (simp add: set_sleeplock_def set_buf_def locked_by_def mypid_def)
qed

text \<open>A block that is cached is found; one that is not goes into the least recently used unused buffer.\<close>

definition got :: "nat list \<Rightarrow> u32 \<Rightarrow> u32 \<Rightarrow> nat \<Rightarrow> 'a bcache_scheme \<Rightarrow> buf \<Rightarrow> bool" where
  "got L d n b s x \<longleftrightarrow> (case block_buf s d n of
     Some a \<Rightarrow> b = a \<and> x = (bufs s a)\<lparr>refcnt := refcnt (bufs s a) + 1\<rparr>
   | None \<Rightarrow> List.find (\<lambda>b. refcnt (bufs s b) = 0) (rev L) = Some b \<and>
       x = (bufs s b)\<lparr>bdev := d, blockno := n, valid := False, refcnt := 1\<rparr>)"

lemma bget_run:
  fixes s :: "'a vdisk_scheme"
  assumes "cache_inv s L d" "\<not> bheld s d n" "brefs s d n \<noteq> 0 \<or> bused s < NBUF"
  obtains b t x where "bget d n s = Ok (b, t)" "got L d n b s x" "b < NBUF"
    "untouched s t" "bufs t = (bufs s)(b := x)" "sleeplocks t = (sleeplocks s)(L_buf b := locked_by (mypid s) (sleeplocks s (L_buf b)))"
    "medium t = medium s" "written t = written s" "vdisk_ok t" "\<not> slocked (sleeplocks s (L_buf b))"
proof -
  have I: "lru s L" "vdisk_ok s" "lock_free L_bcache s" "cproc (mycpu s) \<noteq> None" "one_buf s d"
    "\<And>b. b < NBUF \<Longrightarrow> lock_free (L_buf b) s" "\<And>b. b < NBUF \<Longrightarrow> buf_ok s d b"
    using assms(1) by (auto simp: cache_inv_def)
  let ?e = "enter_state L_bcache s"
  have e: "bufs ?e = bufs s" by (simp add: enter_state_def lock_defs)
  then have "lru ?e L" using I(1) by (simp add: lru_def)
  note S = lru_searches [OF this, unfolded e]
  have bf: "List.find (\<lambda>b. bdev (bufs s b) = d \<and> blockno (bufs s b) = n) L = block_buf s d n" by (rule find_in_lru [OF I(1,5)])
  show ?thesis
  proof (cases "block_buf s d n")
    case (Some b)
    have b: "b < NBUF" using block_buf_Some [OF Some] by (simp add: holds_block_def)
    have nl: "\<not> slocked (sleeplocks s (L_buf b))" using assms(2) Some by (simp add: bheld_def)
    show ?thesis
      by (rule bget_lock [OF I(2,3) I(6) [OF b] I(4) nl, of "\<lambda>x. x\<lparr>refcnt := refcnt x + 1\<rparr>"], rule that [of b])
        (use b nl in \<open>simp_all add: bget_def acquire_free [OF I(3)] S(1) e bf Some got_def\<close>)
  next
    case None
    then have "bused s < NBUF" using assms(3) by (simp add: brefs_def)
    then obtain b where b: "List.find (\<lambda>b. refcnt (bufs s b) = 0) (rev L) = Some b" "b < NBUF" "refcnt (bufs s b) = 0"
      by (rule lru_free [OF I(1)])
    have nl: "\<not> slocked (sleeplocks s (L_buf b))" using I(7) [OF b(2)] b(3) by (simp add: buf_ok_def)
    show ?thesis
      by (rule bget_lock [OF I(2,3) I(6) [OF b(2)] I(4) nl, of "\<lambda>x. x\<lparr>bdev := d, blockno := n, valid := False, refcnt := 1\<rparr>"], rule that [of b])
        (use b nl in \<open>simp_all add: bget_def acquire_free [OF I(3)] S e bf None got_def\<close>)
  qed
qed

lemma bread_run:
  fixes s :: "'a vdisk_scheme"
  assumes "cache_inv s L d" "\<not> bheld s d n" "brefs s d n \<noteq> 0 \<or> bused s < NBUF" "unat n < 2 ^ 31"
  obtains b t x where "bread d n s = Ok (b, t)" "got L d n b s x" "b < NBUF" "untouched s t"
    "bufs t = (bufs s)(b := x\<lparr>valid := True, bdata := bview s d n\<rparr>)"
    "sleeplocks t = (sleeplocks s)(L_buf b := locked_by (mypid s) (sleeplocks s (L_buf b)))"
    "medium t = medium s" "written t = written s" "vdisk_ok t" "\<not> slocked (sleeplocks s (L_buf b))"
proof -
  obtain b u x where u: "bget d n s = Ok (b, u)" and g: "got L d n b s x" and b: "b < NBUF"
    and U: "untouched s u" "bufs u = (bufs s)(b := x)" "sleeplocks u = (sleeplocks s)(L_buf b := locked_by (mypid s) (sleeplocks s (L_buf b)))"
      "medium u = medium s" "written u = written s" "vdisk_ok u" "\<not> slocked (sleeplocks s (L_buf b))"
    by (rule bget_run [OF assms(1-3)])
  have ok: "buf_ok s d b" using assms(1) b by (simp add: cache_inv_def)
  have x: "blockno x = n" "length (bdata x) = BSIZE" "\<not> disk x"
    using g block_buf_Some [of s d n] ok by (auto simp: got_def holds_block_def buf_ok_def split: option.splits)
  show ?thesis
  proof (cases "valid x")
    case True
    then have "x\<lparr>valid := True, bdata := bview s d n\<rparr> = x" using g by (auto simp: got_def bview_def split: option.splits)
    moreover have "bread d n s = Ok (b, u)" using u True U(2) by (simp add: bread_def)
    ultimately show ?thesis using that [of b u x] g b U by simp
  next
    case False
    have v: "bview s d n = dblk s n" using g False by (auto simp: got_def bview_def split: option.splits)
    obtain t where t: "virtio_disk_rw b False u = Ok t" "transferred b False u t" "vdisk_ok t"
      by (rule virtio_disk_rw_run [OF U(6), of b False]) (use x U(2) in simp_all)
    let ?t = "set_buf b (\<lambda>x. x\<lparr>valid := True\<rparr>) t"
    have "bread d n s = Ok (b, ?t)" using u False U(2) t(1) by (simp add: bread_def)
    moreover have "untouched s ?t"
      by (rule untouched_trans [OF U(1)]) (use t(2) in \<open>simp add: transferred_def kept_def untouched_def lock_ctx_def set_buf_def\<close>)
    moreover have "bufs ?t = (bufs s)(b := x\<lparr>valid := True, bdata := bview s d n\<rparr>)"
      using t(2) x U(2,4) assms(4) by (simp add: transferred_def v dblk_def block_at_eq fun_eq_iff)
    moreover have "vdisk_ok ?t" using t(3) by (simp add: vdisk_ok_def cpu_ok_def mycpu_def cpuid_def lock_free_def set_buf_def)
    moreover have "sleeplocks ?t = sleeplocks u" "medium ?t = medium u" "written ?t = written u"
      using t(2) by (simp_all add: transferred_def kept_def set_buf_def)
    ultimately show ?thesis using that [of b ?t x] g b U by simp
  qed
qed

section \<open>The view after an operation\<close>

lemma holds_block_unique: "one_buf s d \<Longrightarrow> holds_block s d n a \<Longrightarrow> holds_block s d n b \<Longrightarrow> a = b"
  unfolding one_buf_def by blast

lemma block_buf_same:
  assumes "one_buf s d" "\<And>c m. holds_block t d m c = holds_block s d m c"
  shows "one_buf t d" "block_buf t d = block_buf s d"
proof -
  show o: "one_buf t d" using assms by (simp add: one_buf_def)
  show "block_buf t d = block_buf s d"
  proof
    fix m
    show "block_buf t d m = block_buf s d m"
      using block_buf_None [of s d m] block_buf_None [of t d m] block_buf_Some [of s d m] block_buf_eq [OF o] assms(2)
      by (cases "block_buf s d m") auto
  qed
qed

lemma unat_inc: "unat r + 1 < 2 ^ 32 \<Longrightarrow> unat (r + 1) = unat r + 1" for r :: u32
  by (simp add: unat_word_ariths)

lemma bused_insert:
  assumes "bufs t = (bufs s)(b := x)" "b < NBUF" "refcnt x \<noteq> 0"
  shows "bused t = bused s + (if refcnt (bufs s b) = 0 then 1 else 0)"
proof -
  have "{c. c < NBUF \<and> refcnt (bufs t c) \<noteq> 0} = insert b {c. c < NBUF \<and> refcnt (bufs s c) \<noteq> 0}" using assms by auto
  then show ?thesis using assms by (auto simp: bused_def insert_absorb)
qed

lemma block_buf_recycled:
  assumes "one_buf s d" "block_buf s d n = None" "bufs t = (bufs s)(b := x)" "b < NBUF" "bdev x = d" "blockno x = n"
  shows "one_buf t d" "block_buf t d m = (if m = n then Some b else if block_buf s d m = Some b then None else block_buf s d m)"
proof -
  have h: "holds_block t d m c \<longleftrightarrow> (if c = b then m = n else holds_block s d m c)" for m c
    using assms(3-6) by (auto simp: holds_block_def)
  have nb: "\<not> holds_block s d n c" for c using assms(2) by (simp add: block_buf_None)
  show o: "one_buf t d" unfolding one_buf_def h using nb holds_block_unique [OF assms(1)] by auto
  show "block_buf t d m = (if m = n then Some b else if block_buf s d m = Some b then None else block_buf s d m)"
  proof (cases "m = n")
    case True
    then show ?thesis using block_buf_eq [OF o, of n b] by (simp add: h)
  next
    case False
    show ?thesis
    proof (cases "\<exists>c. c \<noteq> b \<and> holds_block s d m c")
      case True
      then obtain c where c: "c \<noteq> b" "holds_block s d m c" by blast
      then show ?thesis using False block_buf_eq [OF o, of m c] block_buf_eq [OF assms(1) c(2)] by (simp add: h)
    next
      case no: False
      then have "block_buf t d m = None" using False by (auto simp: block_buf_None h)
      moreover have "block_buf s d m = Some b \<or> block_buf s d m = None"
        using block_buf_Some [of s d m] no by (cases "block_buf s d m") auto
      ultimately show ?thesis using False by auto
    qed
  qed
qed

lemma cache_ctx:
  assumes "cache_inv s L d" "lru t L'" "vdisk_ok t" "untouched s t" "\<And>b. b < NBUF \<Longrightarrow> buf_ok t d b" "one_buf t d"
  shows "cache_inv t L' d"
proof -
  have l: "lock_ctx s t" using assms(4) by (simp add: untouched_def)
  show ?thesis using assms lock_ctx_free [OF l] cproc_ctx [OF l] by (auto simp: cache_inv_def)
qed

text \<open>What changes for a client when a block is read: the block is held and has one more reference.\<close>

definition bread_post :: "nat \<Rightarrow> u32 \<Rightarrow> u32 \<Rightarrow> 'a vdisk_scheme \<Rightarrow> 'a vdisk_scheme \<Rightarrow> bool" where
  "bread_post b d n s t \<longleftrightarrow> holds_block t d n b \<and> bdata (bufs t b) = bview s d n \<and> bview t d = bview s d \<and>
     brefs t d = (brefs s d)(n := brefs s d n + 1) \<and> bheld t d = (bheld s d)(n := True) \<and>
     bused t = bused s + (if brefs s d n = 0 then 1 else 0) \<and> medium t = medium s \<and> written t = written s \<and>
     spid (sleeplocks t (L_buf b)) = mypid s \<and> (\<forall>l. l \<noteq> L_buf b \<longrightarrow> sleeplocks t l = sleeplocks s l) \<and>
     (\<forall>c. c \<noteq> b \<longrightarrow> bufs t c = bufs s c) \<and> untouched s t"

lemma bread_hit:
  fixes s t :: "'a vdisk_scheme"
  assumes "cache_inv s L d" "block_buf s d n = Some b" "brefs s d n + 1 < 2 ^ 32"
    and "untouched s t" "bufs t = (bufs s)(b := (bufs s b)\<lparr>refcnt := refcnt (bufs s b) + 1, valid := True, bdata := bview s d n\<rparr>)"
    and "sleeplocks t = (sleeplocks s)(L_buf b := locked_by i (sleeplocks s (L_buf b)))" "medium t = medium s" "vdisk_ok t"
  shows "cache_inv t L d" "bview t d = bview s d" "brefs t d = (brefs s d)(n := brefs s d n + 1)" "bheld t d = (bheld s d)(n := True)"
proof -
  have I: "lru s L" "one_buf s d" "\<And>b. b < NBUF \<Longrightarrow> buf_ok s d b" using assms(1) by (auto simp: cache_inv_def)
  have b: "holds_block s d n b" by (rule block_buf_Some [OF assms(2)])
  have h: "holds_block t d m c = holds_block s d m c" for m c using assms(5) by (auto simp: holds_block_def)
  note B = block_buf_same [OF I(2) h]
  have D: "dblk t = dblk s" by (rule dblk_medium) (simp add: assms(7))
  have r: "unat (refcnt (bufs s b)) + 1 < 2 ^ 32" using assms(2,3) by (simp add: brefs_def)
  then have u: "unat (refcnt (bufs s b) + 1) = unat (refcnt (bufs s b)) + 1" by (rule unat_inc)
  then have nz: "refcnt (bufs s b) + 1 \<noteq> 0" by (metis Suc_eq_plus1 nat.distinct(1) unat_0)
  have len: "length (bview s d n) = BSIZE" using I(3) [of b] b assms(2) by (auto simp: bview_def buf_ok_def dblk_def holds_block_def)
  have ok: "buf_ok t d c" if "c < NBUF" for c
    using I(3) [OF that] nz len b assms(5,6) by (cases "c = b") (auto simp: buf_ok_def D holds_block_def)
  have "lru t L" by (rule lru_cong [OF _ _ I(1)]) (simp_all add: assms(5))
  then show "cache_inv t L d" using cache_ctx [OF assms(1) _ assms(8,4) ok B(1)] by blast
  have ne: "block_buf s d m \<noteq> Some b" if "m \<noteq> n" for m using block_buf_Some [of s d m b] b that by (auto simp: holds_block_def)
  show "bview t d = bview s d"
  proof
    fix m
    show "bview t d m = bview s d m" unfolding bview_def B(2) D using assms(2,5) ne [of m]
      by (cases "m = n") (auto simp: bview_def split: option.splits)
  qed
  show "brefs t d = (brefs s d)(n := brefs s d n + 1)"
    using assms(2,5) ne u by (auto simp: brefs_def B(2) fun_eq_iff split: option.splits)
  show "bheld t d = (bheld s d)(n := True)"
    using assms(2,6) ne by (auto simp: bheld_def B(2) fun_eq_iff locked_by_def split: option.splits)
qed

lemma bread_miss:
  fixes s t :: "'a vdisk_scheme"
  assumes "cache_inv s L d" "block_buf s d n = None" "b < NBUF" "refcnt (bufs s b) = 0"
    and "untouched s t" "bufs t = (bufs s)(b := (bufs s b)\<lparr>bdev := d, blockno := n, refcnt := 1, valid := True, bdata := bview s d n\<rparr>)"
    and "sleeplocks t = (sleeplocks s)(L_buf b := locked_by i (sleeplocks s (L_buf b)))" "medium t = medium s" "vdisk_ok t"
  shows "cache_inv t L d" "bview t d = bview s d" "brefs t d = (brefs s d)(n := brefs s d n + 1)" "bheld t d = (bheld s d)(n := True)"
proof -
  have I: "lru s L" "one_buf s d" "\<And>b. b < NBUF \<Longrightarrow> buf_ok s d b" using assms(1) by (auto simp: cache_inv_def)
  have D: "dblk t = dblk s" by (rule dblk_medium) (simp add: assms(8))
  note B = block_buf_recycled [OF I(2) assms(2,6,3)]
  have v: "bview s d n = dblk s n" using assms(2) by (simp add: bview_def)
  have ok: "buf_ok t d c" if "c < NBUF" for c
    using I(3) [OF that] v assms(6,7) by (cases "c = b") (auto simp: buf_ok_def D dblk_def)
  have "lru t L" by (rule lru_cong [OF _ _ I(1)]) (simp_all add: assms(6))
  then show "cache_inv t L d" using cache_ctx [OF assms(1) _ assms(9,5) ok] B(1) by simp
  have old: "bview s d m = dblk s m" "brefs s d m = 0" "\<not> bheld s d m" if "block_buf s d m = Some b" for m
    using block_buf_Some [OF that] I(3) [OF assms(3)] assms(4) that
    by (auto simp: bview_def brefs_def bheld_def holds_block_def buf_ok_def)
  show "bview t d = bview s d"
  proof
    fix m
    have "bview t d m = (if m = n then bview s d n else if block_buf s d m = Some b then dblk s m else bview s d m)"
      unfolding bview_def B(2) [simplified] D using assms(6) by (auto simp: bview_def split: option.splits)
    then show "bview t d m = bview s d m" using old(1) [of m] by simp
  qed
  show "brefs t d = (brefs s d)(n := brefs s d n + 1)"
  proof
    fix m
    have "brefs t d m = (if m = n then 1 else if block_buf s d m = Some b then 0 else brefs s d m)"
      unfolding brefs_def B(2) [simplified] using assms(6) by (auto split: option.splits)
    then show "brefs t d m = ((brefs s d)(n := brefs s d n + 1)) m" using old(2) [of m] assms(2) by (simp add: brefs_def)
  qed
  show "bheld t d = (bheld s d)(n := True)"
  proof
    fix m
    have "bheld t d m = (if m = n then True else if block_buf s d m = Some b then False else bheld s d m)"
      unfolding bheld_def B(2) [simplified] using assms(7) by (auto simp: locked_by_def split: option.splits)
    then show "bheld t d m = ((bheld s d)(n := True)) m" using old(3) [of m] by simp
  qed
qed

lemma bread_law:
  fixes s :: "'a vdisk_scheme"
  assumes "cache_inv s L d" "\<not> bheld s d n" "brefs s d n \<noteq> 0 \<or> bused s < NBUF" "unat n < 2 ^ 31" "brefs s d n + 1 < 2 ^ 32"
  obtains b t where "bread d n s = Ok (b, t)" "cache_inv t L d" "bread_post b d n s t"
proof -
  obtain b t x where r: "bread d n s = Ok (b, t)" and g: "got L d n b s x" and b: "b < NBUF" and U: "untouched s t"
    and B: "bufs t = (bufs s)(b := x\<lparr>valid := True, bdata := bview s d n\<rparr>)"
    and S: "sleeplocks t = (sleeplocks s)(L_buf b := locked_by (mypid s) (sleeplocks s (L_buf b)))"
    and M: "medium t = medium s" "written t = written s" and V: "vdisk_ok t"
    by (rule bread_run [OF assms(1-4)])
  have L: "spid (sleeplocks t (L_buf b)) = mypid s" "\<forall>l. l \<noteq> L_buf b \<longrightarrow> sleeplocks t l = sleeplocks s l" "\<forall>c. c \<noteq> b \<longrightarrow> bufs t c = bufs s c"
    using S B by (simp_all add: locked_by_def)
  show ?thesis
  proof (cases "block_buf s d n")
    case (Some a)
    then have a: "a = b" "x = (bufs s b)\<lparr>refcnt := refcnt (bufs s b) + 1\<rparr>" using g by (auto simp: got_def)
    note H = bread_hit [OF assms(1) Some [unfolded a(1)] assms(5) U _ S M(1) V]
    have Bu: "bufs t = (bufs s)(b := (bufs s b)\<lparr>refcnt := refcnt (bufs s b) + 1, valid := True, bdata := bview s d n\<rparr>)"
      using B by (simp add: a(2))
    have h: "holds_block t d n b" using block_buf_Some [OF Some] Bu a by (auto simp: holds_block_def)
    have "refcnt (bufs s b) + 1 \<noteq> 0" using unat_inc [of "refcnt (bufs s b)"] Some assms(5) a(1)
      by (simp add: brefs_def) (metis nat.distinct(1) unat_0)
    then have "bused t = bused s + (if refcnt (bufs s b) = 0 then 1 else 0)" by (intro bused_insert [OF B b]) (simp add: a(2))
    then have "bused t = bused s + (if brefs s d n = 0 then 1 else 0)" using Some a(1) by (simp add: brefs_def unat_eq_0)
    then show ?thesis using that [OF r H(1) [OF Bu]] H(2-) [OF Bu] h L M U by (simp add: bread_post_def B)
  next
    case None
    then have a: "refcnt (bufs s b) = 0" "x = (bufs s b)\<lparr>bdev := d, blockno := n, valid := False, refcnt := 1\<rparr>"
      using g by (auto simp: got_def find_Some_iff)
    have Bu: "bufs t = (bufs s)(b := (bufs s b)\<lparr>bdev := d, blockno := n, refcnt := 1, valid := True, bdata := bview s d n\<rparr>)"
      using B by (simp add: a(2))
    note H = bread_miss [OF assms(1) None b a(1) U Bu S M(1) V]
    have h: "holds_block t d n b" using b Bu by (simp add: holds_block_def)
    have "bused t = bused s + 1" using bused_insert [OF B b] a by simp
    moreover have "brefs s d n = 0" using None by (simp add: brefs_def)
    ultimately show ?thesis using that [OF r H(1)] H(2-) h L M U by (simp add: bread_post_def B)
  qed
qed

section \<open>Writing and releasing a buffer\<close>

definition mine :: "'a bcache_scheme \<Rightarrow> u32 \<Rightarrow> u32 \<Rightarrow> nat \<Rightarrow> bool" where
  "mine s d n b \<longleftrightarrow> holds_block s d n b \<and> slocked (sleeplocks s (L_buf b)) \<and> spid (sleeplocks s (L_buf b)) = mypid s"

lemma mine_facts:
  assumes "cache_inv s L d" "mine s d n b"
  shows "b < NBUF" "block_buf s d n = Some b" "buf_ok s d b" "refcnt (bufs s b) \<noteq> 0" "valid (bufs s b)" "bview s d n = bdata (bufs s b)"
    "holdingsleep (L_buf b) s = Ok (True, masked_once s)" "blockno (bufs s b) = n" "length (bdata (bufs s b)) = BSIZE" "\<not> disk (bufs s b)"
proof -
  show b: "b < NBUF" and B: "block_buf s d n = Some b" and o: "buf_ok s d b" and n: "blockno (bufs s b) = n"
    using assms block_buf_eq [of s d n b] by (auto simp: mine_def cache_inv_def holds_block_def)
  show r: "refcnt (bufs s b) \<noteq> 0" and v: "valid (bufs s b)" and "length (bdata (bufs s b)) = BSIZE" "\<not> disk (bufs s b)"
    using o assms(2) by (auto simp: buf_ok_def mine_def)
  show "bview s d n = bdata (bufs s b)" using B v by (simp add: bview_def)
  obtain p where p: "cproc (mycpu s) = Some p" using assms(1) by (auto simp: cache_inv_def)
  then show "holdingsleep (L_buf b) s = Ok (True, masked_once s)"
    using holdingsleep_run [of s "L_buf b" p] assms b by (simp add: cache_inv_def vdisk_ok_def mine_def mypid_def)
qed

lemma vdisk_ok_ctx: "lock_ctx s t \<Longrightarrow> dfree t = dfree s \<Longrightarrow> dev_idx t = dev_idx s \<Longrightarrow> avail_idx t = avail_idx s \<Longrightarrow>
   used_idx t = used_idx s \<Longrightarrow> dused_idx t = dused_idx s \<Longrightarrow> vdisk_ok t = vdisk_ok s"
  by (simp add: vdisk_ok_def lock_ctx_cpu_ok lock_ctx_free)

lemma untouched_masked [simp]: "untouched s (masked_once s)"
  using kept_masked [OF kept_refl, of s] by (simp add: kept_def)

lemma vdisk_ok_masked [simp]: "vdisk_ok (masked_once s) = vdisk_ok s"
  by (rule vdisk_ok_ctx) simp_all

lemma dblk_write:
  assumes "medium t = write_medium (medium s) (unat n * BSIZE) bs" "length bs = BSIZE"
  shows "dblk t = (dblk s)(n := bs)"
proof
  fix m
  show "dblk t m = ((dblk s)(n := bs)) m"
  proof (cases "m = n")
    case True
    then show ?thesis using assms read_write_medium [of "medium s" "unat n * BSIZE" bs] by (simp add: dblk_def)
  next
    case False
    then have "unat m < unat n \<or> unat n < unat m" by (metis linorder_neqE_nat unsigned_word_eqI)
    then have "unat m * BSIZE + BSIZE \<le> unat n * BSIZE \<or> unat n * BSIZE + length bs \<le> unat m * BSIZE"
      using mult_le_mono1 [of "unat m + 1" "unat n" BSIZE] mult_le_mono1 [of "unat n + 1" "unat m" BSIZE] assms(2) by auto
    then show ?thesis using False read_write_other assms(1) by (simp add: dblk_def)
  qed
qed

lemma bwrite_law:
  fixes s :: "'a vdisk_scheme"
  assumes "cache_inv s L d" "mine s d n b" "unat n < 2 ^ 31"
  obtains t where "bwrite b s = Ok t" "cache_inv t L d" "untouched s t" "bufs t = bufs s" "sleeplocks t = sleeplocks s"
    "dblk t = (dblk s)(n := bview s d n)" "written t = written s @ [(unat n, bview s d n)]" "bview t d = bview s d"
proof -
  note F = mine_facts [OF assms(1,2)]
  have I: "vdisk_ok s" "lru s L" "one_buf s d" "\<And>b. b < NBUF \<Longrightarrow> buf_ok s d b" using assms(1) by (auto simp: cache_inv_def)
  obtain t where t: "virtio_disk_rw b True (masked_once s) = Ok t" "transferred b True (masked_once s) t" "vdisk_ok t"
    by (rule virtio_disk_rw_run [of "masked_once s" b True]) (use I(1) F(9) in simp_all)
  have w: "bwrite b s = Ok t" using F(7) t(1) by (simp add: bwrite_def)
  have U: "untouched s t" by (rule untouched_trans [OF untouched_masked]) (use t(2) in \<open>simp add: transferred_def kept_def\<close>)
  have B: "bufs t = bufs s" using t(2) F(10) by (simp add: transferred_def fun_eq_iff)
  have S: "sleeplocks t = sleeplocks s" using t(2) by (simp add: transferred_def kept_def)
  have M: "medium t = write_medium (medium s) (unat n * BSIZE) (bview s d n)" "written t = written s @ [(unat n, bview s d n)]"
    using t(2) F(6,8) assms(3) by (simp_all add: transferred_def block_at_eq BSIZE_def)
  have D: "dblk t = (dblk s)(n := bview s d n)" by (rule dblk_write [OF M(1)]) (simp add: F(6,9))
  have h: "holds_block t d m c = holds_block s d m c" for m c by (simp add: holds_block_def B)
  note O = block_buf_same [OF I(3) h]
  have ok: "buf_ok t d c" if "c < NBUF" for c
  proof -
    have "c = b" if "bdev (bufs s c) = d" "blockno (bufs s c) = n"
      using holds_block_unique [OF I(3), of n c b] assms(2) that \<open>c < NBUF\<close> by (auto simp: mine_def holds_block_def)
    then show ?thesis using I(4) [OF that] F(4) by (auto simp: buf_ok_def B S D)
  qed
  have "cache_inv t L d" by (rule cache_ctx [OF assms(1) _ t(3) U ok O(1)]) (use I(2) B in \<open>auto simp: lru_def\<close>)
  moreover have "bview t d = bview s d"
  proof
    fix m
    show "bview t d m = bview s d m" using F(2,5,6) by (auto simp: bview_def O(2) B D split: option.splits)
  qed
  ultimately show ?thesis using that w U B S D M(2) by blast
qed

text \<open>The client changes the contents of a buffer it holds.\<close>

definition put_data :: "nat \<Rightarrow> u8 list \<Rightarrow> 'a bcache_scheme \<Rightarrow> 'a bcache_scheme" where
  "put_data b v = set_buf b (\<lambda>x. x\<lparr>bdata := v\<rparr>)"

lemma put_data_law:
  fixes s :: "'a vdisk_scheme"
  assumes "cache_inv s L d" "mine s d n b" "length v = BSIZE"
  shows "cache_inv (put_data b v s) L d" "mine (put_data b v s) d n b" "bview (put_data b v s) d = (bview s d)(n := v)"
    "brefs (put_data b v s) d = brefs s d" "bheld (put_data b v s) d = bheld s d" "bused (put_data b v s) = bused s"
    "dblk (put_data b v s) = dblk s" "written (put_data b v s) = written s" "untouched s (put_data b v s)"
proof -
  let ?t = "put_data b v s"
  note F = mine_facts [OF assms(1,2)]
  have I: "vdisk_ok s" "lru s L" "one_buf s d" "\<And>b. b < NBUF \<Longrightarrow> buf_ok s d b" using assms(1) by (auto simp: cache_inv_def)
  have B: "bufs ?t = (bufs s)(b := (bufs s b)\<lparr>bdata := v\<rparr>)" by (simp add: put_data_def)
  have S: "sleeplocks ?t = sleeplocks s" "lock_ctx s ?t" by (simp_all add: put_data_def set_buf_def lock_ctx_def)
  show D: "dblk ?t = dblk s" by (rule dblk_medium) (simp add: put_data_def set_buf_def)
  show U: "untouched s ?t" "written ?t = written s" by (simp_all add: untouched_def lock_ctx_def put_data_def set_buf_def)
  have h: "holds_block ?t d m c = holds_block s d m c" for m c by (simp add: holds_block_def B)
  note O = block_buf_same [OF I(3) h]
  have ok: "buf_ok ?t d c" if "c < NBUF" for c
    using I(4) [OF that] F(4,5) assms(3) by (cases "c = b") (auto simp: buf_ok_def B S(1) D)
  have V: "vdisk_ok ?t" using I(1) by (subst vdisk_ok_ctx [OF S(2)]) (simp_all add: put_data_def set_buf_def)
  have Lr: "lru ?t L" by (rule lru_cong [OF _ _ I(2)]) (simp_all add: B)
  show "cache_inv ?t L d" by (rule cache_ctx [OF assms(1) Lr V U(1) ok O(1)])
  show "mine ?t d n b" using assms(2) h S cproc_ctx [OF S(2)] by (simp add: mine_def mypid_def put_data_def set_buf_def)
  have ne: "block_buf s d m \<noteq> Some b" if "m \<noteq> n" for m using block_buf_Some [of s d m b] F(8) that by (auto simp: holds_block_def)
  show "bview ?t d = (bview s d)(n := v)"
    using ne F(2,5) by (auto simp: bview_def O(2) B D fun_eq_iff split: option.splits)
  show "brefs ?t d = brefs s d" "bheld ?t d = bheld s d" "bused ?t = bused s"
    by (auto simp: brefs_def bheld_def bused_def O(2) B S(1) fun_eq_iff split: option.splits intro!: arg_cong [where f = card])
qed

text \<open>Two states of the buffers that differ in the links only.\<close>

definition same_but_links :: "(nat \<Rightarrow> buf) \<Rightarrow> (nat \<Rightarrow> buf) \<Rightarrow> bool" where
  "same_but_links g h \<longleftrightarrow> (\<forall>c. bdev (h c) = bdev (g c) \<and> blockno (h c) = blockno (g c) \<and> valid (h c) = valid (g c) \<and>
     refcnt (h c) = refcnt (g c) \<and> disk (h c) = disk (g c) \<and> bdata (h c) = bdata (g c))"

lemma same_but_links_refl [simp]: "same_but_links g g"
  by (simp add: same_but_links_def)

definition link_next :: "((nat \<Rightarrow> buf) \<Rightarrow> nat) \<Rightarrow> ((nat \<Rightarrow> buf) \<Rightarrow> nat) \<Rightarrow> 'a bcache_scheme \<Rightarrow> 'a bcache_scheme" where
  "link_next i x s = bnext_to (i (bufs s)) (x (bufs s)) s"

definition link_prev :: "((nat \<Rightarrow> buf) \<Rightarrow> nat) \<Rightarrow> ((nat \<Rightarrow> buf) \<Rightarrow> nat) \<Rightarrow> 'a bcache_scheme \<Rightarrow> 'a bcache_scheme" where
  "link_prev i x s = bprev_to (i (bufs s)) (x (bufs s)) s"

lemma bmove_front_links:
  "bmove_front b s = link_next (\<lambda>g. NBUF) (\<lambda>g. b) (link_prev (\<lambda>g. bnext (g NBUF)) (\<lambda>g. b) (link_prev (\<lambda>g. b) (\<lambda>g. NBUF)
     (link_next (\<lambda>g. b) (\<lambda>g. bnext (g NBUF)) (link_next (\<lambda>g. bprev (g b)) (\<lambda>g. bnext (g b))
       (link_prev (\<lambda>g. bnext (g b)) (\<lambda>g. bprev (g b)) s)))))"
  by (simp only: bmove_front_def link_next_def link_prev_def Let_def)

lemma link_frame:
  "tp (link_next i x s) = tp s" "tp (link_prev i x s) = tp s"
  "link_next i x (s\<lparr>cpus := c, locks := k\<rparr>) = (link_next i x s)\<lparr>cpus := c, locks := k\<rparr>"
  "link_prev i x (s\<lparr>cpus := c, locks := k\<rparr>) = (link_prev i x s)\<lparr>cpus := c, locks := k\<rparr>"
  by (simp_all add: link_next_def link_prev_def bnext_to_def bprev_to_def set_buf_eq)

lemma link_same:
  "same_but_links g (bufs s) \<Longrightarrow> same_but_links g (bufs (link_next i x s))" "same_but_links g (bufs s) \<Longrightarrow> same_but_links g (bufs (link_prev i x s))"
  by (simp_all add: same_but_links_def link_next_def link_prev_def bnext_to_def bprev_to_def)

definition count_refs :: "nat \<Rightarrow> u32 \<Rightarrow> (nat \<Rightarrow> buf) \<Rightarrow> nat \<Rightarrow> buf" where
  "count_refs b r g = g(b := (g b)\<lparr>refcnt := r\<rparr>)"

text \<open>The client's view when the references of one buffer change.\<close>

lemma recount:
  fixes s t :: "'a vdisk_scheme"
  assumes "cache_inv s L d" "block_buf s d n = Some b" "same_but_links (count_refs b r (bufs s)) (bufs t)" "lru t L'"
    and "untouched s t" "vdisk_ok t" "medium t = medium s" "\<forall>c. c \<noteq> L_buf b \<longrightarrow> sleeplocks t c = sleeplocks s c"
    and "slocked (sleeplocks t (L_buf b)) \<Longrightarrow> r \<noteq> 0" "r = 0 \<Longrightarrow> bview s d n = dblk s n" "r \<noteq> 0 \<Longrightarrow> valid (bufs s b)"
  shows "cache_inv t L' d" "bview t d = bview s d" "brefs t d = (brefs s d)(n := unat r)"
    "bheld t d = (bheld s d)(n := slocked (sleeplocks t (L_buf b)))"
proof -
  have I: "one_buf s d" "\<And>b. b < NBUF \<Longrightarrow> buf_ok s d b" using assms(1) by (auto simp: cache_inv_def)
  have b: "holds_block s d n b" by (rule block_buf_Some [OF assms(2)])
  have B: "\<And>c. bdev (bufs t c) = bdev (bufs s c)" "\<And>c. blockno (bufs t c) = blockno (bufs s c)" "\<And>c. valid (bufs t c) = valid (bufs s c)"
    "\<And>c. disk (bufs t c) = disk (bufs s c)" "\<And>c. bdata (bufs t c) = bdata (bufs s c)"
    "\<And>c. refcnt (bufs t c) = (if c = b then r else refcnt (bufs s c))"
    using assms(3) by (auto simp: same_but_links_def count_refs_def)
  have h: "holds_block t d m c = holds_block s d m c" for m c by (simp add: holds_block_def B)
  note O = block_buf_same [OF I(1) h]
  have D: "dblk t = dblk s" by (rule dblk_medium) (simp add: assms(7))
  have ne: "block_buf s d m \<noteq> Some b" if "m \<noteq> n" for m using block_buf_Some [of s d m b] b that by (auto simp: holds_block_def)
  have nb: "bdev (bufs s b) = d" "blockno (bufs s b) = n" using b by (simp_all add: holds_block_def)
  have ok: "buf_ok t d c" if "c < NBUF" for c
  proof (cases "c = b")
    case True
    then show ?thesis using I(2) [OF that] assms(2,9-11) nb by (auto simp: buf_ok_def B D bview_def)
  next
    case False
    then show ?thesis using I(2) [OF that] assms(8) by (auto simp: buf_ok_def B D)
  qed
  show "cache_inv t L' d" by (rule cache_ctx [OF assms(1,4,6,5) ok O(1)])
  show "bview t d = bview s d" by (auto simp: bview_def O(2) B D fun_eq_iff split: option.splits)
  show "brefs t d = (brefs s d)(n := unat r)" using ne assms(2) by (auto simp: brefs_def O(2) B fun_eq_iff split: option.splits)
  show "bheld t d = (bheld s d)(n := slocked (sleeplocks t (L_buf b)))"
  proof
    fix m
    show "bheld t d m = ((bheld s d)(n := slocked (sleeplocks t (L_buf b)))) m"
    proof (cases "block_buf s d m")
      case (Some c)
      then have "m \<noteq> n \<Longrightarrow> L_buf c \<noteq> L_buf b" using ne [of m] by auto
      then show ?thesis using Some assms(2,8) by (auto simp: bheld_def O(2))
    qed (use assms(2) in \<open>auto simp: bheld_def O(2)\<close>)
  qed
qed

lemma bused_recount:
  assumes "same_but_links (count_refs b r (bufs s)) (bufs t)" "b < NBUF" "refcnt (bufs s b) \<noteq> 0"
  shows "bused t = (if r = 0 then bused s - 1 else bused s)"
proof -
  have "refcnt (bufs t c) = (if c = b then r else refcnt (bufs s c))" for c
    using assms(1) by (auto simp: same_but_links_def count_refs_def)
  then have "{c. c < NBUF \<and> refcnt (bufs t c) \<noteq> 0} = (if r = 0 then {c. c < NBUF \<and> refcnt (bufs s c) \<noteq> 0} - {b} else {c. c < NBUF \<and> refcnt (bufs s c) \<noteq> 0})"
    using assms(2,3) by auto
  then show ?thesis using assms(2,3) by (simp add: bused_def)
qed

lemma pin_law:
  fixes s :: "'a vdisk_scheme"
  assumes "cache_inv s L d" "mine s d n b" "g (refcnt (bufs s b)) \<noteq> 0" "t = set_buf b (\<lambda>x. x\<lparr>refcnt := g (refcnt x)\<rparr>) (masked_once s)"
  shows "cache_inv t L d" "untouched s t" "mine t d n b" "sleeplocks t = sleeplocks s" "bview t d = bview s d"
    "brefs t d = (brefs s d)(n := unat (g (refcnt (bufs s b))))" "bheld t d = bheld s d" "bused t = bused s" "medium t = medium s" "written t = written s"
proof -
  note F = mine_facts [OF assms(1,2)]
  have I: "vdisk_ok s" "lru s L" using assms(1) by (auto simp: cache_inv_def)
  let ?r = "g (refcnt (bufs s b))"
  have B: "same_but_links (count_refs b ?r (bufs s)) (bufs t)" by (simp add: assms(4) same_but_links_def count_refs_def)
  have l: "lock_ctx s t" by (simp add: assms(4) lock_ctx_def set_buf_def)
  show U: "untouched s t" using untouched_masked [of s] l by (simp add: assms(4) untouched_def set_buf_def)
  have V: "vdisk_ok t" using I(1) by (subst vdisk_ok_ctx [OF l]) (simp_all add: assms(4) set_buf_def)
  have Lr: "lru t L" by (rule lru_cong [OF _ _ I(2)]) (simp_all add: assms(4))
  show S: "sleeplocks t = sleeplocks s" "medium t = medium s" "written t = written s" by (simp_all add: assms(4) set_buf_def)
  note R = recount [OF assms(1) F(2) B Lr U V S(2)]
  show "cache_inv t L d" "bview t d = bview s d" "brefs t d = (brefs s d)(n := unat ?r)" by (rule R; simp add: S assms(3) F(5))+
  have "bheld t d = (bheld s d)(n := slocked (sleeplocks t (L_buf b)))" by (rule R) (simp_all add: S assms(3) F(5))
  then show "bheld t d = bheld s d" using assms(2) F(2) by (auto simp: S mine_def bheld_def fun_eq_iff)
  show "mine t d n b" using assms(2) cproc_ctx [OF l] by (simp add: mine_def holds_block_def S mypid_def) (simp add: assms(4) set_buf_def)
  show "bused t = bused s" using bused_recount [OF B F(1,4)] assms(3) by simp
qed

lemma pin_run:
  assumes "cache_inv s L d"
  shows "bpin b s = Ok (set_buf b (\<lambda>x. x\<lparr>refcnt := refcnt x + 1\<rparr>) (masked_once s))"
    "bunpin b s = Ok (set_buf b (\<lambda>x. x\<lparr>refcnt := refcnt x - 1\<rparr>) (masked_once s))"
  using assms by (simp_all add: cache_inv_def vdisk_ok_def bpin_def bunpin_def acquire_free buf_section)

lemma pin_refs:
  assumes "cache_inv s L d" "mine s d n b"
  shows "brefs s d n + 1 < 2 ^ 32 \<Longrightarrow> unat (refcnt (bufs s b) + 1) = brefs s d n + 1 \<and> refcnt (bufs s b) + 1 \<noteq> 0"
    "brefs s d n > 1 \<Longrightarrow> unat (refcnt (bufs s b) - 1) = brefs s d n - 1 \<and> refcnt (bufs s b) - 1 \<noteq> 0"
    "unat (refcnt (bufs s b) - 1) = brefs s d n - 1"
proof -
  note F = mine_facts [OF assms]
  have n: "brefs s d n = unat (refcnt (bufs s b))" using F(2) by (simp add: brefs_def)
  show "unat (refcnt (bufs s b) + 1) = brefs s d n + 1 \<and> refcnt (bufs s b) + 1 \<noteq> 0" if "brefs s d n + 1 < 2 ^ 32"
    using unat_inc [of "refcnt (bufs s b)"] that n by (metis Suc_eq_plus1 nat.distinct(1) unat_0)
  show u: "unat (refcnt (bufs s b) - 1) = brefs s d n - 1" using unat_minus_one [OF F(4)] n by simp
  show "unat (refcnt (bufs s b) - 1) = brefs s d n - 1 \<and> refcnt (bufs s b) - 1 \<noteq> 0" if "brefs s d n > 1"
    using u that by (metis less_irrefl unat_0 zero_less_diff)
qed

lemma bpin_law:
  fixes s :: "'a vdisk_scheme"
  assumes "cache_inv s L d" "mine s d n b" "brefs s d n + 1 < 2 ^ 32"
  obtains t where "bpin b s = Ok t" "cache_inv t L d" "untouched s t" "mine t d n b" "sleeplocks t = sleeplocks s" "bview t d = bview s d"
    "brefs t d = (brefs s d)(n := brefs s d n + 1)" "bheld t d = bheld s d" "bused t = bused s" "medium t = medium s" "written t = written s"
  using that [OF pin_run(1) [OF assms(1)]] pin_law [OF assms(1,2) _ refl, of "\<lambda>r. r + 1"] pin_refs(1) [OF assms] by simp

lemma bunpin_law:
  fixes s :: "'a vdisk_scheme"
  assumes "cache_inv s L d" "mine s d n b" "brefs s d n > 1"
  obtains t where "bunpin b s = Ok t" "cache_inv t L d" "untouched s t" "mine t d n b" "sleeplocks t = sleeplocks s" "bview t d = bview s d"
    "brefs t d = (brefs s d)(n := brefs s d n - 1)" "bheld t d = bheld s d" "bused t = bused s" "medium t = medium s" "written t = written s"
  using that [OF pin_run(2) [OF assms(1)]] pin_law [OF assms(1,2) _ refl, of "\<lambda>r. r - 1"] pin_refs(2) [OF assms] by simp

text \<open>A buffer that nobody else uses may be released only when its contents are on the medium.\<close>

definition drop_buf :: "nat \<Rightarrow> 'a bcache_scheme \<Rightarrow> 'a bcache_scheme" where
  "drop_buf b s = (let t = set_buf b (\<lambda>x. x\<lparr>refcnt := refcnt x - 1\<rparr>) s in if refcnt (bufs t b) = 0 then bmove_front b t else t)"

lemma drop_buf_eq:
  "drop_buf b s = (if refcnt (bufs s b) - 1 = 0 then bmove_front b (set_buf b (\<lambda>x. x\<lparr>refcnt := refcnt x - 1\<rparr>) s)
     else set_buf b (\<lambda>x. x\<lparr>refcnt := refcnt x - 1\<rparr>) s)"
  by (simp add: drop_buf_def)

lemma bmove_front_frame:
  "tp (bmove_front b s) = tp s" "bmove_front b (s\<lparr>cpus := c, locks := k\<rparr>) = (bmove_front b s)\<lparr>cpus := c, locks := k\<rparr>"
  by (simp_all only: bmove_front_links link_frame)

lemma bufs_of_link:
  "\<exists>g. link_next i x (t\<lparr>bufs := h\<rparr>) = t\<lparr>bufs := g\<rparr>" "\<exists>g. link_prev i x (t\<lparr>bufs := h\<rparr>) = t\<lparr>bufs := g\<rparr>"
  by (simp_all add: link_next_def link_prev_def bnext_to_def bprev_to_def set_buf_eq) blast+

lemma bufs_of_links:
  assumes "\<exists>g. u = t\<lparr>bufs := g\<rparr>"
  shows "\<exists>g. link_next i x u = t\<lparr>bufs := g\<rparr>" "\<exists>g. link_prev i x u = t\<lparr>bufs := g\<rparr>"
proof -
  obtain h where u: "u = t\<lparr>bufs := h\<rparr>" using assms by blast
  show "\<exists>g. link_next i x u = t\<lparr>bufs := g\<rparr>" "\<exists>g. link_prev i x u = t\<lparr>bufs := g\<rparr>" unfolding u by (rule bufs_of_link)+
qed

lemma bmove_front_bufs: "\<exists>g. bmove_front b s = s\<lparr>bufs := g\<rparr>"
  unfolding bmove_front_links by (intro bufs_of_links exI [of _ "bufs s"]) simp

lemma bmove_front_same: "same_but_links (bufs s) (bufs (bmove_front b s))"
  unfolding bmove_front_links by (intro link_same) (simp add: same_but_links_def)

lemma drop_buf_frame:
  "tp (drop_buf b s) = tp s" "drop_buf b (s\<lparr>cpus := c, locks := k\<rparr>) = (drop_buf b s)\<lparr>cpus := c, locks := k\<rparr>"
proof -
  have "tp (set_buf b h s) = tp s" "set_buf b h (s\<lparr>cpus := c, locks := k\<rparr>) = (set_buf b h s)\<lparr>cpus := c, locks := k\<rparr>"
    "bufs (s\<lparr>cpus := c, locks := k\<rparr>) = bufs s" for h
    by (simp_all add: set_buf_eq)
  then show "tp (drop_buf b s) = tp s" "drop_buf b (s\<lparr>cpus := c, locks := k\<rparr>) = (drop_buf b s)\<lparr>cpus := c, locks := k\<rparr>"
    by (simp_all only: drop_buf_eq bmove_front_frame if_distrib [of tp] if_cancel split: if_splits) simp
qed

lemma drop_buf_bufs: "\<exists>g. drop_buf b s = s\<lparr>bufs := g\<rparr>"
proof -
  obtain g where "bmove_front b (set_buf b (\<lambda>x. x\<lparr>refcnt := refcnt x - 1\<rparr>) s) = (set_buf b (\<lambda>x. x\<lparr>refcnt := refcnt x - 1\<rparr>) s)\<lparr>bufs := g\<rparr>"
    using bmove_front_bufs by blast
  then show ?thesis by (auto simp: drop_buf_eq set_buf_eq)
qed

lemma drop_buf_post:
  assumes "lru s L" "b < NBUF"
  shows "same_but_links (count_refs b (refcnt (bufs s b) - 1) (bufs s)) (bufs (drop_buf b s))"
    "lru (drop_buf b s) (if refcnt (bufs s b) = 1 then b # removeAll b L else L)"
proof -
  let ?t = "set_buf b (\<lambda>x. x\<lparr>refcnt := refcnt x - 1\<rparr>) s"
  have t: "bufs ?t = count_refs b (refcnt (bufs s b) - 1) (bufs s)" by (simp add: count_refs_def)
  have "lru ?t L" by (rule lru_cong [OF _ _ assms(1)]) simp_all
  then have "lru (bmove_front b ?t) (b # removeAll b L)" "lru ?t L" using bmove_front_lru assms(2) by blast+
  then show "lru (drop_buf b s) (if refcnt (bufs s b) = 1 then b # removeAll b L else L)" by (simp add: drop_buf_eq)
  show "same_but_links (count_refs b (refcnt (bufs s b) - 1) (bufs s)) (bufs (drop_buf b s))"
    using bmove_front_same [of ?t b] unfolding drop_buf_eq t
    by (simp only: t same_but_links_refl split: if_split) blast
qed

lemma brelse_eq:
  "brelse b s = bind_res (holdingsleep (L_buf b) s) (\<lambda>(h, s). if \<not> h then Panic ''brelse''
     else bind_res (releasesleep (L_buf b) s) (\<lambda>s. bind_res (acquire L_bcache s) (\<lambda>s. release L_bcache (drop_buf b s))))"
  by (simp only: brelse_def drop_buf_def Let_def)

lemma brelse_run:
  fixes s :: "'a vdisk_scheme"
  assumes "cache_inv s L d" "mine s d n b"
  obtains t where "brelse b s = Ok t" "untouched s t" "vdisk_ok t" "same_but_links (count_refs b (refcnt (bufs s b) - 1) (bufs s)) (bufs t)"
    "lru t (if refcnt (bufs s b) = 1 then b # removeAll b L else L)"
    "sleeplocks t = (sleeplocks s)(L_buf b := (sleeplocks s (L_buf b))\<lparr>slocked := False, spid := 0\<rparr>)" "medium t = medium s" "written t = written s"
proof -
  note F = mine_facts [OF assms]
  have I: "vdisk_ok s" "lru s L" "lock_free L_bcache s" "lock_free (L_buf b) s" "hart_ok s"
    using assms(1) F(1) by (auto simp: cache_inv_def vdisk_ok_def hart_ok_def)
  have hm: "hart_ok (masked_once s)" "lock_free (L_buf b) (masked_once s)"
    using I(4,5) lock_ctx_hart [of s "masked_once s"] lock_ctx_free [of s "masked_once s"] by simp_all
  obtain ps where r: "releasesleep (L_buf b) (masked_once s) = Ok ((set_sleeplock (L_buf b) (\<lambda>k. k\<lparr>slocked := False, spid := 0\<rparr>) (masked_once (masked_once s)))\<lparr>procs := ps\<rparr>)"
      (is "_ = Ok ?u") and w: "woke (procs (masked_once s)) ps"
    by (rule releasesleep_run [OF hm]) simp
  define u where "u = ?u"
  have l: "lock_ctx s u" by (simp add: lock_ctx_def set_sleeplock_def u_def)
  have u: "lock_free L_bcache u" "cpu_ok u" using I(1,3) lock_ctx_free [OF l] lock_ctx_cpu_ok [OF l] by (simp_all add: vdisk_ok_def)
  have uu: "untouched s u" using l untouched_masked [of s] w
    by (simp add: untouched_def u_def set_sleeplock_def)
  have ub: "bufs u = bufs s" "medium u = medium s" "written u = written s"
    "sleeplocks u = (sleeplocks s)(L_buf b := (sleeplocks s (L_buf b))\<lparr>slocked := False, spid := 0\<rparr>)"
    by (simp_all add: u_def set_sleeplock_def)
  have vu: "vdisk_ok u" using I(1) by (subst vdisk_ok_ctx [OF l]) (simp_all add: u_def set_sleeplock_def)
  let ?t = "drop_buf b (masked_once u)"
  obtain g where g: "?t = (masked_once u)\<lparr>bufs := g\<rparr>" using drop_buf_bufs by blast
  have "release L_bcache (drop_buf b (enter_state L_bcache u)) = Ok ?t"
    by (rule critical_section [OF u]) (rule drop_buf_frame)+
  moreover have "releasesleep (L_buf b) (masked_once s) = Ok u" unfolding u_def by (rule r)
  ultimately have "brelse b s = Ok ?t" using F(7) by (simp add: brelse_eq acquire_free [OF u(1)])
  moreover have lt: "lock_ctx u ?t" unfolding g by (simp add: lock_ctx_def)
  moreover have "untouched s ?t"
    by (rule untouched_trans [OF uu]) (use untouched_masked [of u] lt in \<open>simp add: g untouched_def\<close>)
  moreover have "vdisk_ok ?t" using vu by (subst vdisk_ok_ctx [OF lt]) (simp_all add: g)
  moreover have "sleeplocks ?t = sleeplocks u" "medium ?t = medium s" "written ?t = written s" unfolding g by (simp_all add: ub)
  moreover have "lru (masked_once u) L" using I(2) by (simp add: lru_def ub)
  ultimately show ?thesis using that [of ?t] drop_buf_post [of "masked_once u" L b] F(1) ub by simp
qed

lemma brelse_law:
  fixes s :: "'a vdisk_scheme"
  assumes "cache_inv s L d" "mine s d n b" "brefs s d n = 1 \<Longrightarrow> bview s d n = dblk s n"
  obtains t where "brelse b s = Ok t" "cache_inv t (if brefs s d n = 1 then b # removeAll b L else L) d" "untouched s t"
    "bview t d = bview s d" "brefs t d = (brefs s d)(n := brefs s d n - 1)" "bheld t d = (bheld s d)(n := False)"
    "bused t = (if brefs s d n = 1 then bused s - 1 else bused s)" "medium t = medium s" "written t = written s"
    "sleeplocks t = (sleeplocks s)(L_buf b := (sleeplocks s (L_buf b))\<lparr>slocked := False, spid := 0\<rparr>)"
    "\<And>c. c \<noteq> b \<Longrightarrow> bdata (bufs t c) = bdata (bufs s c)" "\<And>m c. holds_block t d m c = holds_block s d m c"
proof -
  note F = mine_facts [OF assms(1,2)]
  let ?r = "refcnt (bufs s b) - 1"
  have n: "brefs s d n = unat (refcnt (bufs s b))" using F(2) by (simp add: brefs_def)
  then have n0: "refcnt (bufs s b) = 1 \<longleftrightarrow> brefs s d n = 1" by (simp add: word_unat_eq_iff)
  then have n1: "refcnt (bufs s b) = 1 \<longleftrightarrow> brefs s d n = 1" "?r = 0 \<longleftrightarrow> brefs s d n = 1" by simp_all
  obtain t where r: "brelse b s = Ok t" and U: "untouched s t" and V: "vdisk_ok t" and B: "same_but_links (count_refs b ?r (bufs s)) (bufs t)"
    and Lr0: "lru t (if refcnt (bufs s b) = 1 then b # removeAll b L else L)"
    and S: "sleeplocks t = (sleeplocks s)(L_buf b := (sleeplocks s (L_buf b))\<lparr>slocked := False, spid := 0\<rparr>)"
    and M: "medium t = medium s" "written t = written s"
    by (rule brelse_run [OF assms(1,2)])
  have Lr: "lru t (if brefs s d n = 1 then b # removeAll b L else L)" using Lr0 n1(1) by simp
  note R = recount [OF assms(1) F(2) B Lr U V M(1)]
  have R': "cache_inv t (if brefs s d n = 1 then b # removeAll b L else L) d" "bview t d = bview s d" "brefs t d = (brefs s d)(n := unat ?r)"
    "bheld t d = (bheld s d)(n := slocked (sleeplocks t (L_buf b)))"
    by (rule R; (rule assms(3))?; simp add: S n1 F(5))+
  have "bused t = (if brefs s d n = 1 then bused s - 1 else bused s)" using bused_recount [OF B F(1,4)] n1(2) by simp
  moreover have "\<And>c. c \<noteq> b \<Longrightarrow> bdata (bufs t c) = bdata (bufs s c)" "\<And>m c. holds_block t d m c = holds_block s d m c"
    using B by (auto simp: same_but_links_def count_refs_def holds_block_def)
  ultimately show ?thesis using that [OF r R'(1) U] R' S M pin_refs(3) [OF assms(1,2)] by simp
qed

end
