(* ===== verification/Bio_Props.thy ===== *)
theory Bio_Props
  imports Bio_Cache
begin

text \<open>
  Properties of the sleep locks and of the buffer cache: mutual exclusion, the state after \<open>binit\<close>, what
  \<open>bread\<close> returns, the way of a block through the cache to the medium and back, and the panics.
\<close>

section \<open>Lemmas\<close>

lemma untouched_mypid: "untouched s t \<Longrightarrow> mypid t = mypid s"
proof -
  assume "untouched s t"
  then have "lock_ctx s t" "woke (procs s) (procs t)" by (simp_all add: untouched_def)
  then show ?thesis using cproc_ctx [of s t] woke_pid [of "procs s" "procs t"] by (simp add: mypid_def)
qed

lemma bread_post_mine: "bread_post b d n s t \<Longrightarrow> cache_inv t L d \<Longrightarrow> mine t d n b"
proof -
  assume p: "bread_post b d n s t" and c: "cache_inv t L d"
  then have h: "holds_block t d n b" "bheld t d n" "spid (sleeplocks t (L_buf b)) = mypid t"
    using untouched_mypid [of s t] by (auto simp: bread_post_def)
  then have "block_buf t d n = Some b" using block_buf_eq c by (auto simp: cache_inv_def)
  then show ?thesis using h by (simp add: mine_def bheld_def)
qed

text \<open>The state of \<open>binit\<close> after the buffers below \<open>n\<close>.\<close>

definition binit_upto :: "nat \<Rightarrow> 'a vdisk_scheme \<Rightarrow> 'a vdisk_scheme \<Rightarrow> bool" where
  "binit_upto n s t \<longleftrightarrow> same_but_links (bufs s) (bufs t) \<and> cpus t = cpus s \<and> tp t = tp s \<and> procs t = procs s \<and> medium t = medium s \<and>
     dfree t = dfree s \<and> dev_idx t = dev_idx s \<and> avail_idx t = avail_idx s \<and> used_idx t = used_idx s \<and> dused_idx t = dused_idx s \<and>
     (\<forall>l. (\<forall>b. l \<noteq> L_buf b) \<longrightarrow> l \<noteq> L_bcache \<longrightarrow> locks t l = locks s l) \<and> lock_free L_bcache t \<and>
     (\<forall>b < n. lock_free (L_buf b) t \<and> \<not> slocked (sleeplocks t (L_buf b)))"

lemma link_steps:
  "cpus (bnext_to b x t) = cpus t" "cpus (bprev_to b x t) = cpus t" "tp (bnext_to b x t) = tp t" "tp (bprev_to b x t) = tp t"
  "locks (bnext_to b x t) = locks t" "locks (bprev_to b x t) = locks t" "procs (bnext_to b x t) = procs t" "procs (bprev_to b x t) = procs t"
  "sleeplocks (bnext_to b x t) = sleeplocks t" "sleeplocks (bprev_to b x t) = sleeplocks t"
  by (simp_all add: bnext_to_def bprev_to_def set_buf_def)

lemma link_steps_disk:
  fixes t :: "'a vdisk_scheme"
  shows "medium (bnext_to b x t) = medium t" "medium (bprev_to b x t) = medium t" "dfree (bnext_to b x t) = dfree t" "dfree (bprev_to b x t) = dfree t"
  "dev_idx (bnext_to b x t) = dev_idx t" "dev_idx (bprev_to b x t) = dev_idx t" "avail_idx (bnext_to b x t) = avail_idx t" "avail_idx (bprev_to b x t) = avail_idx t"
  "used_idx (bnext_to b x t) = used_idx t" "used_idx (bprev_to b x t) = used_idx t" "dused_idx (bnext_to b x t) = dused_idx t" "dused_idx (bprev_to b x t) = dused_idx t"
  by (simp_all add: bnext_to_def bprev_to_def set_buf_def)

lemma same_link_to:
  "same_but_links g (bufs (bnext_to b x t)) = same_but_links g (bufs t)" "same_but_links g (bufs (bprev_to b x t)) = same_but_links g (bufs t)"
  by (auto simp: same_but_links_def bnext_to_def bprev_to_def)

lemma init_steps:
  "cpus (initsleeplock l n t) = cpus t" "tp (initsleeplock l n t) = tp t" "procs (initsleeplock l n t) = procs t"
  "locks (initsleeplock l n t) = (locks t)(l := \<lparr>locked = False, lname = ''sleep lock'', lcpu = None\<rparr>)"
  "sleeplocks (initsleeplock l n t) = (sleeplocks t)(l := \<lparr>slocked = False, sname = n, spid = 0\<rparr>)"
  by (simp_all add: initsleeplock_def set_sleeplock_def initlock_def set_lock_def)

lemma init_steps_disk:
  fixes t :: "'a vdisk_scheme"
  shows "medium (initsleeplock l n t) = medium t" "dfree (initsleeplock l n t) = dfree t" "dev_idx (initsleeplock l n t) = dev_idx t"
    "avail_idx (initsleeplock l n t) = avail_idx t" "used_idx (initsleeplock l n t) = used_idx t" "dused_idx (initsleeplock l n t) = dused_idx t"
    "bufs (initsleeplock l n t) = bufs t"
  by (simp_all add: initsleeplock_def set_sleeplock_def initlock_def set_lock_def)

lemma binit_upto_step: "binit_upto n s t \<Longrightarrow> binit_upto (Suc n) s (binit_step n t)"
  unfolding binit_upto_def binit_step_def Let_def
  by (simp add: link_steps link_steps_disk same_link_to init_steps init_steps_disk lock_free_def less_Suc_eq)

lemma binit_upto_all: "binit_upto NBUF s (binit s)"
proof -
  let ?s = "bnext_to NBUF NBUF (bprev_to NBUF NBUF (initlock L_bcache ''bcache'' s))"
  have "binit_upto n s (fold binit_step [0..<n] ?s)" for n
  proof (induction n)
    case 0
    then show ?case by (simp add: binit_upto_def link_steps link_steps_disk same_link_to lock_free_def) (auto simp: initlock_def set_lock_def)
  next
    case (Suc n)
    then show ?case using binit_upto_step by simp
  qed
  then show ?thesis by (simp add: binit_def)
qed

lemma binit_cache:
  fixes s :: "'a vdisk_scheme"
  assumes "vdisk_ok s" "cproc (mycpu s) \<noteq> None" "d \<noteq> 0"
    and "\<And>b. b < NBUF \<Longrightarrow> bdev (bufs s b) = 0 \<and> refcnt (bufs s b) = 0 \<and> \<not> disk (bufs s b) \<and> length (bdata (bufs s b)) = BSIZE"
  shows "cache_inv (binit s) (rev [0..<NBUF]) d"
proof -
  let ?t = "binit s"
  have U: "binit_upto NBUF s ?t" by (rule binit_upto_all)
  have m: "mycpu ?t = mycpu s" using U by (simp add: binit_upto_def mycpu_def cpuid_def)
  have B: "\<And>c. bdev (bufs ?t c) = bdev (bufs s c)" "\<And>c. refcnt (bufs ?t c) = refcnt (bufs s c)" "\<And>c. disk (bufs ?t c) = disk (bufs s c)"
    "\<And>c. bdata (bufs ?t c) = bdata (bufs s c)"
    using U by (auto simp: binit_upto_def same_but_links_def)
  have "vdisk_ok ?t" using assms(1) U m by (simp add: vdisk_ok_def binit_upto_def cpu_ok_def lock_free_def)
  moreover have "one_buf ?t d" using assms(3,4) by (auto simp: one_buf_def holds_block_def B)
  moreover have "buf_ok ?t d b" if "b < NBUF" for b
    using assms(3) assms(4) [OF that] U that by (auto simp: buf_ok_def B binit_upto_def)
  ultimately show ?thesis using U assms(2) m binit_lru [of s] by (simp add: cache_inv_def) (simp add: binit_upto_def)
qed

section \<open>Properties\<close>


lemma quiet_disk_hart: "hart_ok quiet_disk" "vdisk_ok quiet_disk" "cproc (mycpu quiet_disk) = Some 3"
  by (simp_all add: hart_ok_def vdisk_ok_def cpu_ok_def lock_free_def mycpu_def cpuid_def)




lemma binit_quiet:
  "cache_inv (binit quiet_disk) (rev [0..<NBUF]) 1" "bused (binit quiet_disk) = 0" "\<not> bheld (binit quiet_disk) 1 n"
  "brefs (binit quiet_disk) 1 n = 0" "written (binit quiet_disk) = []" "cproc (mycpu (binit quiet_disk)) = Some 3"
proof -
  let ?s = "quiet_disk" and ?t = "binit quiet_disk"
  show "cache_inv ?t (rev [0..<NBUF]) 1" using binit_cache [OF quiet_disk_hart(2), of 1] quiet_disk_hart(3) by (simp add: BSIZE_def)
  have U: "binit_upto NBUF ?s ?t" by (rule binit_upto_all)
  have B: "\<And>c. bdev (bufs ?t c) = 0" "\<And>c. refcnt (bufs ?t c) = 0"
    using U by (auto simp: binit_upto_def same_but_links_def)
  have "block_buf ?t 1 n = None" by (simp add: block_buf_None holds_block_def B)
  then show "\<not> bheld ?t 1 n" "brefs ?t 1 n = 0" by (simp_all add: bheld_def brefs_def)
  show "bused ?t = 0" by (simp add: bused_def B)
  show "cproc (mycpu ?t) = Some 3" using U quiet_disk_hart(3) by (simp add: binit_upto_def mycpu_def cpuid_def)
  have "written (binit_step b t) = written t" for b and t :: vdisk
    by (simp add: binit_step_def Let_def bnext_to_def bprev_to_def set_buf_def initsleeplock_def set_sleeplock_def initlock_def set_lock_def)
  then have "written (fold binit_step xs t) = written t" for xs and t :: vdisk by (induction xs arbitrary: t) auto
  then show "written ?t = []" by (simp add: binit_def bnext_to_def bprev_to_def set_buf_def initlock_def set_lock_def)
qed

text \<open>
  (C18) \<open>bread\<close> returns a locked buffer with the current contents of the block: those of its cached copy, or those
  on the medium. A cached block stays in its buffer, another one goes into the least recently used buffer that
  nobody uses, and whatever it displaces loses nothing: every block keeps its contents, its users and its holder,
  apart from the one new reference and lock.
\<close>

theorem bread_coherent:
  fixes s :: "'a vdisk_scheme"
  assumes "cache_inv s L d" "\<not> bheld s d n" "brefs s d n \<noteq> 0 \<or> bused s < NBUF" "unat n < 2 ^ 31" "brefs s d n + 1 < 2 ^ 32"
  shows "\<exists>b t. bread d n s = Ok (b, t) \<and> cache_inv t L d \<and> mine t d n b \<and> bdata (bufs t b) = bview s d n \<and>
    (case block_buf s d n of Some c \<Rightarrow> b = c | None \<Rightarrow> List.find (\<lambda>b. refcnt (bufs s b) = 0) (rev L) = Some b) \<and>
    bview t d = bview s d \<and> brefs t d = (brefs s d)(n := brefs s d n + 1) \<and> bheld t d = (bheld s d)(n := True) \<and> dblk t = dblk s"
proof -
  obtain b t x where r: "bread d n s = Ok (b, t)" and g: "got L d n b s x" by (rule bread_run [OF assms(1-4)])
  obtain b' t' where r': "bread d n s = Ok (b', t')" "cache_inv t' L d" "bread_post b' d n s t'" by (rule bread_law [OF assms])
  have e: "b' = b" "t' = t" using r r'(1) by simp_all
  have D: "dblk t = dblk s" by (rule dblk_medium) (use r'(3) in \<open>simp add: bread_post_def e\<close>)
  have m: "mine t d n b" using bread_post_mine r'(2,3) e by blast
  have "case block_buf s d n of Some c \<Rightarrow> b = c | None \<Rightarrow> List.find (\<lambda>b. refcnt (bufs s b) = 0) (rev L) = Some b"
    using g by (auto simp: got_def split: option.splits)
  then show ?thesis using r r'(2,3) e D m by (auto simp: bread_post_def)
qed

theorem bread_coherent_witness: "\<exists>b t. bread 1 7 (binit quiet_disk) = Ok (b, t) \<and> bdata (bufs t b) = bview (binit quiet_disk) 1 7"
  using bread_coherent [OF binit_quiet(1) binit_quiet(3), of 7] binit_quiet by (auto simp: NBUF_def)

lemma same_cache:
  "bufs t = bufs s \<Longrightarrow> sleeplocks t = sleeplocks s \<Longrightarrow> brefs t = brefs s \<and> bheld t = bheld s \<and> bused t = bused s"
  by (intro conjI ext) (simp_all add: brefs_def bheld_def bused_def block_buf_def split: option.splits)

text \<open>A block that nobody uses is read, changed, written and released.\<close>

lemma write_through:
  fixes s :: "'a vdisk_scheme"
  assumes "cache_inv s L d" "\<not> bheld s d n" "brefs s d n = 0" "bused s < NBUF" "unat n < 2 ^ 31" "length v = BSIZE"
  obtains b t u w where "bread d n s = Ok (b, t)" "bwrite b (put_data b v t) = Ok u" "brelse b u = Ok w" "cache_inv w (b # removeAll b L) d"
    "dblk w = (dblk s)(n := v)" "bview w d = (bview s d)(n := v)" "written w = written s @ [(unat n, v)]"
    "brefs w d = brefs s d" "bheld w d = bheld s d" "bused w = bused s" "block_buf w d n = Some b" "untouched s w" "bdata (bufs t b) = bview s d n" "untouched s t"
proof -
  obtain b t where t: "bread d n s = Ok (b, t)" "cache_inv t L d" "bread_post b d n s t"
    by (rule bread_law [OF assms(1,2) _ assms(5)]) (use assms(3,4) in auto)
  have m: "mine t d n b" using bread_post_mine t(2,3) by blast
  have T: "bview t d = bview s d" "brefs t d = (brefs s d)(n := 1)" "bheld t d = (bheld s d)(n := True)" "medium t = medium s" "written t = written s"
    "bused t = bused s + 1"
    using t(3) assms(3) by (simp_all add: bread_post_def)
  note P = put_data_law [OF t(2) m assms(6)]
  obtain u where u: "bwrite b (put_data b v t) = Ok u" "cache_inv u L d" "untouched (put_data b v t) u" "bufs u = bufs (put_data b v t)"
    "sleeplocks u = sleeplocks (put_data b v t)" "dblk u = (dblk (put_data b v t))(n := bview (put_data b v t) d n)"
    "written u = written (put_data b v t) @ [(unat n, bview (put_data b v t) d n)]" "bview u d = bview (put_data b v t) d"
    by (rule bwrite_law [OF P(1,2) assms(5)])
  have D: "dblk t = dblk s" by (rule dblk_medium) (simp add: T(4))
  have U: "dblk u = (dblk s)(n := v)" "written u = written s @ [(unat n, v)]" "bview u d = (bview s d)(n := v)"
    "brefs u d = brefs t d" "bheld u d = bheld t d" "bused u = bused t"
    using u(6-8) P same_cache [OF u(4,5)] T(1,5) D by simp_all
  have mu: "mine u d n b" using P(2) u(4,5) untouched_mypid [OF u(3)] by (simp add: mine_def holds_block_def)
  have ut: "untouched s t" "bdata (bufs t b) = bview s d n" using t(3) by (simp_all add: bread_post_def)
  obtain w where w: "brelse b u = Ok w" "cache_inv w (if brefs u d n = 1 then b # removeAll b L else L) d" "bview w d = bview u d"
    "brefs w d = (brefs u d)(n := brefs u d n - 1)" "bheld w d = (bheld u d)(n := False)" "medium w = medium u" "written w = written u"
    "bused w = (if brefs u d n = 1 then bused u - 1 else bused u)" "\<And>m c. holds_block w d m c = holds_block u d m c" "untouched u w"
    by (rule brelse_law [OF u(2) mu]) (use U(1,3) in simp_all)
  have uw: "untouched s w" using untouched_trans ut(1) P(9) u(3) w(10) by metis
  have W: "cache_inv w (b # removeAll b L) d" "brefs w d = brefs s d" "bheld w d = bheld s d" "bused w = bused s"
    using w(2,4,5,8) U(4-6) T(2,3,6) assms(2,3) by (auto simp: fun_eq_iff)
  have "block_buf w d n = Some b" using block_buf_eq [of w d n b] w(9) mu W(1) by (simp add: mine_def cache_inv_def)
  moreover have "dblk w = dblk u" by (rule dblk_medium) (simp add: w(6))
  ultimately show ?thesis using that [OF t(1) u(1) w(1) W(1)] U w W uw ut by simp
qed

text \<open>
  (C19) A block on its way through the cache: after \<open>bread\<close>, new contents, \<open>bwrite\<close> and \<open>brelse\<close>, the contents are on the
  medium, exactly one block was written, no other block changed, and the next \<open>bread\<close> of the block finds
  them, in the same buffer, which is then in front of the list.
\<close>

theorem bcache_roundtrip:
  fixes s :: "'a vdisk_scheme"
  assumes "cache_inv s L d" "\<not> bheld s d n" "brefs s d n = 0" "bused s < NBUF" "unat n < 2 ^ 31" "length v = BSIZE"
  shows "\<exists>b t u w x. bread d n s = Ok (b, t) \<and> bwrite b (put_data b v t) = Ok u \<and> brelse b u = Ok w \<and> bread d n w = Ok (b, x) \<and>
    bdata (bufs x b) = v \<and> dblk x = (dblk s)(n := v) \<and> bview x d = (bview s d)(n := v) \<and> written x = written s @ [(unat n, v)] \<and>
    brefs w d = brefs s d \<and> bheld w d = bheld s d \<and> cache_inv w (b # removeAll b L) d"
proof -
  obtain b t u w where w: "bread d n s = Ok (b, t)" "bwrite b (put_data b v t) = Ok u" "brelse b u = Ok w" "cache_inv w (b # removeAll b L) d"
    "dblk w = (dblk s)(n := v)" "bview w d = (bview s d)(n := v)" "written w = written s @ [(unat n, v)]"
    "brefs w d = brefs s d" "bheld w d = bheld s d" "bused w = bused s" "block_buf w d n = Some b"
    by (rule write_through [OF assms])
  have q: "\<not> bheld w d n" "brefs w d n \<noteq> 0 \<or> bused w < NBUF" "brefs w d n + 1 < 2 ^ 32" using w(8-10) assms(2-4) by simp_all
  obtain c x where x: "bread d n w = Ok (c, x)" "bread_post c d n w x" by (rule bread_law [OF w(4) q(1,2) assms(5) q(3)])
  obtain c' x' y where "bread d n w = Ok (c', x')" "got (b # removeAll b L) d n c' w y" by (rule bread_run [OF w(4) q(1,2) assms(5)])
  then have "c = b" using x(1) w(11) by (simp add: got_def)
  moreover have "dblk x = dblk w" by (rule dblk_medium) (use x(2) in \<open>simp add: bread_post_def\<close>)
  ultimately show ?thesis using w x by (auto simp: bread_post_def)
qed

theorem bcache_roundtrip_witness:
  "\<exists>b t u w x. bread 1 7 (binit quiet_disk) = Ok (b, t) \<and> bwrite b (put_data b (replicate BSIZE 9) t) = Ok u \<and> brelse b u = Ok w \<and>
     bread 1 7 w = Ok (b, x) \<and> bdata (bufs x b) = replicate BSIZE 9 \<and> written x = [(7, replicate BSIZE 9)]"
proof -
  have "unat (7 :: u32) = 7" by simp
  then show ?thesis using bcache_roundtrip [OF binit_quiet(1) binit_quiet(3), of 7 "replicate BSIZE 9"] binit_quiet(2,4,5) by (auto simp: NBUF_def)
qed

lemma bread_full:
  fixes s :: "'a vdisk_scheme"
  assumes "cache_inv s L d" "block_buf s d n = None" "bused s = NBUF"
  shows "bread d n s = Panic ''bget: no buffers''"
proof -
  have I: "lru s L" "lock_free L_bcache s" "one_buf s d" using assms(1) by (auto simp: cache_inv_def)
  let ?e = "enter_state L_bcache s"
  have e: "bufs ?e = bufs s" by (simp add: enter_state_def lock_defs)
  have "lru ?e L" using I(1) e by (simp add: lru_def)
  note S = lru_searches [OF this, unfolded e]
  have "{b. b < NBUF \<and> refcnt (bufs s b) \<noteq> 0} = {..<NBUF}"
    by (rule card_subset_eq) (use assms(3) in \<open>auto simp: bused_def\<close>)
  then have "List.find (\<lambda>b. refcnt (bufs s b) = 0) (rev L) = None" using I(1) by (auto simp: find_None_iff lru_def)
  then show ?thesis using S find_in_lru [OF I(1,3), of n] assms(2) by (simp add: bread_def bget_def acquire_free [OF I(2)] e)
qed

text \<open>
  (C21) Misuse of the cache stops the kernel: \<open>bwrite\<close> and \<open>brelse\<close> of a buffer whose lock the caller does not hold
  panic, and so does \<open>bread\<close> of a block that is not cached when every buffer is in use.
\<close>

theorem bcache_panics:
  fixes s :: "'a vdisk_scheme"
  assumes "cache_inv s L d"
  shows "(\<forall>b < NBUF. \<not> slocked (sleeplocks s (L_buf b)) \<or> spid (sleeplocks s (L_buf b)) \<noteq> mypid s \<longrightarrow>
      bwrite b s = Panic ''bwrite'' \<and> brelse b s = Panic ''brelse'') \<and>
    (\<forall>n. block_buf s d n = None \<longrightarrow> bused s = NBUF \<longrightarrow> bread d n s = Panic ''bget: no buffers'')"
proof -
  have c: "cpu_ok s" using assms by (auto simp: cache_inv_def vdisk_ok_def)
  obtain p where p: "cproc (mycpu s) = Some p" using assms by (auto simp: cache_inv_def)
  have "bwrite b s = Panic ''bwrite'' \<and> brelse b s = Panic ''brelse''"
    if b: "b < NBUF" and l: "\<not> slocked (sleeplocks s (L_buf b)) \<or> spid (sleeplocks s (L_buf b)) \<noteq> mypid s" for b
  proof -
    have "lock_free (L_buf b) s" using assms b by (simp add: cache_inv_def)
    then have "holdingsleep (L_buf b) s = Ok (False, masked_once s)"
      using holdingsleep_run [OF c _ p, of "L_buf b"] l p by (auto simp: mypid_def)
    then show ?thesis by (simp add: bwrite_def brelse_def)
  qed
  then show ?thesis using bread_full [OF assms] by blast
qed

theorem bcache_panics_witness: "bwrite 4 (binit quiet_disk) = Panic ''bwrite'' \<and> brelse 4 (binit quiet_disk) = Panic ''brelse''"
proof -
  have "binit_upto NBUF quiet_disk (binit quiet_disk)" by (rule binit_upto_all)
  then have "\<not> slocked (sleeplocks (binit quiet_disk) (L_buf 4))" by (simp add: binit_upto_def NBUF_def)
  then show ?thesis using bcache_panics [OF binit_quiet(1)] by (simp add: NBUF_def)
qed

end
