(* ===== verification/Blockdata.thy ===== *)
theory Blockdata
  imports Xv6_Prelude
begin

text \<open>Integers and byte strings at given offsets of a block of bytes, in the little-endian order of the machine.\<close>

definition slice :: "nat \<Rightarrow> nat \<Rightarrow> 'a list \<Rightarrow> 'a list" where
  "slice i n bs = take n (drop i bs)"

definition splice :: "nat \<Rightarrow> 'a list \<Rightarrow> 'a list \<Rightarrow> 'a list" where
  "splice i xs bs = take i bs @ xs @ drop (i + length xs) bs"

definition get32 :: "nat \<Rightarrow> u8 list \<Rightarrow> u32" where
  "get32 i bs = of_nat (le_decode (slice i 4 bs))"

definition put32 :: "nat \<Rightarrow> u32 \<Rightarrow> u8 list \<Rightarrow> u8 list" where
  "put32 i v = splice i (le_encode 4 (unat v))"

definition get16 :: "nat \<Rightarrow> u8 list \<Rightarrow> u16" where
  "get16 i bs = of_nat (le_decode (slice i 2 bs))"

definition put16 :: "nat \<Rightarrow> u16 \<Rightarrow> u8 list \<Rightarrow> u8 list" where
  "put16 i v = splice i (le_encode 2 (unat v))"

lemma length_slice [simp]: "i + n \<le> length bs \<Longrightarrow> length (slice i n bs) = n"
  by (simp add: slice_def)

lemma length_splice [simp]: "i + length xs \<le> length bs \<Longrightarrow> length (splice i xs bs) = length bs"
  by (simp add: splice_def)

lemma nth_splice: "i + length xs \<le> length bs \<Longrightarrow> j < length bs \<Longrightarrow>
    splice i xs bs ! j = (if i \<le> j \<and> j < i + length xs then xs ! (j - i) else bs ! j)"
  by (auto simp: splice_def nth_append min_def not_less)

lemma nth_slice: "i + n \<le> length bs \<Longrightarrow> j < n \<Longrightarrow> slice i n bs ! j = bs ! (i + j)"
  by (simp add: slice_def)

lemma slice_splice_same: "i + length xs \<le> length bs \<Longrightarrow> slice i (length xs) (splice i xs bs) = xs"
  by (simp add: slice_def splice_def)

lemma slice_splice_other:
  "i + length xs \<le> length bs \<Longrightarrow> j + n \<le> length bs \<Longrightarrow> j + n \<le> i \<or> i + length xs \<le> j \<Longrightarrow> slice j n (splice i xs bs) = slice j n bs"
  by (rule nth_equalityI) (auto simp: nth_slice nth_splice)

lemma splice_slice: "i + n \<le> length bs \<Longrightarrow> splice i (slice i n bs) bs = bs"
  by (rule nth_equalityI) (auto simp: nth_splice nth_slice)

lemma splice_all [simp]: "length xs = length bs \<Longrightarrow> splice 0 xs bs = xs"
  by (simp add: splice_def)

lemma length_put [simp]:
  "i + 4 \<le> length bs \<Longrightarrow> length (put32 i v bs) = length bs" "i + 2 \<le> length bs \<Longrightarrow> length (put16 i w bs) = length bs"
  by (simp_all add: put32_def put16_def)

lemma get_put_same:
  "i + 4 \<le> length bs \<Longrightarrow> get32 i (put32 i v bs) = v" "i + 2 \<le> length bs \<Longrightarrow> get16 i (put16 i w bs) = w"
proof -
  have "unat v < 2 ^ LENGTH(32)" "unat w < 2 ^ LENGTH(16)" by (rule unsigned_less)+
  then have "unat v mod 4294967296 = unat v" "unat w mod 65536 = unat w" by simp_all
  then show "i + 4 \<le> length bs \<Longrightarrow> get32 i (put32 i v bs) = v" "i + 2 \<le> length bs \<Longrightarrow> get16 i (put16 i w bs) = w"
    using slice_splice_same [of i "le_encode 4 (unat v)" bs] slice_splice_same [of i "le_encode 2 (unat w)" bs]
    by (simp_all add: get32_def put32_def get16_def put16_def le_decode_encode)
qed

lemma get_put_other:
  "i + 4 \<le> length bs \<Longrightarrow> j + 4 \<le> length bs \<Longrightarrow> j + 4 \<le> i \<or> i + 4 \<le> j \<Longrightarrow> get32 j (put32 i v bs) = get32 j bs"
  "i + 4 \<le> length bs \<Longrightarrow> j + 2 \<le> length bs \<Longrightarrow> j + 2 \<le> i \<or> i + 4 \<le> j \<Longrightarrow> get16 j (put32 i v bs) = get16 j bs"
  "i + 2 \<le> length bs \<Longrightarrow> j + 4 \<le> length bs \<Longrightarrow> j + 4 \<le> i \<or> i + 2 \<le> j \<Longrightarrow> get32 j (put16 i w bs) = get32 j bs"
  "i + 2 \<le> length bs \<Longrightarrow> j + 2 \<le> length bs \<Longrightarrow> j + 2 \<le> i \<or> i + 2 \<le> j \<Longrightarrow> get16 j (put16 i w bs) = get16 j bs"
  by (simp_all add: get32_def put32_def get16_def put16_def slice_splice_other)

end
