(* ===== verification/Wal.thy ===== *)
theory Wal
  imports Blockdata
begin

text \<open>
  Redo logging as such: a disk is a map from block numbers to contents, a run of the kernel a list of block writes,
  a crash a prefix of that list. \<open>recover_writes\<close> and \<open>commit_writes\<close> are the writes of a recovery and of a
  commit. A recovery that is itself interrupted any number of times restores the same contents.
\<close>

section \<open>Writes\<close>

fun apply_writes :: "('a \<times> 'b) list \<Rightarrow> ('a \<Rightarrow> 'b) \<Rightarrow> 'a \<Rightarrow> 'b" where
  "apply_writes [] D = D"
| "apply_writes ((n, v) # ws) D = apply_writes ws (D(n := v))"

lemma apply_writes_append [simp]: "apply_writes (xs @ ys) D = apply_writes ys (apply_writes xs D)"
  by (induction xs arbitrary: D) (simp_all add: split_paired_all)

lemma apply_writes_other: "m \<notin> fst ` set ws \<Longrightarrow> apply_writes ws D m = D m"
proof (induction ws arbitrary: D)
  case (Cons w ws)
  then show ?case by (cases w) simp
qed simp

lemma apply_writes_at:
  "distinct (map f xs) \<Longrightarrow> i \<in> set xs \<Longrightarrow> apply_writes (map (\<lambda>i. (f i, g i)) xs) D (f i) = g i"
proof (induction xs arbitrary: D)
  case (Cons x xs)
  show ?case
  proof (cases "i = x")
    case True
    then have "f x \<notin> fst ` set (map (\<lambda>i. (f i, g i)) xs)" using Cons.prems(1) by force
    then show ?thesis using True by (simp add: apply_writes_other)
  next
    case False
    then show ?thesis using Cons by auto
  qed
qed simp

lemma apply_writes_map:
  assumes "distinct (map f xs)"
  shows "apply_writes (map (\<lambda>i. (f i, g i)) xs) D m = (case List.find (\<lambda>i. f i = m) xs of Some i \<Rightarrow> g i | None \<Rightarrow> D m)"
proof (cases "List.find (\<lambda>i. f i = m) xs")
  case None
  then have "m \<notin> fst ` set (map (\<lambda>i. (f i, g i)) xs)" by (auto simp: find_None_iff)
  then show ?thesis using None by (simp add: apply_writes_other)
next
  case (Some i)
  then have "i \<in> set xs" "f i = m" by (auto simp: find_Some_iff)
  then show ?thesis using Some apply_writes_at [OF assms, of i g D] by simp
qed

section \<open>The log on the disk\<close>

text \<open>The log starts at block \<open>st\<close> with a header, the copies follow. \<open>N\<close> is the capacity.\<close>

definition log_block :: "u32 \<Rightarrow> nat \<Rightarrow> u32" where
  "log_block st i = st + of_nat i + 1"

definition log_area :: "u32 \<Rightarrow> nat \<Rightarrow> u32 set" where
  "log_area st N = insert st (log_block st ` {..<N})"

definition head_n :: "u8 list \<Rightarrow> nat" where
  "head_n h = nat (sint (get32 0 h))"

definition head_block :: "u8 list \<Rightarrow> nat \<Rightarrow> u32" where
  "head_block h i = get32 (4 + 4 * i) h"

definition installs :: "u32 \<Rightarrow> (u32 \<Rightarrow> u8 list) \<Rightarrow> (u32 \<times> u8 list) list" where
  "installs st D = map (\<lambda>i. (head_block (D st) i, D (log_block st i))) [0..<head_n (D st)]"

definition recover_writes :: "u32 \<Rightarrow> (u32 \<Rightarrow> u8 list) \<Rightarrow> (u32 \<times> u8 list) list" where
  "recover_writes st D = installs st D @ [(st, put32 0 0 (D st))]"

definition recovered :: "u32 \<Rightarrow> (u32 \<Rightarrow> u8 list) \<Rightarrow> u32 \<Rightarrow> u8 list" where
  "recovered st D = apply_writes (recover_writes st D) D"

text \<open>What has to hold of the log on the disk for a recovery to make sense.\<close>

definition log_wf :: "u32 \<Rightarrow> nat \<Rightarrow> (u32 \<Rightarrow> u8 list) \<Rightarrow> bool" where
  "log_wf st N D \<longleftrightarrow> length (D st) \<ge> 4 + 4 * N \<and> unat st + N + 1 < 2 ^ 31 \<and> head_n (D st) \<le> N \<and>
     distinct (map (head_block (D st)) [0..<head_n (D st)]) \<and> (\<forall>i < head_n (D st). head_block (D st) i \<notin> log_area st N \<and> unat (head_block (D st) i) < 2 ^ 31)"

text \<open>A recovery that stops after some of its writes, any number of times.\<close>

inductive interrupted :: "u32 \<Rightarrow> (u32 \<Rightarrow> u8 list) \<Rightarrow> (u32 \<Rightarrow> u8 list) \<Rightarrow> bool" for st where
  none: "interrupted st D D"
| crash: "interrupted st D E \<Longrightarrow> interrupted st D (apply_writes (take k (recover_writes st E)) E)"

lemma log_block_unat: "unat st + N + 1 < 2 ^ 31 \<Longrightarrow> i < N \<Longrightarrow> unat (log_block st i) = unat st + i + 1"
  by (simp add: log_block_def unat_word_ariths unsigned_of_nat take_bit_nat_eq_self)

lemma log_block_inj:
  assumes "unat st + N + 1 < 2 ^ 31" "i < N" "j < N" "log_block st i = log_block st j"
  shows "i = j"
proof -
  have "unat (log_block st i) = unat (log_block st j)" using assms(4) by (rule arg_cong)
  then show ?thesis using log_block_unat [OF assms(1,2)] log_block_unat [OF assms(1,3)] by linarith
qed

lemma log_block_start:
  assumes "unat st + N + 1 < 2 ^ 31" "i < N"
  shows "log_block st i \<noteq> st"
proof
  assume "log_block st i = st"
  then have "unat (log_block st i) = unat st" by (rule arg_cong)
  then show False using log_block_unat [OF assms] by linarith
qed

lemma in_log_area: "i < N \<Longrightarrow> log_block st i \<in> log_area st N" "st \<in> log_area st N"
  by (simp_all add: log_area_def)

lemma head_put:
  assumes "4 + 4 * N \<le> length h" "n \<le> N" "N < 2 ^ 28"
  shows "head_n (put32 0 (of_nat n) h) = n" "i < N \<Longrightarrow> head_block (put32 0 v h) i = head_block h i"
proof -
  have "sint (of_nat n :: u32) = int n" using assms by (simp add: signed_of_nat signed_take_bit_int_eq_self)
  then show "head_n (put32 0 (of_nat n) h) = n" using assms(1) by (simp add: head_n_def get_put_same)
  show "i < N \<Longrightarrow> head_block (put32 0 v h) i = head_block h i" using assms(1) by (simp add: head_block_def get_put_other)
qed

lemma head_n_clear: "4 \<le> length h \<Longrightarrow> head_n (put32 0 0 h) = 0"
  by (simp add: head_n_def get_put_same)

text \<open>An interrupted recovery leaves the recovered contents of every block outside the log as they are.\<close>

lemma recovered_home:
  assumes "log_wf st N D" "m \<notin> log_area st N"
  shows "recovered st D m = (case List.find (\<lambda>i. head_block (D st) i = m) [0..<head_n (D st)] of Some i \<Rightarrow> D (log_block st i) | None \<Rightarrow> D m)"
proof -
  have "m \<noteq> st" using assms(2) by (auto simp: log_area_def)
  then have "recovered st D m = apply_writes (installs st D) D m" by (simp add: recovered_def recover_writes_def)
  also have "\<dots> = (case List.find (\<lambda>i. head_block (D st) i = m) [0..<head_n (D st)] of Some i \<Rightarrow> D (log_block st i) | None \<Rightarrow> D m)"
    unfolding installs_def by (rule apply_writes_map) (use assms(1) in \<open>simp add: log_wf_def\<close>)
  finally show ?thesis .
qed

lemma installs_log:
  assumes "log_wf st N D" "x \<in> log_area st N"
  shows "apply_writes (take k (installs st D)) D x = D x"
proof (rule apply_writes_other)
  have "fst ` set (take k (installs st D)) \<subseteq> fst ` set (installs st D)" by (rule image_mono) (rule set_take_subset)
  also have "\<dots> \<subseteq> - log_area st N" using assms(1) by (auto simp: installs_def log_wf_def)
  finally show "x \<notin> fst ` set (take k (installs st D))" using assms(2) by auto
qed

lemma installs_home:
  assumes "log_wf st N D"
  shows "apply_writes (take k (installs st D)) D m \<in> {D m, recovered st D m} \<or> m \<in> log_area st N"
proof (cases "m \<in> log_area st N")
  case False
  have t: "take k (installs st D) = map (\<lambda>i. (head_block (D st) i, D (log_block st i))) (take k [0..<head_n (D st)])"
    by (simp add: installs_def take_map)
  have d: "distinct (map (head_block (D st)) (take k [0..<head_n (D st)]))" "distinct (map (head_block (D st)) [0..<head_n (D st)])"
    using assms by (simp_all add: log_wf_def distinct_take flip: take_map)
  show ?thesis
  proof (cases "List.find (\<lambda>i. head_block (D st) i = m) (take k [0..<head_n (D st)])")
    case None
    then show ?thesis using apply_writes_map [OF d(1), of "\<lambda>i. D (log_block st i)" D m] t by simp
  next
    case (Some i)
    then have i: "i \<in> set (take k [0..<head_n (D st)])" "head_block (D st) i = m" by (auto simp: find_Some_iff in_set_conv_nth)
    then have "i \<in> set [0..<head_n (D st)]" by (meson in_set_takeD)
    then have "apply_writes (map (\<lambda>i. (head_block (D st) i, D (log_block st i))) [0..<head_n (D st)]) D (head_block (D st) i) = D (log_block st i)"
      by (rule apply_writes_at [OF d(2)])
    moreover have "m \<noteq> st" using False by (auto simp: log_area_def)
    ultimately have "recovered st D m = D (log_block st i)" using i(2) by (simp add: recovered_def recover_writes_def installs_def)
    then show ?thesis using Some apply_writes_map [OF d(1), of "\<lambda>i. D (log_block st i)" D m] t by simp
  qed
qed simp

lemma recovered_cleared: "head_n (D st) = 0 \<Longrightarrow> m \<noteq> st \<Longrightarrow> recovered st D m = D m"
  by (simp add: recovered_def recover_writes_def installs_def)

lemma recover_writes_prefix:
  "take k (recover_writes st D) = (if k \<le> head_n (D st) then take k (installs st D) else recover_writes st D)"
proof -
  have "length (installs st D) = head_n (D st)" by (simp add: installs_def)
  then show ?thesis by (auto simp: recover_writes_def take_Cons')
qed

lemma crash_in_recovery:
  assumes "log_wf st N D" "F = apply_writes (take k (recover_writes st D)) D"
  shows "log_wf st N F" "m \<notin> log_area st N \<Longrightarrow> recovered st F m = recovered st D m"
proof -
  have a: "log_wf st N F \<and> (\<forall>m. m \<notin> log_area st N \<longrightarrow> recovered st F m = recovered st D m)"
  proof (cases "k \<le> head_n (D st)")
    case True
    then have F: "F = apply_writes (take k (installs st D)) D" using assms(2) by (simp add: recover_writes_prefix)
    have L: "F x = D x" if "x \<in> log_area st N" for x using installs_log [OF assms(1) that] F by simp
    have st: "F st = D st" by (rule L) (simp add: in_log_area)
    have w: "log_wf st N F" using assms(1) by (simp add: log_wf_def st)
    have lb: "F (log_block st i) = D (log_block st i)" if "i < head_n (D st)" for i
      by (rule L) (use assms(1) that in \<open>simp add: log_wf_def in_log_area\<close>)
    have "recovered st F m = recovered st D m" if "m \<notin> log_area st N" for m
    proof (cases "List.find (\<lambda>i. head_block (D st) i = m) [0..<head_n (D st)]")
      case None
      then have "recovered st D m = D m" "recovered st F m = F m" using recovered_home [OF assms(1) that] recovered_home [OF w that] st by simp_all
      then show ?thesis using installs_home [OF assms(1), of k m] that F by auto
    next
      case (Some i)
      then have "i < head_n (D st)" by (auto simp: find_Some_iff)
      then show ?thesis using recovered_home [OF assms(1) that] recovered_home [OF w that] st Some lb by simp
    qed
    then show ?thesis using w by blast
  next
    case False
    then have F: "F = recovered st D" using assms(2) by (simp add: recover_writes_prefix recovered_def)
    have len: "length (D st) \<ge> 4 + 4 * N" using assms(1) by (simp add: log_wf_def)
    have "F st = put32 0 0 (D st)" unfolding F recovered_def recover_writes_def by simp
    then have h: "head_n (F st) = 0" "length (F st) = length (D st)" using len by (simp_all add: head_n_clear)
    then have "log_wf st N F" using assms(1) by (simp add: log_wf_def)
    moreover have "recovered st F m = recovered st D m" if "m \<notin> log_area st N" for m
    proof -
      have "m \<noteq> st" using that by (auto simp: log_area_def)
      then show ?thesis using recovered_cleared [of F st m, OF h(1)] F by simp
    qed
    ultimately show ?thesis by blast
  qed
  then show "log_wf st N F" "m \<notin> log_area st N \<Longrightarrow> recovered st F m = recovered st D m" by blast+
qed

lemma interrupted_recovered:
  assumes "interrupted st D E" "log_wf st N D"
  shows "log_wf st N E \<and> (\<forall>m. m \<notin> log_area st N \<longrightarrow> recovered st E m = recovered st D m)"
  using assms
proof (induction rule: interrupted.induct)
  case (crash D E k)
  then have w: "log_wf st N E" by simp
  show ?case using crash_in_recovery [OF w refl, where k = k] crash by simp
qed simp

section \<open>A commit\<close>

text \<open>The header \<open>h\<close> with the block numbers \<open>f\<close> is what the commit writes to \<open>st\<close>; \<open>V\<close> are the new contents.\<close>

definition commit_writes :: "u32 \<Rightarrow> (u32 \<Rightarrow> u8 list) \<Rightarrow> nat \<Rightarrow> (nat \<Rightarrow> u32) \<Rightarrow> u8 list \<Rightarrow> (u32 \<times> u8 list) list" where
  "commit_writes st V n f h = map (\<lambda>i. (log_block st i, V (f i))) [0..<n] @ [(st, h)] @ map (\<lambda>i. (f i, V (f i))) [0..<n] @ [(st, put32 0 0 h)]"

lemma commit_crash:
  assumes D: "log_wf st N D" "head_n (D st) = 0" and n: "n \<le> N" and f: "distinct (map f [0..<n])" "\<forall>i < n. f i \<notin> log_area st N \<and> unat (f i) < 2 ^ 31"
    and h: "length h = length (D st)" "head_n h = n" "\<forall>i < n. head_block h i = f i"
    and E: "E = apply_writes (take k (commit_writes st V n f h)) D"
  shows "log_wf st N E" "m \<notin> log_area st N \<Longrightarrow> recovered st E m = (if n < k \<and> m \<in> f ` {..<n} then V m else D m)"
proof -
  have s: "unat st + N + 1 < 2 ^ 31" using D(1) by (simp add: log_wf_def)
  let ?A = "map (\<lambda>i. (log_block st i, V (f i))) [0..<n]"
  have lb: "log_block st i \<noteq> st" if "i < n" for i using log_block_start [OF s, of i] that n by simp
  have "log_wf st N E \<and> (m \<notin> log_area st N \<longrightarrow> recovered st E m = (if n < k \<and> m \<in> f ` {..<n} then V m else D m))"
  proof (cases "k \<le> n")
    case True
    have E1: "E = apply_writes (take k ?A) D" using True unfolding E commit_writes_def by simp
    have sub: "fst ` set (take k ?A) \<subseteq> log_block st ` {..<n}" using set_take_subset [of k ?A] by fastforce
    have "E st = D st" unfolding E1 by (rule apply_writes_other) (use sub lb in fastforce)
    moreover have "E m = D m" if "m \<notin> log_area st N" unfolding E1
      by (rule apply_writes_other) (use sub that n in \<open>fastforce simp: log_area_def\<close>)
    moreover have "m \<notin> log_area st N \<Longrightarrow> m \<noteq> st" by (auto simp: log_area_def)
    ultimately show ?thesis using True D recovered_cleared [of E st m] by (simp add: log_wf_def)
  next
    case False
    define D' where "D' = apply_writes (?A @ [(st, h)]) D"
    have st: "D' st = h" by (simp add: D'_def)
    have dl: "distinct (map (log_block st) [0..<n])" using log_block_inj [OF s] n by (auto simp: distinct_map inj_on_def)
    have lbD: "D' (log_block st i) = V (f i)" if "i < n" for i
      using apply_writes_at [OF dl, of i "\<lambda>i. V (f i)" D] that lb [OF that] by (simp add: D'_def)
    have "distinct (map (head_block h) [0..<n])" using f(1) h(3) by (simp add: distinct_map inj_on_def)
    then have w: "log_wf st N D'" using D(1) n f h by (simp add: log_wf_def st)
    have "installs st D' = map (\<lambda>i. (f i, V (f i))) [0..<n]" using h(2,3) lbD by (simp add: installs_def st)
    then have c: "commit_writes st V n f h = (?A @ [(st, h)]) @ recover_writes st D'" by (simp add: commit_writes_def recover_writes_def st)
    have "take k (commit_writes st V n f h) = (?A @ [(st, h)]) @ take (k - Suc n) (recover_writes st D')" unfolding c using False by (simp add: take_Cons')
    then have E2: "E = apply_writes (take (k - Suc n) (recover_writes st D')) D'" unfolding E D'_def by simp
    have "recovered st D' m = (if m \<in> f ` {..<n} then V m else D m)" if m: "m \<notin> log_area st N"
    proof -
      have "D' m = D m" unfolding D'_def by (rule apply_writes_other) (use m n in \<open>auto simp: log_area_def\<close>)
      moreover have "head_block h i = f i" if "i \<in> set [0..<n]" for i using h(3) that by simp
      then have "List.find (\<lambda>i. head_block h i = m) [0..<n] = List.find (\<lambda>i. f i = m) [0..<n]" by (intro find_cong) auto
      ultimately have r: "recovered st D' m = (case List.find (\<lambda>i. f i = m) [0..<n] of Some i \<Rightarrow> D' (log_block st i) | None \<Rightarrow> D m)"
        using recovered_home [OF w m] h(2) by (simp add: st cong: option.case_cong)
      show ?thesis
      proof (cases "List.find (\<lambda>i. f i = m) [0..<n]")
        case None
        then have "m \<notin> f ` {..<n}" by (auto simp: find_None_iff)
        then show ?thesis using r None by simp
      next
        case (Some i)
        then have "i < n" "f i = m" by (auto simp: find_Some_iff)
        then show ?thesis using r Some lbD [of i] by auto
      qed
    qed
    then show ?thesis using crash_in_recovery [OF w E2] False by simp
  qed
  then show "log_wf st N E" "m \<notin> log_area st N \<Longrightarrow> recovered st E m = (if n < k \<and> m \<in> f ` {..<n} then V m else D m)" by blast+
qed

end
