(* ===== verification/Log.thy ===== *)
theory Log
  imports Bio_Props Wal
begin

text \<open>
  The write-ahead log, \<^verbatim>\<open>kernel/log.c\<close>. Block numbers are kept as 32-bit words, which is how every use of them reads
  the \<^verbatim>\<open>int\<close>s of the header. The calls to \<open>sleep\<close> in \<open>begin_op\<close> end in the outcome \<open>Sleep\<close>.
\<close>

section \<open>State\<close>

definition MAXOPBLOCKS :: int where "MAXOPBLOCKS = 10"
definition LOGSIZE :: int where "LOGSIZE = MAXOPBLOCKS * 3"

record superblock =
  magic :: u32
  sb_size :: u32
  nblocks :: u32
  ninodes :: u32
  nlog :: u32
  logstart :: u32
  inodestart :: u32
  bmapstart :: u32

record blog = vdisk +
  log_start :: u32
  log_size :: int
  outstanding :: int
  committing :: bool
  log_dev :: u32
  lh_n :: int
  lh_block :: "nat \<Rightarrow> u32"

section \<open>Operations\<close>

definition sizeof_logheader :: int where
  "sizeof_logheader = 4 + 4 * LOGSIZE"

fun install_trans_loop :: "bool \<Rightarrow> nat list \<Rightarrow> 'a blog_scheme \<Rightarrow> 'a blog_scheme res" where
  "install_trans_loop recovering [] s = Ok s"
| "install_trans_loop recovering (tail # ts) s =
     bind_res (bread (log_dev s) (log_start s + of_nat tail + 1) s) (\<lambda>(lbuf, s).
       bind_res (bread (log_dev s) (lh_block s tail) s) (\<lambda>(dbuf, s).
         bind_res (bwrite dbuf (put_data dbuf (bdata (bufs s lbuf)) s)) (\<lambda>s.
           bind_res (if \<not> recovering then bunpin dbuf s else Ok s) (\<lambda>s.
             bind_res (brelse lbuf s) (\<lambda>s.
               bind_res (brelse dbuf s) (install_trans_loop recovering ts))))))"

definition install_trans :: "bool \<Rightarrow> 'a blog_scheme \<Rightarrow> 'a blog_scheme res" where
  "install_trans recovering s = install_trans_loop recovering [0..<nat (lh_n s)] s"

fun head_entries :: "u8 list \<Rightarrow> nat list \<Rightarrow> (nat \<Rightarrow> u32) \<Rightarrow> nat \<Rightarrow> u32" where
  "head_entries d [] f = f"
| "head_entries d (i # is) f = head_entries d is (f(i := get32 (4 + 4 * i) d))"

definition read_head :: "'a blog_scheme \<Rightarrow> 'a blog_scheme res" where
  "read_head s =
     bind_res (bread (log_dev s) (log_start s) s) (\<lambda>(b, s).
       let d = bdata (bufs s b);
           s = s\<lparr>lh_n := sint (get32 0 d)\<rparr>;
           s = s\<lparr>lh_block := head_entries d [0..<nat (lh_n s)] (lh_block s)\<rparr>
       in brelse b s)"

fun put_entries :: "(nat \<Rightarrow> u32) \<Rightarrow> nat list \<Rightarrow> u8 list \<Rightarrow> u8 list" where
  "put_entries f [] d = d"
| "put_entries f (i # is) d = put_entries f is (put32 (4 + 4 * i) (f i) d)"

definition write_head :: "'a blog_scheme \<Rightarrow> 'a blog_scheme res" where
  "write_head s =
     bind_res (bread (log_dev s) (log_start s) s) (\<lambda>(b, s).
       let d = put32 0 (of_int (lh_n s)) (bdata (bufs s b))
       in bind_res (bwrite b (put_data b (put_entries (lh_block s) [0..<nat (lh_n s)] d) s)) (brelse b))"

definition recover_from_log :: "'a blog_scheme \<Rightarrow> 'a blog_scheme res" where
  "recover_from_log s =
     bind_res (read_head s) (\<lambda>s.
       bind_res (install_trans True s) (\<lambda>s.
         write_head (s\<lparr>lh_n := 0\<rparr>)))"

definition initlog :: "u32 \<Rightarrow> superblock \<Rightarrow> 'a blog_scheme \<Rightarrow> 'a blog_scheme res" where
  "initlog dev sb s =
     (if sizeof_logheader \<ge> int BSIZE then Panic ''initlog: too big logheader''
      else recover_from_log ((initlock L_log ''log'' s)\<lparr>log_start := logstart sb, log_size := sint (nlog sb), log_dev := dev\<rparr>))"

definition begin_op :: "'a blog_scheme \<Rightarrow> 'a blog_scheme res" where
  "begin_op s =
     bind_res (acquire L_log s) (\<lambda>s.
       if committing s then Sleep
       else if lh_n s + (outstanding s + 1) * MAXOPBLOCKS > LOGSIZE then Sleep
       else release L_log (s\<lparr>outstanding := outstanding s + 1\<rparr>))"

fun write_log_loop :: "nat list \<Rightarrow> 'a blog_scheme \<Rightarrow> 'a blog_scheme res" where
  "write_log_loop [] s = Ok s"
| "write_log_loop (tail # ts) s =
     bind_res (bread (log_dev s) (log_start s + of_nat tail + 1) s) (\<lambda>(to, s).
       bind_res (bread (log_dev s) (lh_block s tail) s) (\<lambda>(from, s).
         bind_res (bwrite to (put_data to (bdata (bufs s from)) s)) (\<lambda>s.
           bind_res (brelse from s) (\<lambda>s.
             bind_res (brelse to s) (write_log_loop ts)))))"

definition write_log :: "'a blog_scheme \<Rightarrow> 'a blog_scheme res" where
  "write_log s = write_log_loop [0..<nat (lh_n s)] s"

definition commit :: "'a blog_scheme \<Rightarrow> 'a blog_scheme res" where
  "commit s =
     (if lh_n s > 0
      then bind_res (write_log s) (\<lambda>s.
             bind_res (write_head s) (\<lambda>s.
               bind_res (install_trans False s) (\<lambda>s.
                 write_head (s\<lparr>lh_n := 0\<rparr>))))
      else Ok s)"

definition end_op :: "'a blog_scheme \<Rightarrow> 'a blog_scheme res" where
  "end_op s =
     bind_res (acquire L_log s) (\<lambda>s.
       let s = s\<lparr>outstanding := outstanding s - 1\<rparr> in
       if committing s then Panic ''log.committing''
       else if outstanding s = 0
       then bind_res (release L_log (s\<lparr>committing := True\<rparr>)) (\<lambda>s.
              bind_res (commit s) (\<lambda>s.
                bind_res (acquire L_log s) (\<lambda>s.
                  bind_res (wakeup Ch_log (s\<lparr>committing := False\<rparr>)) (release L_log))))
       else bind_res (wakeup Ch_log s) (release L_log))"

fun log_find :: "(nat \<Rightarrow> u32) \<Rightarrow> u32 \<Rightarrow> nat list \<Rightarrow> nat \<Rightarrow> nat" where
  "log_find f b [] n = n"
| "log_find f b (i # is) n = (if f i = b then i else log_find f b is n)"

definition log_write :: "nat \<Rightarrow> 'a blog_scheme \<Rightarrow> 'a blog_scheme res" where
  "log_write b s =
     bind_res (acquire L_log s) (\<lambda>s.
       if lh_n s \<ge> LOGSIZE \<or> lh_n s \<ge> log_size s - 1 then Panic ''too big a transaction''
       else if outstanding s < 1 then Panic ''log_write outside of trans''
       else
         let bn = blockno (bufs s b);
             n = nat (lh_n s);
             i = log_find (lh_block s) bn [0..<n] n;
             s = s\<lparr>lh_block := (lh_block s)(i := bn)\<rparr>
         in bind_res (if i = n then bind_res (bpin b s) (\<lambda>s. Ok (s\<lparr>lh_n := lh_n s + 1\<rparr>)) else Ok s) (release L_log))"

end
