(* ===== verification/Log_Copy.thy ===== *)
theory Log_Copy
  imports Log
begin

text \<open>
  What one step of the log's loops does: two blocks are read, the contents of one are written to the other, and both
  buffers are released. The lemmas give the effect on the client's view of the cache.
\<close>

lemma log_fields:
  assumes "vdisk.more t = vdisk.more s"
  shows "log_start t = log_start s" "log_size t = log_size s" "outstanding t = outstanding s" "committing t = committing s"
    "log_dev t = log_dev s" "lh_n t = lh_n s" "lh_block t = lh_block s"
  using assms by (cases s; cases t; simp)+

lemma read_two:
  fixes s :: "'a vdisk_scheme"
  assumes "cache_inv s L d" "x \<noteq> y" "\<not> bheld s d x" "\<not> bheld s d y" "unat x < 2 ^ 31" "unat y < 2 ^ 31"
    and "brefs s d x + 1 < 2 ^ 32" "brefs s d y + 1 < 2 ^ 32"
    and "brefs s d x \<noteq> 0 \<or> bused s < NBUF" "brefs s d y \<noteq> 0 \<or> bused s + (if brefs s d x = 0 then 1 else 0) < NBUF"
  obtains a b u t where "bread d x s = Ok (a, u)" "bread d y u = Ok (b, t)" "cache_inv t L d" "mine t d x a" "mine t d y b" "untouched s u" "untouched s t"
    "bview t d = bview s d" "dblk t = dblk s" "written t = written s"
    "brefs t d = (brefs s d)(x := brefs s d x + 1, y := brefs s d y + 1)" "bheld t d = (bheld s d)(x := True, y := True)"
    "bused t = bused s + (if brefs s d x = 0 then 1 else 0) + (if brefs s d y = 0 then 1 else 0)"
    "bdata (bufs t a) = bview s d x" "bdata (bufs t b) = bview s d y"
proof -
  obtain a u where u: "bread d x s = Ok (a, u)" "cache_inv u L d" "bread_post a d x s u" by (rule bread_law [OF assms(1,3,9,5,7)])
  have U: "bview u d = bview s d" "brefs u d = (brefs s d)(x := brefs s d x + 1)" "bheld u d = (bheld s d)(x := True)"
    "bused u = bused s + (if brefs s d x = 0 then 1 else 0)" "medium u = medium s" "written u = written s" "untouched s u"
    using u(3) by (simp_all add: bread_post_def)
  obtain b t where t: "bread d y u = Ok (b, t)" "cache_inv t L d" "bread_post b d y u t"
    by (rule bread_law [OF u(2) _ _ assms(6)]) (use U assms(2,4,8,10) in auto)
  have T: "bview t d = bview u d" "brefs t d = (brefs u d)(y := brefs u d y + 1)" "bheld t d = (bheld u d)(y := True)"
    "bused t = bused u + (if brefs u d y = 0 then 1 else 0)" "medium t = medium u" "written t = written u" "untouched u t" "bdata (bufs t b) = bview u d y"
    using t(3) by (simp_all add: bread_post_def)
  have a: "mine u d x a" and b: "mine t d y b" using bread_post_mine u(2,3) t(2,3) by blast+
  have h: "\<not> bheld u d y" "brefs u d y \<noteq> 0 \<or> bused u < NBUF" using U assms(2,4,10) by auto
  obtain b' t' z where "bread d y u = Ok (b', t')" "got L d y b' u z" "\<not> slocked (sleeplocks u (L_buf b'))"
    by (rule bread_run [OF u(2) h assms(6)])
  then have ne: "a \<noteq> b" using t(1) a by (auto simp: mine_def)
  have ab: "bufs t a = bufs u a" "sleeplocks t (L_buf a) = sleeplocks u (L_buf a)" using t(3) ne by (auto simp: bread_post_def)
  then have "mine t d x a" using a untouched_mypid [OF T(7)] by (simp add: mine_def holds_block_def)
  moreover have "dblk t = dblk s" by (rule dblk_medium) (simp add: U(5) T(5))
  moreover have "bdata (bufs t a) = bview s d x" using ab u(3) by (simp add: bread_post_def)
  ultimately show ?thesis using that [OF u(1) t(1,2) _ b U(7)] T U assms(2) untouched_trans [OF U(7) T(7)] by simp
qed

lemma mine_after:
  "mine s d n b \<Longrightarrow> bufs t b = bufs s b \<Longrightarrow> sleeplocks t (L_buf b) = sleeplocks s (L_buf b) \<Longrightarrow> untouched s t \<Longrightarrow> mine t d n b"
  using untouched_mypid [of s t] by (simp add: mine_def holds_block_def)

lemma mine_inj: "mine s d m a \<Longrightarrow> mine s d n b \<Longrightarrow> m \<noteq> n \<Longrightarrow> a \<noteq> b"
  by (auto simp: mine_def holds_block_def)

lemma brelse_other:
  assumes "mine s d m b" "mine s d n a" "m \<noteq> n" "untouched s t" "\<And>m c. holds_block t d m c = holds_block s d m c"
    and "sleeplocks t = (sleeplocks s)(L_buf a := k)"
  shows "mine t d m b"
  using assms(1,5,6) mine_inj [OF assms(1-3)] untouched_mypid [OF assms(4)] by (auto simp: mine_def)

lemma copy_tail:
  fixes s :: "'a vdisk_scheme"
  assumes "cache_inv s L d" "mine s d m a" "mine s d n b" "m \<noteq> n" "unat n < 2 ^ 31"
    and "brefs s d m = 1 \<Longrightarrow> bview s d m = dblk s m" "p \<Longrightarrow> brefs s d n > 1"
  obtains u v w t L' where "bwrite b (put_data b (bdata (bufs s a)) s) = Ok u" "(if p then bunpin b u else Ok u) = Ok v"
    "brelse a v = Ok w" "brelse b w = Ok t" "untouched s t" "cache_inv t L' d" "bview t d = (bview s d)(n := bview s d m)"
    "dblk t = (dblk s)(n := bview s d m)" "written t = written s @ [(unat n, bview s d m)]"
    "brefs t d = (brefs s d)(m := brefs s d m - 1, n := brefs s d n - (if p then 2 else 1))" "bheld t d = (bheld s d)(m := False, n := False)"
    "bused t = bused s - (if brefs s d m = 1 then 1 else 0) - (if brefs s d n = (if p then 2 else 1) then 1 else 0)"
proof -
  let ?v = "bdata (bufs s a)" and ?x = "put_data b (bdata (bufs s a)) s"
  have A: "?v = bview s d m" "length ?v = BSIZE" using mine_facts [OF assms(1,2)] by simp_all
  note P = put_data_law [OF assms(1,3) A(2)]
  obtain u where u: "bwrite b ?x = Ok u" "cache_inv u L d" "untouched ?x u" "bufs u = bufs ?x"
    "sleeplocks u = sleeplocks ?x" "dblk u = (dblk ?x)(n := bview ?x d n)"
    "written u = written ?x @ [(unat n, bview ?x d n)]" "bview u d = bview ?x d"
    by (rule bwrite_law [OF P(1,2) assms(5)])
  have ne: "a \<noteq> b" by (rule mine_inj [OF assms(2,3,4)])
  have ax: "mine ?x d m a" by (rule mine_after [OF assms(2) _ _ P(9)]) (use ne in \<open>simp_all add: put_data_def set_buf_def\<close>)
  have um: "mine u d m a" "mine u d n b" using mine_after [OF ax _ _ u(3)] mine_after [OF P(2) _ _ u(3)] u(4,5) by simp_all
  have U: "bview u d = (bview s d)(n := bview s d m)" "dblk u = (dblk s)(n := bview s d m)" "written u = written s @ [(unat n, bview s d m)]"
    "brefs u d = brefs s d" "bheld u d = bheld s d" "bused u = bused s" "untouched s u"
    using u(6-8) P same_cache [OF u(4,5)] A(1) untouched_trans [OF P(9) u(3)] by simp_all
  obtain v where v: "(if p then bunpin b u else Ok u) = Ok v" "cache_inv v L d" "untouched u v" "mine v d m a" "mine v d n b" "bview v d = bview u d"
    "brefs v d = (if p then (brefs u d)(n := brefs u d n - 1) else brefs u d)" "bheld v d = bheld u d" "bused v = bused u" "dblk v = dblk u" "written v = written u"
  proof (cases p)
    case True
    obtain v where v: "bunpin b u = Ok v" "cache_inv v L d" "untouched u v" "mine v d n b" "sleeplocks v = sleeplocks u" "bview v d = bview u d"
      "brefs v d = (brefs u d)(n := brefs u d n - 1)" "bheld v d = bheld u d" "bused v = bused u" "medium v = medium u" "written v = written u"
      by (rule bunpin_law [OF u(2) um(2)]) (use U(4) assms(7) True in simp)
    have "v = set_buf b (\<lambda>x. x\<lparr>refcnt := refcnt x - 1\<rparr>) (masked_once u)" using v(1) pin_run(2) [OF u(2), of b] by simp
    then have "bufs v a = bufs u a" using ne by simp
    then have "mine v d m a" using mine_after [OF um(1) _ _ v(3)] v(5) by simp
    moreover have "dblk v = dblk u" by (rule dblk_medium) (simp add: v(10))
    ultimately show ?thesis using that [of v] v True by simp
  qed (use that [of u] u(2) um in simp)
  obtain w where w: "brelse a v = Ok w" "cache_inv w (if brefs v d m = 1 then a # removeAll a L else L) d" "untouched v w"
    "bview w d = bview v d" "brefs w d = (brefs v d)(m := brefs v d m - 1)" "bheld w d = (bheld v d)(m := False)"
    "bused w = (if brefs v d m = 1 then bused v - 1 else bused v)" "medium w = medium v" "written w = written v"
    "sleeplocks w = (sleeplocks v)(L_buf a := (sleeplocks v (L_buf a))\<lparr>slocked := False, spid := 0\<rparr>)" "\<And>m c. holds_block w d m c = holds_block v d m c"
    by (rule brelse_law [OF v(2,4)]) (use assms(4,6) v(6,7,10) U in \<open>simp_all split: if_splits\<close>)
  have wb: "mine w d n b" by (rule brelse_other [OF v(5,4) _ w(3,11,10)]) (use assms(4) in simp)
  have dw: "dblk w = dblk v" by (rule dblk_medium) (simp add: w(8))
  obtain t where t: "brelse b w = Ok t" "cache_inv t (if brefs w d n = 1 then b # removeAll b (if brefs v d m = 1 then a # removeAll a L else L) else (if brefs v d m = 1 then a # removeAll a L else L)) d"
    "untouched w t" "bview t d = bview w d" "brefs t d = (brefs w d)(n := brefs w d n - 1)" "bheld t d = (bheld w d)(n := False)"
    "bused t = (if brefs w d n = 1 then bused w - 1 else bused w)" "medium t = medium w" "written t = written w"
    by (rule brelse_law [OF w(2) wb]) (use w(4) v(6,10) U(1,2) dw in simp_all)
  have dt: "dblk t = dblk w" by (rule dblk_medium) (simp add: t(8))
  have ut: "untouched s t" using untouched_trans U(7) v(3) w(3) t(3) by metis
  have n1: "brefs w d n = brefs s d n - (if p then 1 else 0)" "brefs v d m = brefs s d m" using w(5) v(7) U(4) assms(4) by (auto split: if_splits)
  have "brefs t d = (brefs s d)(m := brefs s d m - 1, n := brefs s d n - (if p then 2 else 1))"
    using t(5) w(5) v(7) U(4) assms(4) by (auto simp: fun_eq_iff)
  moreover have "bused t = bused s - (if brefs s d m = 1 then 1 else 0) - (if brefs s d n = (if p then 2 else 1) then 1 else 0)"
    using t(7) w(7) v(9) U(6) n1 by auto
  ultimately show ?thesis using that [OF u(1) v(1) w(1) t(1) ut t(2)] t(4,6,9) w(4,6,9) v(6,8,10,11) U dt dw by simp
qed

end
