(* ===== verification/Log_Run.thy ===== *)
theory Log_Run
  imports Log_Copy
begin

text \<open>The loops of the log over a cache nobody else is using: which blocks they write, and what they leave in the cache.\<close>

definition idle_cache :: "'a vdisk_scheme \<Rightarrow> u32 \<Rightarrow> bool" where
  "idle_cache s d \<longleftrightarrow> (\<exists>L. cache_inv s L d) \<and> (\<forall>n. \<not> bheld s d n)"

lemma copy_run:
  fixes s :: "'a vdisk_scheme"
  assumes "idle_cache s d" "x \<noteq> y" "unat x < 2 ^ 31" "unat y < 2 ^ 31" "brefs s d x = 0" "bview s d x = dblk s x" "brefs s d y + 1 < 2 ^ 32"
    and "bused s + 2 \<le> NBUF \<or> bused s < NBUF \<and> brefs s d y \<noteq> 0" "p \<Longrightarrow> brefs s d y \<noteq> 0"
  obtains a s1 b s2 u v w t where "bread d x s = Ok (a, s1)" "bread d y s1 = Ok (b, s2)" "bwrite b (put_data b (bdata (bufs s2 a)) s2) = Ok u"
    "(if p then bunpin b u else Ok u) = Ok v" "brelse a v = Ok w" "brelse b w = Ok t" "untouched s s1" "untouched s s2" "untouched s t" "idle_cache t d"
    "bview t d = (bview s d)(y := bview s d x)" "dblk t = (dblk s)(y := bview s d x)" "written t = written s @ [(unat y, bview s d x)]"
    "brefs t d = (if p then (brefs s d)(y := brefs s d y - 1) else brefs s d)" "bused t \<le> bused s"
proof -
  obtain L where L: "cache_inv s L d" and H: "\<not> bheld s d n" for n using assms(1) by (auto simp: idle_cache_def)
  obtain a b s1 s2 where r: "bread d x s = Ok (a, s1)" "bread d y s1 = Ok (b, s2)" "cache_inv s2 L d" "mine s2 d x a" "mine s2 d y b" "untouched s s1" "untouched s s2"
    "bview s2 d = bview s d" "dblk s2 = dblk s" "written s2 = written s"
    "brefs s2 d = (brefs s d)(x := brefs s d x + 1, y := brefs s d y + 1)" "bheld s2 d = (bheld s d)(x := True, y := True)"
    "bused s2 = bused s + (if brefs s d x = 0 then 1 else 0) + (if brefs s d y = 0 then 1 else 0)"
    by (rule read_two [OF L assms(2) H H assms(3,4) _ assms(7)]) (use assms(5,8) in auto)
  obtain u v w t L' where c: "bwrite b (put_data b (bdata (bufs s2 a)) s2) = Ok u" "(if p then bunpin b u else Ok u) = Ok v"
    "brelse a v = Ok w" "brelse b w = Ok t" "untouched s2 t" "cache_inv t L' d" "bview t d = (bview s2 d)(y := bview s2 d x)"
    "dblk t = (dblk s2)(y := bview s2 d x)" "written t = written s2 @ [(unat y, bview s2 d x)]"
    "brefs t d = (brefs s2 d)(x := brefs s2 d x - 1, y := brefs s2 d y - (if p then 2 else 1))" "bheld t d = (bheld s2 d)(x := False, y := False)"
    "bused t = bused s2 - (if brefs s2 d x = 1 then 1 else 0) - (if brefs s2 d y = (if p then 2 else 1) then 1 else 0)"
    by (rule copy_tail [OF r(3-5) assms(2,4), of p]) (use r(8,9,11) assms(2,6,9) in auto)
  have "idle_cache t d" using c(6,11) r(12) H by (auto simp: idle_cache_def)
  moreover have "brefs t d = (if p then (brefs s d)(y := brefs s d y - 1) else brefs s d)" using c(10) r(11) assms(2,9) by (auto simp: fun_eq_iff)
  moreover have "bused t \<le> bused s" using c(12) r(11,13) assms(2,5,9) by auto
  ultimately show ?thesis using that [OF r(1,2) c(1-4) r(6,7) untouched_trans [OF r(7) c(5)]] c(7-9) r(8-10) by simp
qed

text \<open>The same with the first block as the target, and a second block that is pinned.\<close>

lemma copy_back_run:
  fixes s :: "'a vdisk_scheme"
  assumes "idle_cache s d" "x \<noteq> y" "unat x < 2 ^ 31" "unat y < 2 ^ 31" "brefs s d x = 0" "brefs s d y + 1 < 2 ^ 32" "bused s < NBUF" "brefs s d y \<noteq> 0"
  obtains a s1 b s2 u w t where "bread d x s = Ok (a, s1)" "bread d y s1 = Ok (b, s2)" "bwrite a (put_data a (bdata (bufs s2 b)) s2) = Ok u"
    "brelse b u = Ok w" "brelse a w = Ok t" "untouched s s1" "untouched s s2" "untouched s t" "idle_cache t d"
    "bview t d = (bview s d)(x := bview s d y)" "dblk t = (dblk s)(x := bview s d y)" "written t = written s @ [(unat x, bview s d y)]"
    "brefs t d = brefs s d" "bused t = bused s"
proof -
  obtain L where L: "cache_inv s L d" and H: "\<not> bheld s d n" for n using assms(1) by (auto simp: idle_cache_def)
  obtain a b s1 s2 where r: "bread d x s = Ok (a, s1)" "bread d y s1 = Ok (b, s2)" "cache_inv s2 L d" "mine s2 d x a" "mine s2 d y b" "untouched s s1" "untouched s s2"
    "bview s2 d = bview s d" "dblk s2 = dblk s" "written s2 = written s"
    "brefs s2 d = (brefs s d)(x := brefs s d x + 1, y := brefs s d y + 1)" "bheld s2 d = (bheld s d)(x := True, y := True)"
    "bused s2 = bused s + (if brefs s d x = 0 then 1 else 0) + (if brefs s d y = 0 then 1 else 0)"
    by (rule read_two [OF L assms(2) H H assms(3,4) _ assms(6)]) (use assms(5,7,8) in auto)
  have ne: "y \<noteq> x" using assms(2) by simp
  obtain u v w t L' where c: "bwrite a (put_data a (bdata (bufs s2 b)) s2) = Ok u" "(if False then bunpin a u else Ok u) = Ok v"
    "brelse b v = Ok w" "brelse a w = Ok t" "untouched s2 t" "cache_inv t L' d" "bview t d = (bview s2 d)(x := bview s2 d y)"
    "dblk t = (dblk s2)(x := bview s2 d y)" "written t = written s2 @ [(unat x, bview s2 d y)]"
    "brefs t d = (brefs s2 d)(y := brefs s2 d y - 1, x := brefs s2 d x - (if False then 2 else 1))" "bheld t d = (bheld s2 d)(y := False, x := False)"
    "bused t = bused s2 - (if brefs s2 d y = 1 then 1 else 0) - (if brefs s2 d x = (if False then 2 else 1) then 1 else 0)"
    by (rule copy_tail [OF r(3,5,4) ne assms(3), of False]) (use r(11) assms(2,8) in auto)
  have v: "v = u" using c(2) by simp
  have "idle_cache t d" using c(6,11) r(12) H by (auto simp: idle_cache_def)
  moreover have "brefs t d = brefs s d" using c(10) r(11) assms(2) by (auto simp: fun_eq_iff)
  moreover have "bused t = bused s" using c(12) r(11,13) assms(2,5,8) by auto
  ultimately show ?thesis using that [OF r(1,2) c(1) c(3,4) [unfolded v] r(6,7) untouched_trans [OF r(7) c(5)]] c(7-9) r(8-10) by simp
qed

lemma untouched_more: "untouched s t \<Longrightarrow> vdisk.more t = vdisk.more s"
  by (simp add: untouched_def)

lemmas untouched_log = log_fields [OF untouched_more]

section \<open>The loops\<close>

text \<open>What the loops need of the blocks of the transaction.\<close>

definition trans_ok :: "nat list \<Rightarrow> 'a blog_scheme \<Rightarrow> bool" where
  "trans_ok ts s \<longleftrightarrow> distinct (map (lh_block s) ts) \<and> distinct (map (log_block (log_start s)) ts) \<and>
     (\<forall>i \<in> set ts. \<forall>j \<in> set ts. log_block (log_start s) i \<noteq> lh_block s j) \<and>
     (\<forall>i \<in> set ts. unat (log_block (log_start s) i) < 2 ^ 31 \<and> unat (lh_block s i) < 2 ^ 31 \<and>
        brefs s (log_dev s) (log_block (log_start s) i) = 0 \<and> brefs s (log_dev s) (lh_block s i) + 1 < 2 ^ 32)"

definition installed :: "bool \<Rightarrow> nat list \<Rightarrow> 'a blog_scheme \<Rightarrow> 'a blog_scheme \<Rightarrow> bool" where
  "installed p ts s t \<longleftrightarrow> untouched s t \<and> idle_cache t (log_dev s) \<and>
     bview t (log_dev s) = apply_writes (map (\<lambda>i. (lh_block s i, bview s (log_dev s) (log_block (log_start s) i))) ts) (bview s (log_dev s)) \<and>
     dblk t = apply_writes (map (\<lambda>i. (lh_block s i, bview s (log_dev s) (log_block (log_start s) i))) ts) (dblk s) \<and>
     written t = written s @ map (\<lambda>i. (unat (lh_block s i), bview s (log_dev s) (log_block (log_start s) i))) ts \<and>
     brefs t (log_dev s) = (\<lambda>n. if p \<and> n \<in> lh_block s ` set ts then brefs s (log_dev s) n - 1 else brefs s (log_dev s) n) \<and> bused t \<le> bused s"

lemma install_loop_run:
  fixes s :: "'a blog_scheme"
  assumes "idle_cache s (log_dev s)" "trans_ok ts s" "\<forall>i \<in> set ts. bview s (log_dev s) (log_block (log_start s) i) = dblk s (log_block (log_start s) i)"
    and "if p then bused s < NBUF \<and> (\<forall>i \<in> set ts. brefs s (log_dev s) (lh_block s i) \<noteq> 0) else bused s + 2 \<le> NBUF"
  obtains t where "install_trans_loop (\<not> p) ts s = Ok t" "installed p ts s t"
  using assms
proof (induction ts arbitrary: s thesis)
  case Nil
  then show ?case by (simp add: installed_def)
next
  case (Cons i ts)
  let ?d = "log_dev s" and ?x = "log_block (log_start s) i" and ?y = "lh_block s i"
  have T: "?x \<noteq> ?y" "unat ?x < 2 ^ 31" "unat ?y < 2 ^ 31" "brefs s ?d ?x = 0" "brefs s ?d ?y + 1 < 2 ^ 32" using Cons.prems(3) by (simp_all add: trans_ok_def)
  have sp: "bused s + 2 \<le> NBUF \<or> bused s < NBUF \<and> brefs s ?d ?y \<noteq> 0" "p \<Longrightarrow> brefs s ?d ?y \<noteq> 0" using Cons.prems(5) by (auto split: if_splits)
  obtain a s1 b s2 u v w z where c: "bread ?d ?x s = Ok (a, s1)" "bread ?d ?y s1 = Ok (b, s2)" "bwrite b (put_data b (bdata (bufs s2 a)) s2) = Ok u"
    "(if p then bunpin b u else Ok u) = Ok v" "brelse a v = Ok w" "brelse b w = Ok z" "untouched s s1" "untouched s s2" "untouched s z" "idle_cache z ?d"
    "bview z ?d = (bview s ?d)(?y := bview s ?d ?x)" "dblk z = (dblk s)(?y := bview s ?d ?x)" "written z = written s @ [(unat ?y, bview s ?d ?x)]"
    "brefs z ?d = (if p then (brefs s ?d)(?y := brefs s ?d ?y - 1) else brefs s ?d)" "bused z \<le> bused s"
    by (rule copy_run [OF Cons.prems(2) T(1-4) _ T(5) sp]) (use Cons.prems(4) in auto)
  note l1 = untouched_log [OF c(7)] and lz = untouched_log [OF c(9)]
  have st: "install_trans_loop (\<not> p) (i # ts) s = install_trans_loop (\<not> p) ts z"
    using c(1-6) l1 by (simp add: log_block_def)
  have d0: "?y \<notin> lh_block s ` set ts" "\<forall>j \<in> set ts. log_block (log_start s) j \<noteq> ?y" using Cons.prems(3) by (simp_all add: trans_ok_def)
  have di: "lh_block s j \<noteq> ?y" "log_block (log_start s) j \<noteq> ?y" if "j \<in> set ts" for j using d0 that by (metis imageI)+
  have zk: "trans_ok ts z" using Cons.prems(3) c(14) di by (auto simp: trans_ok_def lz)
  obtain t where t: "install_trans_loop (\<not> p) ts z = Ok t" "installed p ts z t"
    by (rule Cons.IH [of z])
      (use c(10-12,14,15) Cons.prems(4,5) zk in \<open>auto simp: lz di split: if_splits\<close>)
  have bv: "bview z ?d (log_block (log_start s) j) = bview s ?d (log_block (log_start s) j)" if "j \<in> set ts" for j using c(11) di(2) [OF that] by simp
  have "brefs t ?d = (\<lambda>n. if p \<and> n \<in> lh_block s ` set (i # ts) then brefs s ?d n - 1 else brefs s ?d n)"
  proof
    fix n
    have "brefs t ?d n = (if p \<and> n \<in> lh_block s ` set ts then brefs z ?d n - 1 else brefs z ?d n)" using t(2) by (simp add: installed_def lz)
    then show "brefs t ?d n = (if p \<and> n \<in> lh_block s ` set (i # ts) then brefs s ?d n - 1 else brefs s ?d n)"
      using d0(1) c(14) by (cases "n = ?y") simp_all
  qed
  then have "installed p (i # ts) s t"
    using t(2) c(9,11-13,15) untouched_trans [OF c(9)] bv by (simp add: installed_def lz cong: map_cong)
  then show ?case using Cons.prems(1) st t(1) by simp
qed

definition logged :: "nat list \<Rightarrow> 'a blog_scheme \<Rightarrow> 'a blog_scheme \<Rightarrow> bool" where
  "logged ts s t \<longleftrightarrow> untouched s t \<and> idle_cache t (log_dev s) \<and>
     bview t (log_dev s) = apply_writes (map (\<lambda>i. (log_block (log_start s) i, bview s (log_dev s) (lh_block s i))) ts) (bview s (log_dev s)) \<and>
     dblk t = apply_writes (map (\<lambda>i. (log_block (log_start s) i, bview s (log_dev s) (lh_block s i))) ts) (dblk s) \<and>
     written t = written s @ map (\<lambda>i. (unat (log_block (log_start s) i), bview s (log_dev s) (lh_block s i))) ts \<and>
     brefs t (log_dev s) = brefs s (log_dev s) \<and> bused t = bused s"

lemma write_log_loop_run:
  fixes s :: "'a blog_scheme"
  assumes "idle_cache s (log_dev s)" "trans_ok ts s" "bused s < NBUF" "\<forall>i \<in> set ts. brefs s (log_dev s) (lh_block s i) \<noteq> 0"
  obtains t where "write_log_loop ts s = Ok t" "logged ts s t"
  using assms
proof (induction ts arbitrary: s thesis)
  case Nil
  then show ?case by (simp add: logged_def)
next
  case (Cons i ts)
  let ?d = "log_dev s" and ?x = "log_block (log_start s) i" and ?y = "lh_block s i"
  have T: "?x \<noteq> ?y" "unat ?x < 2 ^ 31" "unat ?y < 2 ^ 31" "brefs s ?d ?x = 0" "brefs s ?d ?y + 1 < 2 ^ 32" using Cons.prems(3) by (simp_all add: trans_ok_def)
  obtain a s1 b s2 u w z where c: "bread ?d ?x s = Ok (a, s1)" "bread ?d ?y s1 = Ok (b, s2)" "bwrite a (put_data a (bdata (bufs s2 b)) s2) = Ok u"
    "brelse b u = Ok w" "brelse a w = Ok z" "untouched s s1" "untouched s s2" "untouched s z" "idle_cache z ?d"
    "bview z ?d = (bview s ?d)(?x := bview s ?d ?y)" "dblk z = (dblk s)(?x := bview s ?d ?y)" "written z = written s @ [(unat ?x, bview s ?d ?y)]"
    "brefs z ?d = brefs s ?d" "bused z = bused s"
    by (rule copy_back_run [OF Cons.prems(2) T Cons.prems(4)]) (use Cons.prems(5) in auto)
  note l1 = untouched_log [OF c(6)] and lz = untouched_log [OF c(8)]
  have st: "write_log_loop (i # ts) s = write_log_loop ts z" using c(1-5) l1 by (simp add: log_block_def)
  have d0: "\<forall>j \<in> set ts. ?x \<noteq> lh_block s j" using Cons.prems(3) by (simp add: trans_ok_def)
  have zk: "trans_ok ts z" using Cons.prems(3) c(13) by (auto simp: trans_ok_def lz)
  obtain t where t: "write_log_loop ts z = Ok t" "logged ts z t"
    by (rule Cons.IH [of z]) (use c(9,13,14) Cons.prems(4,5) zk in \<open>auto simp: lz\<close>)
  have bv: "bview z ?d (lh_block s j) = bview s ?d (lh_block s j)" if "j \<in> set ts" for j using c(10) d0 that by auto
  have "logged (i # ts) s t"
    using t(2) c(8,10-14) untouched_trans [OF c(8)] bv by (simp add: logged_def lz cong: map_cong)
  then show ?case using Cons.prems(1) st t(1) by simp
qed

end
