(* ===== verification/Log_Commit.thy ===== *)
theory Log_Commit
  imports Log_Run
begin

text \<open>The header of the log, recovery and commit: the writes they perform, in order.\<close>

section \<open>Views\<close>

lemma clean_view: "cache_inv s L d \<Longrightarrow> brefs s d n = 0 \<Longrightarrow> bview s d n = dblk s n"
proof (cases "block_buf s d n")
  case (Some b)
  assume c: "cache_inv s L d" and r: "brefs s d n = 0"
  have "holds_block s d n b" by (rule block_buf_Some [OF Some])
  then show ?thesis using c r Some by (auto simp: bview_def brefs_def cache_inv_def buf_ok_def holds_block_def unat_eq_0)
qed (simp add: bview_def)

lemma bview_length: "cache_inv s L d \<Longrightarrow> length (bview s d n) = BSIZE"
proof (cases "block_buf s d n")
  case (Some b)
  assume c: "cache_inv s L d"
  have "holds_block s d n b" by (rule block_buf_Some [OF Some])
  then show ?thesis using c Some by (auto simp: bview_def cache_inv_def buf_ok_def holds_block_def dblk_def)
qed (simp add: bview_def dblk_def)

lemma idle_clean: "idle_cache s d \<Longrightarrow> brefs s d n = 0 \<Longrightarrow> bview s d n = dblk s n"
  using clean_view by (auto simp: idle_cache_def)

text \<open>The header in memory is no part of the cache.\<close>

lemma lh_upd [simp]:
  fixes s :: "'a blog_scheme"
  shows "cache_inv (s\<lparr>lh_n := x\<rparr>) L d = cache_inv s L d" "cache_inv (s\<lparr>lh_block := f\<rparr>) L d = cache_inv s L d"
    "bview (s\<lparr>lh_n := x\<rparr>) d = bview s d" "bview (s\<lparr>lh_block := f\<rparr>) d = bview s d"
    "brefs (s\<lparr>lh_n := x\<rparr>) d = brefs s d" "brefs (s\<lparr>lh_block := f\<rparr>) d = brefs s d"
    "bheld (s\<lparr>lh_n := x\<rparr>) d = bheld s d" "bheld (s\<lparr>lh_block := f\<rparr>) d = bheld s d"
    "dblk (s\<lparr>lh_n := x\<rparr>) = dblk s" "dblk (s\<lparr>lh_block := f\<rparr>) = dblk s" "bused (s\<lparr>lh_n := x\<rparr>) = bused s" "bused (s\<lparr>lh_block := f\<rparr>) = bused s"
    "mine (s\<lparr>lh_n := x\<rparr>) d n b = mine s d n b" "mine (s\<lparr>lh_block := f\<rparr>) d n b = mine s d n b"
  by (simp_all add: cache_inv_def lru_def vdisk_ok_def cpu_ok_def mycpu_def cpuid_def lock_free_def buf_ok_def dblk_def one_buf_def holds_block_def
      bview_def brefs_def bheld_def bused_def block_buf_def mine_def mypid_def fun_eq_iff cong: option.case_cong if_cong)

lemma idle_upd [simp]: "idle_cache (s\<lparr>lh_n := x\<rparr>) d = idle_cache s d" "idle_cache (s\<lparr>lh_block := f\<rparr>) d = idle_cache s d" for s :: "'a blog_scheme"
  by (simp_all add: idle_cache_def)

section \<open>The header\<close>

lemma head_entries_at: "head_entries h is f i = (if i \<in> set is then get32 (4 + 4 * i) h else f i)"
  by (induction "is" arbitrary: f) auto

lemma put_entries_length: "\<forall>i \<in> set is. 8 + 4 * i \<le> length h \<Longrightarrow> length (put_entries f is h) = length h"
  by (induction "is" arbitrary: h) auto

lemma put_entries_get:
  "\<forall>i \<in> set is. 8 + 4 * i \<le> length h \<Longrightarrow> 8 + 4 * j \<le> length h \<Longrightarrow>
   get32 (4 + 4 * j) (put_entries f is h) = (if j \<in> set is then f j else get32 (4 + 4 * j) h)"
proof (induction "is" arbitrary: h)
  case (Cons i "is")
  have "get32 (4 + 4 * j) (put32 (4 + 4 * i) (f i) h) = (if j = i then f j else get32 (4 + 4 * j) h)"
    using Cons.prems by (auto simp: get_put_same intro!: get_put_other)
  then show ?case using Cons by auto
qed simp

lemma put_entries_first: "\<forall>i \<in> set is. 8 + 4 * i \<le> length h \<Longrightarrow> 4 \<le> length h \<Longrightarrow> get32 0 (put_entries f is h) = get32 0 h"
proof (induction "is" arbitrary: h)
  case (Cons i "is")
  have "get32 0 (put32 (4 + 4 * i) (f i) h) = get32 0 h" by (rule get_put_other) (use Cons.prems in auto)
  then show ?case using Cons by auto
qed simp

text \<open>The header that \<open>write_head\<close> makes of the header \<open>h\<close> in the buffer.\<close>

definition new_head :: "nat \<Rightarrow> (nat \<Rightarrow> u32) \<Rightarrow> u8 list \<Rightarrow> u8 list" where
  "new_head n f h = put_entries f [0..<n] (put32 0 (of_nat n) h)"

lemma new_head_fields:
  assumes "4 + 4 * n \<le> length h" "n < 2 ^ 28"
  shows "length (new_head n f h) = length h" "head_n (new_head n f h) = n" "i < n \<Longrightarrow> head_block (new_head n f h) i = f i"
proof -
  have l: "\<forall>i \<in> set [0..<n]. 8 + 4 * i \<le> length (put32 0 (of_nat n) h)" using assms(1) by auto
  show "length (new_head n f h) = length h" using put_entries_length [OF l] assms(1) by (simp add: new_head_def)
  have "get32 0 (new_head n f h) = of_nat n" using put_entries_first [OF l] assms(1) by (simp add: new_head_def get_put_same)
  moreover have "sint (of_nat n :: u32) = int n" using assms(2) by (simp add: signed_of_nat signed_take_bit_int_eq_self)
  ultimately show "head_n (new_head n f h) = n" by (simp add: head_n_def)
  show "i < n \<Longrightarrow> head_block (new_head n f h) i = f i" using put_entries_get [OF l, of i] assms(1) by (simp add: new_head_def head_block_def)
qed

lemma new_head_0: "new_head 0 f h = put32 0 0 h"
  by (simp add: new_head_def)

definition head_written :: "'a blog_scheme \<Rightarrow> u8 list \<Rightarrow> 'a blog_scheme \<Rightarrow> bool" where
  "head_written s h t \<longleftrightarrow> untouched s t \<and> idle_cache t (log_dev s) \<and> bview t (log_dev s) = (bview s (log_dev s))(log_start s := h) \<and>
     dblk t = (dblk s)(log_start s := h) \<and> written t = written s @ [(unat (log_start s), h)] \<and>
     brefs t (log_dev s) = brefs s (log_dev s) \<and> bused t = bused s"

lemma write_head_run:
  fixes s :: "'a blog_scheme"
  assumes "idle_cache s (log_dev s)" "brefs s (log_dev s) (log_start s) = 0" "bused s < NBUF" "unat (log_start s) < 2 ^ 31"
    and "lh_n s = int n" "4 + 4 * n \<le> BSIZE" "n < 2 ^ 28"
  obtains t where "write_head s = Ok t" "head_written s (new_head n (lh_block s) (bview s (log_dev s) (log_start s))) t"
proof -
  let ?d = "log_dev s" and ?st = "log_start s"
  let ?h = "new_head n (lh_block s) (bview s ?d ?st)"
  obtain L where L: "cache_inv s L ?d" and H: "\<And>n. \<not> bheld s ?d n" using assms(1) by (auto simp: idle_cache_def)
  have len: "length ?h = BSIZE" using new_head_fields(1) [of n "bview s ?d ?st"] bview_length [OF L] assms(6,7) by simp
  obtain b t u w where w: "bread ?d ?st s = Ok (b, t)" "bwrite b (put_data b ?h t) = Ok u" "brelse b u = Ok w" "cache_inv w (b # removeAll b L) ?d"
    "dblk w = (dblk s)(?st := ?h)" "bview w ?d = (bview s ?d)(?st := ?h)" "written w = written s @ [(unat ?st, ?h)]"
    "brefs w ?d = brefs s ?d" "bheld w ?d = bheld s ?d" "bused w = bused s" "untouched s w" "bdata (bufs t b) = bview s ?d ?st" "untouched s t"
    by (rule write_through [OF L H assms(2-4) len])
  have "write_head s = Ok w" using w(1-3,12) untouched_log [OF w(13)] assms(5) by (simp add: write_head_def new_head_def Let_def)
  moreover have "idle_cache w ?d" using w(4,9) H by (auto simp: idle_cache_def)
  ultimately show ?thesis using that w by (simp add: head_written_def)
qed

lemma read_head_run:
  fixes s :: "'a blog_scheme"
  assumes "idle_cache s (log_dev s)" "brefs s (log_dev s) (log_start s) = 0" "bused s < NBUF" "unat (log_start s) < 2 ^ 31"
  obtains t where "read_head s = Ok t" "idle_cache t (log_dev s)" "bview t (log_dev s) = bview s (log_dev s)" "dblk t = dblk s" "written t = written s"
    "brefs t (log_dev s) = brefs s (log_dev s)" "bused t = bused s" "log_dev t = log_dev s" "log_start t = log_start s"
    "lh_n t = sint (get32 0 (dblk s (log_start s)))" "\<And>i. i < head_n (dblk s (log_start s)) \<Longrightarrow> lh_block t i = head_block (dblk s (log_start s)) i"
proof -
  let ?d = "log_dev s" and ?st = "log_start s" and ?h = "dblk s (log_start s)"
  obtain L where L: "cache_inv s L ?d" and H: "\<And>n. \<not> bheld s ?d n" using assms(1) by (auto simp: idle_cache_def)
  obtain b u where u: "bread ?d ?st s = Ok (b, u)" "cache_inv u L ?d" "bread_post b ?d ?st s u"
    by (rule bread_law [OF L H _ assms(4)]) (use assms(2,3) in auto)
  have m: "mine u ?d ?st b" by (rule bread_post_mine [OF u(3,2)])
  have c: "bview s ?d ?st = ?h" by (rule idle_clean [OF assms(1,2)])
  have U: "bview u ?d = bview s ?d" "brefs u ?d = (brefs s ?d)(?st := 1)" "bheld u ?d = (bheld s ?d)(?st := True)" "bused u = bused s + 1"
    "medium u = medium s" "written u = written s" "bdata (bufs u b) = ?h" "untouched s u"
    using u(3) assms(2) c by (simp_all add: bread_post_def)
  have du: "dblk u = dblk s" by (rule dblk_medium) (simp add: U(5))
  define v where "v = u\<lparr>lh_n := sint (get32 0 ?h), lh_block := head_entries ?h [0..<head_n ?h] (lh_block u)\<rparr>"
  have V: "cache_inv v L ?d" "mine v ?d ?st b" "bview v ?d = bview s ?d" "brefs v ?d = brefs u ?d" "bheld v ?d = bheld u ?d" "bused v = bused u" "dblk v = dblk s" "written v = written s"
    using u(2) m U(1,6) du by (simp_all add: v_def)
  obtain t where t: "brelse b v = Ok t" "cache_inv t (if brefs v ?d ?st = 1 then b # removeAll b L else L) ?d" "untouched v t"
    "bview t ?d = bview v ?d" "brefs t ?d = (brefs v ?d)(?st := brefs v ?d ?st - 1)" "bheld t ?d = (bheld v ?d)(?st := False)"
    "bused t = (if brefs v ?d ?st = 1 then bused v - 1 else bused v)" "medium t = medium v" "written t = written v"
    by (rule brelse_law [OF V(1,2)]) (use V(3,7) c in simp)
  have "read_head s = Ok t" using u(1) t(1) U(7) by (simp add: read_head_def Let_def v_def head_n_def)
  moreover have "idle_cache t ?d" using t(2,6) V(5) U(3) H by (auto simp: idle_cache_def)
  moreover have "dblk t = dblk s" by (rule dblk_medium) (simp add: t(8) v_def U(5))
  moreover have "brefs t ?d = brefs s ?d" "bused t = bused s" using t(5,7) V(4,6) U(2,4) assms(2) by (auto simp: fun_eq_iff)
  ultimately show ?thesis using that t(4,9) V(3,8) untouched_log [OF t(3)] untouched_log [OF U(8)]
    by (auto simp: v_def head_entries_at head_block_def)
qed

section \<open>Recovery\<close>

definition as_written :: "(u32 \<times> u8 list) list \<Rightarrow> (nat \<times> u8 list) list" where
  "as_written ws = map (\<lambda>(n, v). (unat n, v)) ws"

text \<open>A machine that has just come up with the disk \<open>D\<close>: nothing of it is in use.\<close>

definition fresh_log :: "'a blog_scheme \<Rightarrow> u32 \<Rightarrow> u32 \<Rightarrow> (u32 \<Rightarrow> u8 list) \<Rightarrow> bool" where
  "fresh_log s st d D \<longleftrightarrow> idle_cache s d \<and> (\<forall>n. brefs s d n = 0) \<and> bused s = 0 \<and> log_start s = st \<and> log_dev s = d \<and> dblk s = D"

lemma trans_of_log:
  assumes "log_wf st N D" "n = head_n (D st)" "log_start s = st" "\<And>i. i < n \<Longrightarrow> lh_block s i = head_block (D st) i"
    and "\<forall>m. brefs s (log_dev s) m = 0"
  shows "trans_ok [0..<n] s"
proof -
  have w: "unat st + N + 1 < 2 ^ 31" "n \<le> N" "distinct (map (head_block (D st)) [0..<n])" "\<forall>i < n. head_block (D st) i \<notin> log_area st N \<and> unat (head_block (D st) i) < 2 ^ 31"
    using assms(1,2) by (simp_all add: log_wf_def)
  have "distinct (map (lh_block s) [0..<n])" using w(3) assms(4) by (simp add: distinct_map inj_on_def)
  moreover have "distinct (map (log_block st) [0..<n])" using log_block_inj [OF w(1)] w(2) by (auto simp: distinct_map inj_on_def)
  moreover have "log_block st i \<noteq> lh_block s j" if "i < n" "j < n" for i j
    using w(2,4) that assms(4) [OF that(2)] in_log_area(1) [of i N st] by auto
  moreover have "unat (log_block st i) < 2 ^ 31" if "i < n" for i using log_block_unat [OF w(1), of i] w(1,2) that by simp
  ultimately show ?thesis using assms(3-5) w(4) by (simp add: trans_ok_def)
qed

lemma recover_run:
  fixes s :: "'a blog_scheme"
  assumes "fresh_log s st d D" "log_wf st N D" "4 + 4 * N \<le> BSIZE"
  obtains t where "recover_from_log s = Ok t" "fresh_log t st d (recovered st D)" "written t = written s @ as_written (recover_writes st D)" "lh_n t = 0"
proof -
  have F: "idle_cache s d" "\<And>n. brefs s d n = 0" "bused s = 0" "log_start s = st" "log_dev s = d" "dblk s = D" using assms(1) by (simp_all add: fresh_log_def)
  have N: "bused s < NBUF" "NBUF = 30" by (simp_all add: F(3) NBUF_def)
  have st: "unat st < 2 ^ 31" using assms(2) by (simp add: log_wf_def)
  obtain r where r: "read_head s = Ok r" "idle_cache r d" "bview r d = bview s d" "dblk r = D" "written r = written s" "brefs r d = brefs s d" "bused r = bused s"
    "log_dev r = d" "log_start r = st" "lh_n r = sint (get32 0 (D st))" "\<And>i. i < head_n (D st) \<Longrightarrow> lh_block r i = head_block (D st) i"
    by (rule read_head_run [of s, unfolded F(4-6)]) (use F st N in simp_all)
  let ?n = "head_n (D st)"
  have cl: "bview r d m = D m" for m using idle_clean [OF r(2), of m] F(2) r(4,6) by simp
  have tk: "trans_ok [0..<?n] r" by (rule trans_of_log [OF assms(2) refl r(9,11)]) (use r(6,8) F(2) in auto)
  obtain u where u: "install_trans_loop (\<not> False) [0..<?n] r = Ok u" "installed False [0..<?n] r u"
    by (rule install_loop_run [of r "[0..<?n]" False]) (use r tk cl N F(3) in auto)
  have mp: "map (\<lambda>i. (lh_block r i, bview r (log_dev r) (log_block (log_start r) i))) [0..<?n] = installs st D"
    using r(8,9,11) cl by (simp add: installs_def)
  have "map (\<lambda>i. (unat (lh_block r i), bview r (log_dev r) (log_block (log_start r) i))) [0..<?n] = as_written (installs st D)"
    unfolding mp [symmetric] as_written_def by simp
  then have U: "idle_cache u d" "bview u d = apply_writes (installs st D) (bview r d)" "dblk u = apply_writes (installs st D) D"
    "written u = written s @ as_written (installs st D)" "brefs u d = brefs s d" "bused u \<le> 0" "log_dev u = d" "log_start u = st"
    using u(2) mp r F(3) untouched_log [of r u] by (simp_all add: installed_def)
  have "D st = apply_writes (take (length (installs st D)) (installs st D)) D st" using installs_log [OF assms(2), of st] in_log_area(2) by metis
  then have hd: "dblk u st = D st" using U(3) by simp
  have "bview u d = dblk u" using idle_clean [OF U(1)] F(2) U(5) by auto
  then have vh: "bview u d st = D st" using hd by simp
  obtain t where t: "write_head (u\<lparr>lh_n := 0\<rparr>) = Ok t" "head_written (u\<lparr>lh_n := 0\<rparr>) (new_head 0 (lh_block u) (D st)) t"
    by (rule write_head_run [of "u\<lparr>lh_n := 0\<rparr>" 0]) (use U F(2) st N vh in \<open>simp_all add: BSIZE_def\<close>)
  have "recover_from_log s = Ok t" using r(1,10) u(1) t(1) by (simp add: recover_from_log_def install_trans_def head_n_def)
  moreover have "lh_n t = 0" "log_start t = st" "log_dev t = d" using t(2) U(7,8) untouched_log [of "u\<lparr>lh_n := 0\<rparr>" t] by (simp_all add: head_written_def)
  moreover have "dblk t = recovered st D" "written t = written s @ as_written (recover_writes st D)" "brefs t d = brefs s d" "bused t = 0" "idle_cache t d"
    using t(2) U by (simp_all add: head_written_def new_head_0 recovered_def recover_writes_def as_written_def)
  ultimately show ?thesis using that F(2) by (simp add: fresh_log_def)
qed

section \<open>Commit\<close>

lemma apply_writes_fun: "apply_writes (map (\<lambda>i. (f i, V (f i))) xs) D m = (if m \<in> f ` set xs then V m else D m)"
  by (induction xs arbitrary: D) auto

text \<open>
  A transaction that may be committed: no operation is under way, its blocks are pinned and lie outside the log, the log
  on the disk is empty, and there is a buffer left to work with.
\<close>

definition commit_ready :: "'a blog_scheme \<Rightarrow> nat \<Rightarrow> nat \<Rightarrow> bool" where
  "commit_ready s N n \<longleftrightarrow> idle_cache s (log_dev s) \<and> lh_n s = int n \<and> 0 < n \<and> n \<le> N \<and> 4 + 4 * N \<le> BSIZE \<and> bused s < NBUF \<and>
     log_wf (log_start s) N (dblk s) \<and> head_n (dblk s (log_start s)) = 0 \<and> (\<forall>m \<in> log_area (log_start s) N. brefs s (log_dev s) m = 0) \<and>
     distinct (map (lh_block s) [0..<n]) \<and> (\<forall>i < n. lh_block s i \<notin> log_area (log_start s) N \<and> unat (lh_block s i) < 2 ^ 31 \<and>
       brefs s (log_dev s) (lh_block s i) \<noteq> 0 \<and> brefs s (log_dev s) (lh_block s i) + 1 < 2 ^ 32)"

lemma commit_ready_trans:
  assumes "commit_ready s N n"
  shows "trans_ok [0..<n] s"
proof -
  have w: "unat (log_start s) + N + 1 < 2 ^ 31" "n \<le> N" using assms by (simp_all add: commit_ready_def log_wf_def)
  have "distinct (map (log_block (log_start s)) [0..<n])" using log_block_inj [OF w(1)] w(2) by (auto simp: distinct_map inj_on_def)
  moreover have "log_block (log_start s) i \<noteq> lh_block s j" if "i < n" "j < n" for i j
    using assms that in_log_area(1) [of i N "log_start s"] by (force simp: commit_ready_def)
  moreover have "unat (log_block (log_start s) i) < 2 ^ 31" "brefs s (log_dev s) (log_block (log_start s) i) = 0" if "i < n" for i
    using assms log_block_unat [OF w(1), of i] w that in_log_area(1) [of i N "log_start s"] by (simp_all add: commit_ready_def)
  ultimately show ?thesis using assms by (simp add: trans_ok_def commit_ready_def)
qed

lemma commit_readyD:
  assumes "commit_ready s N n"
  shows "idle_cache s (log_dev s)" "lh_n s = int n" "0 < n" "n \<le> N" "4 + 4 * n \<le> BSIZE" "n < 2 ^ 28" "bused s < NBUF" "log_wf (log_start s) N (dblk s)"
    "head_n (dblk s (log_start s)) = 0" "m \<in> log_area (log_start s) N \<Longrightarrow> brefs s (log_dev s) m = 0" "distinct (map (lh_block s) [0..<n])"
    "i < n \<Longrightarrow> lh_block s i \<notin> log_area (log_start s) N" "i < n \<Longrightarrow> brefs s (log_dev s) (lh_block s i) \<noteq> 0" "unat (log_start s) < 2 ^ 31"
    "i < n \<Longrightarrow> log_block (log_start s) i \<noteq> log_start s"
proof -
  show st: "unat (log_start s) < 2 ^ 31" using assms by (simp add: commit_ready_def log_wf_def)
  have "unat (log_start s) + N + 1 < 2 ^ 31" "n \<le> N" using assms by (simp_all add: commit_ready_def log_wf_def)
  then show "i < n \<Longrightarrow> log_block (log_start s) i \<noteq> log_start s" using log_block_start by (meson less_le_trans)
qed (use assms in \<open>simp_all add: commit_ready_def BSIZE_def\<close>)

text \<open>The first half of a commit: the blocks go to the log, then the header.\<close>

lemma commit_log_run:
  fixes s :: "'a blog_scheme" and n :: nat
  defines "d \<equiv> log_dev s" and "st \<equiv> log_start s" and "f \<equiv> lh_block s" and "h \<equiv> new_head n (lh_block s) (dblk s (log_start s))"
  assumes "commit_ready s N n"
  defines "A \<equiv> map (\<lambda>i. (log_block st i, bview s d (f i))) [0..<n]"
  obtains a b where "write_log s = Ok a" "write_head a = Ok b" "idle_cache b d" "bview b d = (apply_writes A (bview s d))(st := h)"
    "dblk b = apply_writes (A @ [(st, h)]) (dblk s)" "written b = written s @ as_written (A @ [(st, h)])" "brefs b d = brefs s d" "bused b = bused s"
    "log_dev b = d" "log_start b = st" "lh_n b = int n" "lh_block b = f"
proof -
  note R = commit_readyD [OF assms(5)]
  obtain a where a: "write_log_loop [0..<n] s = Ok a" "logged [0..<n] s a"
    by (rule write_log_loop_run [OF R(1) commit_ready_trans [OF assms(5)] R(7)]) (use R(13) in auto)
  have U: "idle_cache a d" "bview a d = apply_writes A (bview s d)" "dblk a = apply_writes A (dblk s)" "written a = written s @ as_written A"
    "brefs a d = brefs s d" "bused a = bused s" "untouched s a"
    using a(2) by (simp_all add: logged_def d_def st_def f_def A_def as_written_def comp_def)
  have la: "log_dev a = d" "log_start a = st" "lh_n a = int n" "lh_block a = f" using untouched_log [OF U(7)] R(2) by (simp_all add: d_def st_def f_def)
  have "st \<notin> fst ` set A" using R(15) by (force simp: A_def st_def)
  moreover have r0: "brefs s d st = 0" using R(10) in_log_area(2) by (simp add: d_def st_def)
  ultimately have va: "bview a d st = dblk s st" using U(2) idle_clean [OF R(1)] by (simp add: d_def st_def apply_writes_other)
  have h: "h = new_head n f (bview a d st)" unfolding va by (simp add: h_def f_def st_def)
  obtain b where b: "write_head a = Ok b" "head_written a h b"
    unfolding h by (rule write_head_run [of a n, unfolded la]) (use U R(5-7,14) la r0 in \<open>simp_all add: st_def\<close>)
  have "untouched a b" using b(2) by (simp add: head_written_def)
  note lb = untouched_log [OF this]
  show ?thesis
    by (rule that [of a b]) (use a(1) b R(2) U lb la in \<open>simp_all add: write_log_def head_written_def as_written_def\<close>)
qed

lemma commit_run:
  fixes s :: "'a blog_scheme" and n :: nat
  defines "d \<equiv> log_dev s" and "st \<equiv> log_start s" and "f \<equiv> lh_block s" and "h \<equiv> new_head n (lh_block s) (dblk s (log_start s))"
  assumes "commit_ready s N n"
  obtains t where "commit s = Ok t" "written t = written s @ as_written (commit_writes st (bview s d) n f h)"
    "dblk t = apply_writes (commit_writes st (bview s d) n f h) (dblk s)" "idle_cache t d" "lh_n t = 0" "\<And>m. m \<notin> log_area st N \<Longrightarrow> bview t d m = bview s d m"
    "brefs t d = (\<lambda>m. if m \<in> f ` {..<n} then brefs s d m - 1 else brefs s d m)" "log_start t = st" "log_dev t = d"
proof -
  note R = commit_readyD [OF assms(5)]
  let ?V = "bview s d" and ?A = "map (\<lambda>i. (log_block st i, bview s d (f i))) [0..<n]" and ?B = "map (\<lambda>i. (f i, bview s d (f i))) [0..<n]"
  have ts: "trans_ok [0..<n] s" by (rule commit_ready_trans [OF assms(5)])
  obtain a b where ab: "write_log s = Ok a" "write_head a = Ok b" "idle_cache b d" "bview b d = (apply_writes ?A ?V)(st := h)"
    "dblk b = apply_writes (?A @ [(st, h)]) (dblk s)" "written b = written s @ as_written (?A @ [(st, h)])" "brefs b d = brefs s d" "bused b = bused s"
    "log_dev b = d" "log_start b = st" "lh_n b = int n" "lh_block b = f"
    using commit_log_run [OF assms(5)] unfolding d_def st_def f_def h_def by blast
  have ls: "log_block st i \<noteq> st" if "i < n" for i using R(15) that by (simp add: st_def)
  have dl: "distinct (map (log_block st) [0..<n])" using ts by (simp add: trans_ok_def st_def)
  have cp: "bview b d (log_block st i) = ?V (f i)" "dblk b (log_block st i) = ?V (f i)" if "i < n" for i
    using apply_writes_at [OF dl, of i "\<lambda>i. ?V (f i)"] that ls [OF that] by (simp_all add: ab(4,5))
  have tb: "trans_ok [0..<n] b" using ts ab(7,9,10,12) by (simp add: trans_ok_def d_def st_def f_def)
  obtain c where c: "install_trans_loop (\<not> True) [0..<n] b = Ok c" "installed True [0..<n] b c"
    by (rule install_loop_run [of b "[0..<n]" True]) (use ab(3,7-12) R(7,13) tb cp in \<open>simp_all add: d_def f_def\<close>)
  have mp: "map (\<lambda>i. (f i, bview b d (log_block st i))) [0..<n] = ?B" "map (\<lambda>i. (unat (f i), bview b d (log_block st i))) [0..<n] = as_written ?B"
    using cp by (simp_all add: as_written_def)
  note ins = c(2) [unfolded installed_def ab(7,9,10,12) mp]
  have C: "idle_cache c d" "bview c d = apply_writes ?B (bview b d)" "dblk c = apply_writes ?B (dblk b)" "written c = written b @ as_written ?B"
    "brefs c d = (\<lambda>m. if m \<in> f ` {..<n} then brefs s d m - 1 else brefs s d m)" "bused c \<le> bused s" "untouched b c"
    using ins ab(7,8) by (simp_all add: lessThan_atLeast0)
  note lc = untouched_log [OF C(7), unfolded ab(9,10,12)]
  have s1: "st \<notin> fst ` set ?B" "brefs c d st = 0" using R(10,12) in_log_area(2) C(5) by (fastforce simp: f_def st_def d_def)+
  have vc: "bview c d st = h" using C(2) ab(4) apply_writes_other [OF s1(1)] by simp
  obtain t where t: "write_head (c\<lparr>lh_n := 0\<rparr>) = Ok t" "head_written (c\<lparr>lh_n := 0\<rparr>) (put32 0 0 h) t"
    by (rule write_head_run [of "c\<lparr>lh_n := 0\<rparr>" 0]) (use C(1,6) R(7,14) s1 lc vc in \<open>simp_all add: BSIZE_def new_head_0 st_def\<close>)
  have "commit s = Ok t" using ab(1,2,11) c(1) t(1) R(2,3) by (simp add: commit_def install_trans_def)
  moreover have "bview t d m = bview s d m" if m: "m \<notin> log_area st N" for m
  proof -
    have "m \<noteq> st" "m \<notin> fst ` set ?A" using m R(4) in_log_area(1) [of _ N st] in_log_area(2) [of st N] by auto
    then have "bview b d m = ?V m" "bview t d m = bview c d m" using ab(4) t(2) by (simp_all add: head_written_def lc apply_writes_other)
    then show ?thesis using C(2) apply_writes_fun [of f ?V "[0..<n]" "bview b d" m] by simp
  qed
  ultimately show ?thesis using that [of t] t(2) C ab(5,6) untouched_log [of "c\<lparr>lh_n := 0\<rparr>" t]
    by (simp add: head_written_def lc commit_writes_def as_written_def)
qed

end
