(* ===== verification/Log_Props.thy ===== *)
theory Log_Props
  imports Log_Commit
begin

text \<open>
  Properties of the log: a crash at any point of a commit leaves all of the transaction or nothing of it, \<open>log_write\<close>
  absorbs repeated writes of a block, and \<open>begin_op\<close> reserves the space of an operation.
\<close>

section \<open>Adding a block to the transaction\<close>

definition logged_blocks :: "'a blog_scheme \<Rightarrow> u32 list" where
  "logged_blocks s = map (lh_block s) [0..<nat (lh_n s)]"

lemma log_find_eq: "log_find f b is n = (case List.find (\<lambda>i. f i = b) is of Some i \<Rightarrow> i | None \<Rightarrow> n)"
  by (induction "is") auto

lemma cache_inv_enter:
  fixes s :: "'a vdisk_scheme"
  assumes "cache_inv s L d"
  shows "cache_inv (enter_state L_log s) L d" "mine (enter_state L_log s) e n b = mine s e n b" "masked_once (enter_state L_log s) = enter_state L_log s"
proof -
  have c: "cpu_ok s" using assms by (simp add: cache_inv_def vdisk_ok_def)
  let ?e = "enter_state L_log s"
  have e: "bufs ?e = bufs s" "medium ?e = medium s" "dfree ?e = dfree s" "dev_idx ?e = dev_idx s" "avail_idx ?e = avail_idx s" "used_idx ?e = used_idx s"
    "dused_idx ?e = dused_idx s" "\<And>l. l \<noteq> L_log \<Longrightarrow> locks ?e l = locks s l"
    by (simp_all add: enter_state_def lock_defs)
  have h: "cpu_ok ?e" "noff (mycpu ?e) \<noteq> 0" using c by (auto simp: cpu_ok_def enter_state_def lock_defs)
  show "cache_inv ?e L d" using assms h by (simp add: cache_inv_def vdisk_ok_def lru_def lock_free_def buf_ok_def dblk_def one_buf_def holds_block_def e)
  show "mine ?e e n b = mine s e n b" by (simp add: mine_def holds_block_def mypid_def e)
  show "masked_once ?e = ?e" by (rule masked_once_inside [OF h(2)])
qed

lemma masked_views:
  fixes s :: "'a vdisk_scheme"
  shows "cache_inv (masked_once s) L d = cache_inv s L d" "mine (masked_once s) d n b = mine s d n b" "bview (masked_once s) = bview s"
    "brefs (masked_once s) = brefs s" "bheld (masked_once s) = bheld s" "bused (masked_once s) = bused s" "dblk (masked_once s) = dblk s"
proof -
  have l: "lock_ctx s (masked_once s)" by (simp add: lock_ctx_def)
  have p: "mypid (masked_once s) = mypid s" by (rule untouched_mypid) simp
  show "cache_inv (masked_once s) L d = cache_inv s L d"
    by (simp add: cache_inv_def lru_def buf_ok_def one_buf_def holds_block_def dblk_def cproc_ctx [OF l] lock_ctx_free [OF l])
  show "mine (masked_once s) d n b = mine s d n b" by (simp add: mine_def holds_block_def p)
  show "bview (masked_once s) = bview s" "brefs (masked_once s) = brefs s" "bheld (masked_once s) = bheld s" "bused (masked_once s) = bused s" "dblk (masked_once s) = dblk s"
    by (simp_all add: bview_def brefs_def bheld_def bused_def dblk_def block_buf_def fun_eq_iff cong: option.case_cong if_cong)
qed

lemma log_find_blocks:
  "n \<notin> set (logged_blocks s) \<Longrightarrow> log_find (lh_block s) n [0..<nat (lh_n s)] m = m"
  "n \<in> set (logged_blocks s) \<Longrightarrow> log_find (lh_block s) n [0..<nat (lh_n s)] m < nat (lh_n s) \<and> lh_block s (log_find (lh_block s) n [0..<nat (lh_n s)] m) = n"
proof -
  have a: "n \<notin> f ` set is \<Longrightarrow> log_find f n is m = m" "n \<in> f ` set is \<Longrightarrow> log_find f n is m \<in> set is \<and> f (log_find f n is m) = n" for f "is"
    by (induction "is") auto
  show "n \<notin> set (logged_blocks s) \<Longrightarrow> log_find (lh_block s) n [0..<nat (lh_n s)] m = m"
    "n \<in> set (logged_blocks s) \<Longrightarrow> log_find (lh_block s) n [0..<nat (lh_n s)] m < nat (lh_n s) \<and> lh_block s (log_find (lh_block s) n [0..<nat (lh_n s)] m) = n"
    using a(1) [of "lh_block s" "[0..<nat (lh_n s)]"] a(2) [of "lh_block s" "[0..<nat (lh_n s)]"] by (simp_all add: logged_blocks_def)
qed

definition may_log :: "'a blog_scheme \<Rightarrow> bool" where
  "may_log s \<longleftrightarrow> lock_free L_log s \<and> 0 \<le> lh_n s \<and> lh_n s < LOGSIZE \<and> lh_n s < log_size s - 1 \<and> 1 \<le> outstanding s"

lemma log_write_run:
  fixes s :: "'a blog_scheme"
  assumes "cache_inv s L d" "mine s d n b" "may_log s"
  shows "log_write b s = Ok (if n \<in> set (logged_blocks s) then (masked_once s)\<lparr>lh_block := lh_block s\<rparr>
     else (set_buf b (\<lambda>x. x\<lparr>refcnt := refcnt x + 1\<rparr>) ((masked_once s)\<lparr>lh_block := (lh_block s)(nat (lh_n s) := n)\<rparr>))\<lparr>lh_n := lh_n s + 1\<rparr>)"
proof -
  have bn: "blockno (bufs s b) = n" using mine_facts [OF assms(1,2)] by simp
  let ?e = "enter_state L_log s" and ?n = "nat (lh_n s)"
  have e: "lh_n ?e = lh_n s" "log_size ?e = log_size s" "outstanding ?e = outstanding s" "bufs ?e = bufs s" "lh_block ?e = lh_block s"
    by (simp_all add: enter_state_def lock_defs)
  have c: "cpu_ok s" "lock_free L_log s" "0 \<le> lh_n s" "lh_n s < LOGSIZE" "lh_n s < log_size s - 1" "1 \<le> outstanding s"
    using assms(1,3) by (simp_all add: cache_inv_def vdisk_ok_def may_log_def)
  have h: "noff (mycpu ?e) \<noteq> 0" using c(1) by (auto simp: cpu_ok_def enter_state_def lock_defs)
  show ?thesis
  proof (cases "n \<in> set (logged_blocks s)")
    case True
    have "release L_log ((\<lambda>t. t\<lparr>lh_block := lh_block s\<rparr>) ?e) = Ok ((\<lambda>t. t\<lparr>lh_block := lh_block s\<rparr>) (masked_once s))"
      by (rule critical_section [OF c(2,1)]) simp_all
    moreover have "(lh_block s)(log_find (lh_block s) n [0..<?n] ?n := n) = lh_block s" using log_find_blocks(2) [OF True] by (auto simp: fun_eq_iff)
    ultimately show ?thesis using c log_find_blocks(2) [OF True, of ?n] True bn by (auto simp: log_write_def acquire_free e Let_def)
  next
    case False
    let ?f = "(lh_block s)(?n := n)" and ?g = "\<lambda>x. x\<lparr>refcnt := refcnt x + 1\<rparr>"
    have "masked_once (?e\<lparr>lh_block := ?f\<rparr>) = ?e\<lparr>lh_block := ?f\<rparr>" by (rule masked_once_inside) (use h in \<open>simp add: mycpu_def cpuid_def\<close>)
    then have p: "bpin b (?e\<lparr>lh_block := ?f\<rparr>) = Ok (set_buf b ?g (?e\<lparr>lh_block := ?f\<rparr>))"
      using pin_run(1) [of "?e\<lparr>lh_block := ?f\<rparr>" L d b] cache_inv_enter(1) [OF assms(1)] by simp
    have l: "lh_n (set_buf b ?g (?e\<lparr>lh_block := ?f\<rparr>)) = lh_n s" by (simp add: set_buf_def e)
    have "release L_log ((\<lambda>t. (set_buf b ?g (t\<lparr>lh_block := ?f\<rparr>))\<lparr>lh_n := lh_n s + 1\<rparr>) ?e)
        = Ok ((\<lambda>t. (set_buf b ?g (t\<lparr>lh_block := ?f\<rparr>))\<lparr>lh_n := lh_n s + 1\<rparr>) (masked_once s))"
      by (rule critical_section [OF c(2,1)]) (simp_all add: set_buf_eq)
    then show ?thesis using c log_find_blocks(1) [OF False, of ?n] False bn p l by (simp add: log_write_def acquire_free e Let_def)
  qed
qed

lemma logged_blocks_add: "0 \<le> lh_n s \<Longrightarrow> lh_n t = lh_n s + 1 \<Longrightarrow> lh_block t = (lh_block s)(nat (lh_n s) := n) \<Longrightarrow> logged_blocks t = logged_blocks s @ [n]"
  by (simp add: logged_blocks_def nat_add_distrib)

lemma log_write_law:
  fixes s :: "'a blog_scheme"
  assumes "cache_inv s L d" "mine s d n b" "may_log s" "brefs s d n + 1 < 2 ^ 32" "distinct (logged_blocks s)"
  obtains t where "log_write b s = Ok t" "cache_inv t L d" "mine t d n b"
    "logged_blocks t = (if n \<in> set (logged_blocks s) then logged_blocks s else logged_blocks s @ [n])"
    "lh_n t = lh_n s + (if n \<in> set (logged_blocks s) then 0 else 1)"
    "brefs t d = (if n \<in> set (logged_blocks s) then brefs s d else (brefs s d)(n := brefs s d n + 1))"
    "bview t d = bview s d" "bheld t d = bheld s d" "bused t = bused s" "dblk t = dblk s" "written t = written s" "log_start t = log_start s" "log_dev t = log_dev s"
proof (cases "n \<in> set (logged_blocks s)")
  case True
  let ?t = "(masked_once s)\<lparr>lh_block := lh_block s\<rparr>"
  have m: "lh_n (masked_once s) = lh_n s" "log_start (masked_once s) = log_start s" "log_dev (masked_once s) = log_dev s" by (simp_all add: masked_once_def lock_defs)
  show ?thesis
    by (rule that [of ?t]) (use True assms log_write_run [OF assms(1-3)] m in \<open>simp_all add: masked_views logged_blocks_def\<close>)
next
  case False
  define u where "u = (masked_once s)\<lparr>lh_block := (lh_block s)(nat (lh_n s) := n)\<rparr>"
  have u: "cache_inv u L d" "mine u d n b" "masked_once u = u" "brefs u d = brefs s d" "bview u d = bview s d" "bheld u d = bheld s d" "bused u = bused s" "dblk u = dblk s"
    "written u = written s" "refcnt (bufs u b) = refcnt (bufs s b)"
    using assms(1,2) by (simp_all add: u_def masked_views) (simp add: masked_once_def lock_defs)
  let ?t = "set_buf b (\<lambda>x. x\<lparr>refcnt := refcnt x + 1\<rparr>) u"
  note R = pin_refs(1) [OF assms(1,2,4)]
  have T: "?t = set_buf b (\<lambda>x. x\<lparr>refcnt := refcnt x + 1\<rparr>) (masked_once u)" by (simp only: u(3))
  have nz: "refcnt (bufs u b) + 1 \<noteq> 0" using R u(10) by simp
  note P = pin_law [OF u(1,2), of "\<lambda>r. r + 1", OF nz T]
  have dt: "dblk ?t = dblk s" using dblk_medium [OF P(9)] u(8) by simp
  have lt: "log_start ?t = log_start s" "log_dev ?t = log_dev s" "lh_block ?t = (lh_block s)(nat (lh_n s) := n)"
    using untouched_log [OF P(2)] by (simp_all add: u_def) (simp_all add: masked_once_def lock_defs)
  have lb: "logged_blocks (?t\<lparr>lh_n := lh_n s + 1\<rparr>) = logged_blocks s @ [n]"
    by (rule logged_blocks_add) (use assms(3) lt in \<open>simp_all add: may_log_def\<close>)
  have "log_write b s = Ok (?t\<lparr>lh_n := lh_n s + 1\<rparr>)" using log_write_run [OF assms(1-3)] False by (simp flip: u_def)
  then show ?thesis by (rule that) (use False P u R dt lt lb in simp_all)
qed

section \<open>Properties\<close>


text \<open>A machine with an empty disk and an operation under way that has changed block 40.\<close>

definition quiet_log :: blog where
  "quiet_log = vdisk.extend quiet_disk (blog.fields 2 30 1 False 1 0 (\<lambda>_. 0))"

lemma quiet_log_fields:
  "cpus quiet_log = cpus quiet_disk" "tp quiet_log = tp quiet_disk" "locks quiet_log = locks quiet_disk" "bufs quiet_log = bufs quiet_disk"
  "dfree quiet_log = dfree quiet_disk" "dev_idx quiet_log = 0" "avail_idx quiet_log = 0" "used_idx quiet_log = 0" "dused_idx quiet_log = 0"
  "medium quiet_log = medium quiet_disk" "log_start quiet_log = 2" "log_size quiet_log = 30" "outstanding quiet_log = 1" "log_dev quiet_log = 1" "lh_n quiet_log = 0"
  by (simp_all add: quiet_log_def vdisk.defs blog.defs)

lemma binit_more: "vdisk.more (binit s) = vdisk.more s"
proof -
  have "vdisk.more (binit_step b t) = vdisk.more t" for b and t :: "'a vdisk_scheme"
    by (simp add: binit_step_def Let_def bnext_to_def bprev_to_def set_buf_def initsleeplock_def set_sleeplock_def initlock_def set_lock_def)
  then have "vdisk.more (fold binit_step xs t) = vdisk.more t" for xs and t :: "'a vdisk_scheme" by (induction xs arbitrary: t) auto
  then show ?thesis by (simp add: binit_def bnext_to_def bprev_to_def set_buf_def initlock_def set_lock_def)
qed

lemma quiet_log_fresh: "cache_inv (binit quiet_log) (rev [0..<NBUF]) 1" "fresh_log (binit quiet_log) 2 1 (\<lambda>_. replicate BSIZE 0)" "lock_free L_log (binit quiet_log)"
proof -
  let ?t = "binit quiet_log"
  have U: "binit_upto NBUF quiet_log ?t" by (rule binit_upto_all)
  have "vdisk_ok quiet_log" "cproc (mycpu quiet_log) \<noteq> None"
    by (simp_all add: vdisk_ok_def cpu_ok_def lock_free_def mycpu_def cpuid_def quiet_log_fields)
  then show c: "cache_inv ?t (rev [0..<NBUF]) 1" by (rule binit_cache) (simp_all add: quiet_log_fields BSIZE_def)
  have B: "\<And>c. bdev (bufs ?t c) = 0" "\<And>c. refcnt (bufs ?t c) = 0" "medium ?t = (\<lambda>_. 0)"
    using U by (auto simp: binit_upto_def same_but_links_def quiet_log_fields)
  have n: "block_buf ?t 1 n = None" for n by (simp add: block_buf_None holds_block_def B)
  have "dblk ?t n = replicate BSIZE 0" for n by (rule nth_equalityI) (simp_all add: dblk_def read_medium_def B(3))
  moreover have "bused ?t = 0" by (simp add: bused_def B)
  ultimately show "fresh_log ?t 2 1 (\<lambda>_. replicate BSIZE 0)"
    using c log_fields [OF binit_more [of quiet_log]] by (auto simp: fresh_log_def idle_cache_def bheld_def brefs_def n quiet_log_fields)
  show "lock_free L_log ?t" using U by (simp add: binit_upto_def lock_free_def quiet_log_fields)
qed

lemma zero_head: "head_n (replicate BSIZE 0) = 0"
  by (simp add: head_n_def get32_def slice_def BSIZE_def numeral_eq_Suc)

lemma quiet_log_ready: "\<exists>s :: blog. commit_ready s 29 1 \<and> log_start s = 2 \<and> log_dev s = 1 \<and> lh_block s 0 = 40 \<and> bview s 1 40 = replicate BSIZE 9 \<and> dblk s = (\<lambda>_. replicate BSIZE 0)"
proof -
  let ?s = "binit quiet_log" and ?v = "replicate BSIZE 9 :: u8 list"
  have F: "\<And>n. \<not> bheld ?s 1 n" "\<And>n. brefs ?s 1 n = 0" "bused ?s = 0" "dblk ?s = (\<lambda>_. replicate BSIZE 0)"
    using quiet_log_fresh(2) by (simp_all add: fresh_log_def idle_cache_def)
  note l0 = log_fields [OF binit_more [of quiet_log], unfolded quiet_log_fields]
  obtain b t where t: "bread 1 40 ?s = Ok (b, t)" "cache_inv t (rev [0..<NBUF]) 1" "bread_post b 1 40 ?s t"
    by (rule bread_law [OF quiet_log_fresh(1) F(1), of 40]) (simp_all add: F NBUF_def)
  have m: "mine t 1 40 b" by (rule bread_post_mine [OF t(3,2)])
  have T: "brefs t 1 = (\<lambda>_. 0)(40 := 1)" "bheld t 1 = (\<lambda>_. False)(40 := True)" "bused t = 1" "dblk t = dblk ?s" "untouched ?s t"
    using t(3) F dblk_medium [of t ?s] by (auto simp: bread_post_def fun_eq_iff)
  let ?u = "put_data b ?v t"
  note P = put_data_law [OF t(2) m, of ?v, simplified]
  have lu: "lock_ctx ?s ?u" using untouched_trans [OF T(5) P(9)] by (simp add: untouched_def)
  note l1 = untouched_log [OF untouched_trans [OF T(5) P(9)], unfolded l0]
  have "may_log ?u" using lock_ctx_free [OF lu] quiet_log_fresh(3) by (simp add: may_log_def l1 LOGSIZE_def MAXOPBLOCKS_def)
  then obtain w where w: "log_write b ?u = Ok w" "cache_inv w (rev [0..<NBUF]) 1" "mine w 1 40 b" "logged_blocks w = [40]" "lh_n w = 1" "brefs w 1 = (brefs ?u 1)(40 := brefs ?u 1 40 + 1)"
    "bview w 1 = bview ?u 1" "bheld w 1 = bheld ?u 1" "bused w = bused ?u" "dblk w = dblk ?u" "log_start w = 2" "log_dev w = 1"
    by (rule log_write_law [OF P(1,2)]) (simp_all add: P(4) T(1) logged_blocks_def l1)
  obtain x where x: "brelse b w = Ok x" "cache_inv x (rev [0..<NBUF]) 1" "untouched w x" "bview x 1 = bview w 1" "brefs x 1 = (brefs w 1)(40 := brefs w 1 40 - 1)"
    "bheld x 1 = (bheld w 1)(40 := False)" "bused x = bused w" "medium x = medium w"
    by (rule brelse_law [OF w(2,3)]) (use w(6) P(4) T(1) in simp_all)
  note l2 = untouched_log [OF x(3)]
  have lb: "lh_block x 0 = 40" using w(4,5) l2(7) by (simp add: logged_blocks_def)
  have X: "brefs x 1 = (\<lambda>_. 0)(40 := 1)" "bheld x 1 = (\<lambda>_. False)" "bused x = 1" "dblk x = (\<lambda>_. replicate BSIZE 0)" "bview x 1 40 = ?v"
    using x(4-7) w(6-10) P(3-7) T dblk_medium [OF x(8)] F(4) by (simp_all add: fun_eq_iff)
  have a: "unat m \<le> 31" if m: "m \<in> log_area 2 29" for m :: u32
  proof -
    have "unat (log_block 2 i) = i + 3" if "i < 29" for i using log_block_unat [of 2 29 i] that by simp
    then show ?thesis using m by (auto simp: log_area_def)
  qed
  have a40: "(40 :: u32) \<notin> log_area 2 29" using a [of 40] by auto
  have "idle_cache x 1" using x(2) X(2) by (auto simp: idle_cache_def)
  moreover have "log_wf 2 29 (dblk x)" using X(4) zero_head by (simp add: log_wf_def BSIZE_def)
  moreover have "brefs x 1 m = 0" if "m \<in> log_area 2 29" for m using X(1) a40 that by auto
  ultimately have "commit_ready x 29 1" using l2 w(5,11,12) X lb a40 zero_head by (simp add: commit_ready_def BSIZE_def NBUF_def)
  then show ?thesis using l2 w(11,12) lb X by auto
qed


text \<open>
  (C25) Absorption: \<open>log_write\<close> of a block that is already part of the transaction changes nothing, a new block is
  appended to it and pinned in the cache. Either way nothing goes to the disk, and no block is listed twice.
\<close>

theorem log_write_absorbs:
  fixes s :: "'a blog_scheme"
  assumes "cache_inv s L d" "mine s d n b" "may_log s" "brefs s d n + 1 < 2 ^ 32" "distinct (logged_blocks s)"
  shows "\<exists>t. log_write b s = Ok t \<and> cache_inv t L d \<and> mine t d n b \<and> distinct (logged_blocks t) \<and>
    logged_blocks t = (if n \<in> set (logged_blocks s) then logged_blocks s else logged_blocks s @ [n]) \<and>
    brefs t d = (if n \<in> set (logged_blocks s) then brefs s d else (brefs s d)(n := brefs s d n + 1)) \<and>
    bview t d = bview s d \<and> dblk t = dblk s \<and> written t = written s"
proof -
  obtain t where "log_write b s = Ok t" "cache_inv t L d" "mine t d n b"
    "logged_blocks t = (if n \<in> set (logged_blocks s) then logged_blocks s else logged_blocks s @ [n])"
    "brefs t d = (if n \<in> set (logged_blocks s) then brefs s d else (brefs s d)(n := brefs s d n + 1))"
    "bview t d = bview s d" "dblk t = dblk s" "written t = written s"
    by (rule log_write_law [OF assms])
  then show ?thesis using assms(5) by auto
qed

theorem log_write_absorbs_witness: "\<exists>b (s :: blog) t. mine s 1 40 b \<and> logged_blocks s = [] \<and> log_write b s = Ok t \<and> logged_blocks t = [40]"
proof -
  let ?s = "binit quiet_log"
  have F: "\<And>n. \<not> bheld ?s 1 n" "\<And>n. brefs ?s 1 n = 0" "bused ?s = 0" using quiet_log_fresh(2) by (simp_all add: fresh_log_def idle_cache_def)
  obtain b t where t: "bread 1 40 ?s = Ok (b, t)" "cache_inv t (rev [0..<NBUF]) 1" "bread_post b 1 40 ?s t"
    by (rule bread_law [OF quiet_log_fresh(1) F(1), of 40]) (simp_all add: F NBUF_def)
  have m: "mine t 1 40 b" by (rule bread_post_mine [OF t(3,2)])
  have u: "untouched ?s t" "brefs t 1 40 = 1" using t(3) F(2) by (simp_all add: bread_post_def)
  note l = untouched_log [OF u(1), unfolded log_fields [OF binit_more [of quiet_log], unfolded quiet_log_fields]]
  have "lock_ctx ?s t" using u(1) by (simp add: untouched_def)
  then have ml: "may_log t" using lock_ctx_free quiet_log_fresh(3) by (auto simp: may_log_def l LOGSIZE_def MAXOPBLOCKS_def)
  have e: "logged_blocks t = []" by (simp add: logged_blocks_def l)
  then show ?thesis using log_write_absorbs [OF t(2) m ml] u(2) m by auto
qed




text \<open>The machine of before, with thirty blocks in the transaction that fill the cache.\<close>

definition full_log :: blog where
  "full_log = quiet_log\<lparr>bufs := (\<lambda>i. \<lparr>valid = True, disk = False, bdev = 1, blockno = of_nat (100 + i), refcnt = 1, bprev = i, bnext = i,
     bdata = replicate BSIZE 0\<rparr>), lh_n := 30\<rparr>"

lemma block_number: "i < 30 \<Longrightarrow> unat (of_nat (100 + i) :: u32) = 100 + i"
  by (simp only: unsigned_of_nat) (simp add: take_bit_nat_eq_self)

lemma full_log_cache: "cache_inv (binit full_log) (rev [0..<NBUF]) 1" "bused (binit full_log) = NBUF" "block_buf (binit full_log) 1 3 = None"
proof -
  let ?t = "binit full_log"
  have U: "binit_upto NBUF full_log ?t" by (rule binit_upto_all)
  have F: "cpus full_log = cpus quiet_disk" "tp full_log = 0" "locks full_log = locks quiet_disk" "dfree full_log = dfree quiet_disk"
    "dev_idx full_log = 0" "avail_idx full_log = 0" "used_idx full_log = 0" "dused_idx full_log = 0"
    by (simp_all add: full_log_def quiet_log_fields)
  have B: "\<And>c. bdev (bufs ?t c) = 1" "\<And>c. refcnt (bufs ?t c) = 1" "\<And>c. valid (bufs ?t c)" "\<And>c. blockno (bufs ?t c) = of_nat (100 + c)"
    "\<And>c. \<not> disk (bufs ?t c)" "\<And>c. bdata (bufs ?t c) = replicate BSIZE 0"
    using U by (auto simp: binit_upto_def same_but_links_def full_log_def)
  have "one_buf ?t 1" unfolding one_buf_def
  proof (intro allI impI)
    fix a b n assume "holds_block ?t 1 n a" "holds_block ?t 1 n b"
    then have "a < 30" "b < 30" "(of_nat (100 + a) :: u32) = of_nat (100 + b)" by (auto simp: holds_block_def B NBUF_def)
    then show "a = b" using block_number [of a] block_number [of b] by (metis add_left_cancel)
  qed
  moreover have "vdisk_ok ?t" "cproc (mycpu ?t) \<noteq> None" "lock_free L_bcache ?t" "\<forall>b < NBUF. lock_free (L_buf b) ?t"
    using U F by (simp_all add: binit_upto_def vdisk_ok_def cpu_ok_def lock_free_def mycpu_def cpuid_def)
  moreover have "buf_ok ?t 1 b" for b by (simp add: buf_ok_def B)
  ultimately show "cache_inv ?t (rev [0..<NBUF]) 1" using binit_lru [of full_log] by (simp add: cache_inv_def)
  show "bused ?t = NBUF" by (simp add: bused_def B)
  have "of_nat (100 + b) \<noteq> (3 :: u32)" if "b < NBUF" for b
  proof
    assume "of_nat (100 + b) = (3 :: u32)"
    then have "unat (of_nat (100 + b) :: u32) = unat (3 :: u32)" by (rule arg_cong)
    then show False using block_number [of b] that by (simp add: NBUF_def)
  qed
  then show "block_buf ?t 1 3 = None" by (auto simp: block_buf_None holds_block_def B)
qed


end
