(* ===== verification/Fs.thy ===== *)
theory Fs
  imports Log_Props
begin

unbundle bit_operations_syntax

text \<open>
  The file system, \<^verbatim>\<open>kernel/fs.c\<close>, on top of the buffer cache and the log: block allocation, inodes, inode contents,
  directories and path names.

  An in-memory inode is named by its index in \<open>itable\<close>; where the code tests a pointer against 0 the
  pointer is an \<open>option\<close>. The \<^verbatim>\<open>short\<close> fields are 16-bit words. A character string is a list of bytes
  that is read as zero from its end on (\<open>at_buf\<close>); advancing a pointer into it is dropping its first bytes. A
  buffer that a routine fills through a pointer to a kernel variable is returned next to its result.
\<close>

section \<open>State\<close>

definition NINODE :: nat where "NINODE = 50"
definition ROOTDEV :: u32 where "ROOTDEV = 1"
definition ROOTINO :: u32 where "ROOTINO = 1"
definition FSMAGIC :: u32 where "FSMAGIC = 0x10203040"
definition NDIRECT :: nat where "NDIRECT = 12"
definition NINDIRECT :: nat where "NINDIRECT = BSIZE div 4"
definition MAXFILE :: nat where "MAXFILE = NDIRECT + NINDIRECT"
definition sizeof_dinode :: nat where "sizeof_dinode = 64"
definition IPB :: nat where "IPB = BSIZE div sizeof_dinode"
definition BPB :: nat where "BPB = BSIZE * 8"
definition DIRSIZ :: nat where "DIRSIZ = 14"
definition sizeof_dirent :: nat where "sizeof_dirent = 16"
definition T_DIR :: u16 where "T_DIR = 1"
definition T_FILE :: u16 where "T_FILE = 2"
definition T_DEVICE :: u16 where "T_DEVICE = 3"

record inode =
  idev :: u32
  inum :: u32
  iref :: int
  ivalid :: bool
  itype :: u16
  imajor :: u16
  iminor :: u16
  nlink :: u16
  isize :: u32
  addrs :: "u32 list"

record fs = blog +
  sb :: superblock
  inodes :: "nat \<Rightarrow> inode"

definition set_inode :: "nat \<Rightarrow> (inode \<Rightarrow> inode) \<Rightarrow> 'a fs_scheme \<Rightarrow> 'a fs_scheme" where
  "set_inode ip f s = s\<lparr>inodes := (inodes s)(ip := f (inodes s ip))\<rparr>"

record stat =
  st_dev :: u32
  st_ino :: u32
  st_type :: u16
  st_nlink :: u16
  st_size :: u64

text \<open>The position of an inode on the disk: its block and its offset in the block; and of a bit of the free map.\<close>

definition IBLOCK :: "u32 \<Rightarrow> superblock \<Rightarrow> u32" where
  "IBLOCK i sbk = i div of_nat IPB + inodestart sbk"

definition BBLOCK :: "u32 \<Rightarrow> superblock \<Rightarrow> u32" where
  "BBLOCK b sbk = b div of_nat BPB + bmapstart sbk"

definition dinode_at :: "u32 \<Rightarrow> nat" where
  "dinode_at i = sizeof_dinode * (unat i mod IPB)"

section \<open>The superblock and the free map\<close>

definition superblock_of :: "u8 list \<Rightarrow> superblock" where
  "superblock_of d = \<lparr>magic = get32 0 d, sb_size = get32 4 d, nblocks = get32 8 d, ninodes = get32 12 d,
     nlog = get32 16 d, logstart = get32 20 d, inodestart = get32 24 d, bmapstart = get32 28 d\<rparr>"

definition readsb :: "u32 \<Rightarrow> 'a blog_scheme \<Rightarrow> (superblock \<times> 'a blog_scheme) res" where
  "readsb dev s =
     bind_res (bread dev 1 s) (\<lambda>(bp, s).
       let v = superblock_of (bdata (bufs s bp)) in bind_res (brelse bp s) (\<lambda>s. Ok (v, s)))"

definition fsinit :: "u32 \<Rightarrow> 'a fs_scheme \<Rightarrow> 'a fs_scheme res" where
  "fsinit dev s =
     bind_res (readsb dev s) (\<lambda>(v, s).
       let s = s\<lparr>sb := v\<rparr> in
       if magic (sb s) \<noteq> FSMAGIC then Panic ''invalid file system'' else initlog dev (sb s) s)"

definition bzero :: "u32 \<Rightarrow> u32 \<Rightarrow> 'a blog_scheme \<Rightarrow> 'a blog_scheme res" where
  "bzero dev bno s =
     bind_res (bread dev bno s) (\<lambda>(bp, s).
       bind_res (log_write bp (put_data bp (replicate BSIZE 0) s)) (brelse bp))"

definition bit_mask :: "nat \<Rightarrow> u8" where
  "bit_mask bi = push_bit (bi mod 8) 1"

text \<open>The inner loop of \<open>balloc\<close>: the first clear bit of a block of the free map.\<close>

fun balloc_scan :: "u8 list \<Rightarrow> nat list \<Rightarrow> nat option" where
  "balloc_scan d [] = None"
| "balloc_scan d (bi # bis) = (if d ! (bi div 8) AND bit_mask bi = 0 then Some bi else balloc_scan d bis)"

fun balloc_loop :: "u32 \<Rightarrow> nat list \<Rightarrow> 'a fs_scheme \<Rightarrow> (u32 \<times> 'a fs_scheme) res" where
  "balloc_loop dev [] s = Panic ''balloc: out of blocks''"
| "balloc_loop dev (b # bs) s =
     bind_res (bread dev (BBLOCK (of_nat b) (sb s)) s) (\<lambda>(bp, s).
       let d = bdata (bufs s bp) in
       case balloc_scan d [0..<min BPB (unat (sb_size (sb s)) - b)] of
         Some bi \<Rightarrow>
           bind_res (log_write bp (put_data bp (d[bi div 8 := d ! (bi div 8) OR bit_mask bi]) s)) (\<lambda>s.
             bind_res (brelse bp s) (\<lambda>s.
               bind_res (bzero dev (of_nat (b + bi)) s) (\<lambda>s. Ok (of_nat (b + bi), s))))
       | None \<Rightarrow> bind_res (brelse bp s) (balloc_loop dev bs))"

definition map_starts :: "superblock \<Rightarrow> nat list" where
  "map_starts sbk = map (\<lambda>k. k * BPB) [0..<(unat (sb_size sbk) + BPB - 1) div BPB]"

definition balloc :: "u32 \<Rightarrow> 'a fs_scheme \<Rightarrow> (u32 \<times> 'a fs_scheme) res" where
  "balloc dev s = balloc_loop dev (map_starts (sb s)) s"

definition bfree :: "u32 \<Rightarrow> u32 \<Rightarrow> 'a fs_scheme \<Rightarrow> 'a fs_scheme res" where
  "bfree dev b s =
     bind_res (bread dev (BBLOCK b (sb s)) s) (\<lambda>(bp, s).
       let bi = unat b mod BPB; d = bdata (bufs s bp) in
       if d ! (bi div 8) AND bit_mask bi = 0 then Panic ''freeing free block''
       else bind_res (log_write bp (put_data bp (d[bi div 8 := d ! (bi div 8) AND NOT (bit_mask bi)]) s)) (brelse bp))"

section \<open>Inodes\<close>

definition iinit :: "'a fs_scheme \<Rightarrow> 'a fs_scheme" where
  "iinit s = fold (\<lambda>i. initsleeplock (L_inode i) ''inode'') [0..<NINODE] (initlock L_itable ''itable'' s)"

text \<open>The scan of \<open>iget\<close>: the entry that holds the inode, or else the first free one.\<close>

fun iget_scan :: "u32 \<Rightarrow> u32 \<Rightarrow> nat list \<Rightarrow> nat option \<Rightarrow> 'a fs_scheme \<Rightarrow> nat option \<times> nat option" where
  "iget_scan dev i [] free s = (None, free)"
| "iget_scan dev i (ip # ips) free s =
     (let x = inodes s ip in
      if iref x > 0 \<and> idev x = dev \<and> inum x = i then (Some ip, free)
      else iget_scan dev i ips (if free = None \<and> iref x = 0 then Some ip else free) s)"

definition iget :: "u32 \<Rightarrow> u32 \<Rightarrow> 'a fs_scheme \<Rightarrow> (nat \<times> 'a fs_scheme) res" where
  "iget dev i s =
     bind_res (acquire L_itable s) (\<lambda>s.
       case iget_scan dev i [0..<NINODE] None s of
         (Some ip, _) \<Rightarrow> bind_res (release L_itable (set_inode ip (\<lambda>x. x\<lparr>iref := iref x + 1\<rparr>) s)) (\<lambda>s. Ok (ip, s))
       | (None, None) \<Rightarrow> Panic ''iget: no inodes''
       | (None, Some ip) \<Rightarrow>
           bind_res (release L_itable (set_inode ip (\<lambda>x. x\<lparr>idev := dev, inum := i, iref := 1, ivalid := False\<rparr>) s))
             (\<lambda>s. Ok (ip, s)))"

fun ialloc_loop :: "u32 \<Rightarrow> u16 \<Rightarrow> nat list \<Rightarrow> 'a fs_scheme \<Rightarrow> (nat \<times> 'a fs_scheme) res" where
  "ialloc_loop dev type [] s = Panic ''ialloc: no inodes''"
| "ialloc_loop dev type (i # is) s =
     bind_res (bread dev (IBLOCK (of_nat i) (sb s)) s) (\<lambda>(bp, s).
       let d = bdata (bufs s bp); dip = dinode_at (of_nat i) in
       if get16 dip d = 0
       then bind_res (log_write bp (put_data bp (put16 dip type (splice dip (replicate sizeof_dinode 0) d)) s)) (\<lambda>s.
              bind_res (brelse bp s) (iget dev (of_nat i)))
       else bind_res (brelse bp s) (ialloc_loop dev type is))"

definition ialloc :: "u32 \<Rightarrow> u16 \<Rightarrow> 'a fs_scheme \<Rightarrow> (nat \<times> 'a fs_scheme) res" where
  "ialloc dev type s = ialloc_loop dev type [1..<unat (ninodes (sb s))] s"

fun put_words :: "nat \<Rightarrow> u32 list \<Rightarrow> u8 list \<Rightarrow> u8 list" where
  "put_words i [] d = d"
| "put_words i (w # ws) d = put_words (i + 4) ws (put32 i w d)"

definition get_words :: "nat \<Rightarrow> nat \<Rightarrow> u8 list \<Rightarrow> u32 list" where
  "get_words i n d = map (\<lambda>k. get32 (i + 4 * k) d) [0..<n]"

definition put_dinode :: "nat \<Rightarrow> inode \<Rightarrow> u8 list \<Rightarrow> u8 list" where
  "put_dinode dip x d =
     put_words (dip + 12) (addrs x)
       (put32 (dip + 8) (isize x)
         (put16 (dip + 6) (nlink x)
           (put16 (dip + 4) (iminor x)
             (put16 (dip + 2) (imajor x)
               (put16 dip (itype x) d)))))"

definition iupdate :: "nat \<Rightarrow> 'a fs_scheme \<Rightarrow> 'a fs_scheme res" where
  "iupdate ip s =
     bind_res (bread (idev (inodes s ip)) (IBLOCK (inum (inodes s ip)) (sb s)) s) (\<lambda>(bp, s).
       bind_res (log_write bp (put_data bp (put_dinode (dinode_at (inum (inodes s ip))) (inodes s ip) (bdata (bufs s bp))) s))
         (brelse bp))"

definition idup :: "nat \<Rightarrow> 'a fs_scheme \<Rightarrow> (nat \<times> 'a fs_scheme) res" where
  "idup ip s =
     bind_res (acquire L_itable s) (\<lambda>s.
       bind_res (release L_itable (set_inode ip (\<lambda>x. x\<lparr>iref := iref x + 1\<rparr>) s)) (\<lambda>s. Ok (ip, s)))"

definition get_dinode :: "nat \<Rightarrow> u8 list \<Rightarrow> inode \<Rightarrow> inode" where
  "get_dinode dip d x = x\<lparr>itype := get16 dip d, imajor := get16 (dip + 2) d, iminor := get16 (dip + 4) d,
     nlink := get16 (dip + 6) d, isize := get32 (dip + 8) d, addrs := get_words (dip + 12) (NDIRECT + 1) d\<rparr>"

definition ilock :: "nat option \<Rightarrow> 'a fs_scheme \<Rightarrow> 'a fs_scheme res" where
  "ilock ip s =
     (case ip of None \<Rightarrow> Panic ''ilock''
      | Some ip \<Rightarrow>
        if iref (inodes s ip) < 1 then Panic ''ilock''
        else bind_res (acquiresleep (L_inode ip) s) (\<lambda>s.
          if \<not> ivalid (inodes s ip)
          then bind_res (bread (idev (inodes s ip)) (IBLOCK (inum (inodes s ip)) (sb s)) s) (\<lambda>(bp, s).
                 let s = set_inode ip (get_dinode (dinode_at (inum (inodes s ip))) (bdata (bufs s bp))) s in
                 bind_res (brelse bp s) (\<lambda>s.
                   let s = set_inode ip (\<lambda>x. x\<lparr>ivalid := True\<rparr>) s in
                   if itype (inodes s ip) = 0 then Panic ''ilock: no type'' else Ok s))
          else Ok s))"

definition iunlock :: "nat option \<Rightarrow> 'a fs_scheme \<Rightarrow> 'a fs_scheme res" where
  "iunlock ip s =
     (case ip of None \<Rightarrow> Panic ''iunlock''
      | Some ip \<Rightarrow>
        bind_res (holdingsleep (L_inode ip) s) (\<lambda>(h, s).
          if \<not> h \<or> iref (inodes s ip) < 1 then Panic ''iunlock'' else releasesleep (L_inode ip) s))"

section \<open>Inode contents\<close>

definition bmap :: "nat \<Rightarrow> u32 \<Rightarrow> 'a fs_scheme \<Rightarrow> (u32 \<times> 'a fs_scheme) res" where
  "bmap ip bn s =
     (if unat bn < NDIRECT
      then let addr = addrs (inodes s ip) ! unat bn in
           if addr = 0
           then bind_res (balloc (idev (inodes s ip)) s) (\<lambda>(addr, s).
                  Ok (addr, set_inode ip (\<lambda>x. x\<lparr>addrs := (addrs x)[unat bn := addr]\<rparr>) s))
           else Ok (addr, s)
      else
        let bn = unat bn - NDIRECT in
        if bn < NINDIRECT
        then bind_res
               (let addr = addrs (inodes s ip) ! NDIRECT in
                if addr = 0
                then bind_res (balloc (idev (inodes s ip)) s) (\<lambda>(addr, s).
                       Ok (addr, set_inode ip (\<lambda>x. x\<lparr>addrs := (addrs x)[NDIRECT := addr]\<rparr>) s))
                else Ok (addr, s)) (\<lambda>(addr, s).
               bind_res (bread (idev (inodes s ip)) addr s) (\<lambda>(bp, s).
                 let addr = get32 (4 * bn) (bdata (bufs s bp)) in
                 bind_res
                   (if addr = 0
                    then bind_res (balloc (idev (inodes s ip)) s) (\<lambda>(addr, s).
                           bind_res (log_write bp (put_data bp (put32 (4 * bn) addr (bdata (bufs s bp))) s)) (\<lambda>s. Ok (addr, s)))
                    else Ok (addr, s)) (\<lambda>(addr, s).
                   bind_res (brelse bp s) (\<lambda>s. Ok (addr, s)))))
        else Panic ''bmap: out of range'')"

fun itrunc_direct :: "nat \<Rightarrow> nat list \<Rightarrow> 'a fs_scheme \<Rightarrow> 'a fs_scheme res" where
  "itrunc_direct ip [] s = Ok s"
| "itrunc_direct ip (i # is) s =
     (if addrs (inodes s ip) ! i \<noteq> 0
      then bind_res (bfree (idev (inodes s ip)) (addrs (inodes s ip) ! i) s) (\<lambda>s.
             itrunc_direct ip is (set_inode ip (\<lambda>x. x\<lparr>addrs := (addrs x)[i := 0]\<rparr>) s))
      else itrunc_direct ip is s)"

fun itrunc_indirect :: "nat \<Rightarrow> nat \<Rightarrow> nat list \<Rightarrow> 'a fs_scheme \<Rightarrow> 'a fs_scheme res" where
  "itrunc_indirect ip bp [] s = Ok s"
| "itrunc_indirect ip bp (j # js) s =
     (let a = get32 (4 * j) (bdata (bufs s bp)) in
      bind_res (if a \<noteq> 0 then bfree (idev (inodes s ip)) a s else Ok s) (itrunc_indirect ip bp js))"

definition itrunc :: "nat \<Rightarrow> 'a fs_scheme \<Rightarrow> 'a fs_scheme res" where
  "itrunc ip s =
     bind_res (itrunc_direct ip [0..<NDIRECT] s) (\<lambda>s.
       bind_res
         (if addrs (inodes s ip) ! NDIRECT \<noteq> 0
          then bind_res (bread (idev (inodes s ip)) (addrs (inodes s ip) ! NDIRECT) s) (\<lambda>(bp, s).
                 bind_res (itrunc_indirect ip bp [0..<NINDIRECT] s) (\<lambda>s.
                   bind_res (brelse bp s) (\<lambda>s.
                     bind_res (bfree (idev (inodes s ip)) (addrs (inodes s ip) ! NDIRECT) s) (\<lambda>s.
                       Ok (set_inode ip (\<lambda>x. x\<lparr>addrs := (addrs x)[NDIRECT := 0]\<rparr>) s)))))
          else Ok s) (\<lambda>s.
         iupdate ip (set_inode ip (\<lambda>x. x\<lparr>isize := 0\<rparr>) s)))"

definition iput :: "nat \<Rightarrow> 'a fs_scheme \<Rightarrow> 'a fs_scheme res" where
  "iput ip s =
     bind_res (acquire L_itable s) (\<lambda>s.
       bind_res
         (if iref (inodes s ip) = 1 \<and> ivalid (inodes s ip) \<and> nlink (inodes s ip) = 0
          then bind_res (acquiresleep (L_inode ip) s) (\<lambda>s.
                 bind_res (release L_itable s) (\<lambda>s.
                   bind_res (itrunc ip s) (\<lambda>s.
                     bind_res (iupdate ip (set_inode ip (\<lambda>x. x\<lparr>itype := 0\<rparr>) s)) (\<lambda>s.
                       bind_res (releasesleep (L_inode ip) (set_inode ip (\<lambda>x. x\<lparr>ivalid := False\<rparr>) s)) (\<lambda>s.
                         acquire L_itable s)))))
          else Ok s) (\<lambda>s.
         release L_itable (set_inode ip (\<lambda>x. x\<lparr>iref := iref x - 1\<rparr>) s)))"

definition iunlockput :: "nat \<Rightarrow> 'a fs_scheme \<Rightarrow> 'a fs_scheme res" where
  "iunlockput ip s = bind_res (iunlock (Some ip) s) (iput ip)"

definition stati :: "nat \<Rightarrow> 'a fs_scheme \<Rightarrow> stat" where
  "stati ip s = (let x = inodes s ip in
     \<lparr>st_dev = idev x, st_ino = inum x, st_type = itype x, st_nlink = nlink x, st_size = ucast (isize x)\<rparr>)"

definition chunk :: "u32 \<Rightarrow> u32 \<Rightarrow> u32 \<Rightarrow> u32" where
  "chunk n tot off = min (n - tot) (of_nat BSIZE - off mod of_nat BSIZE)"

lemma fchunk_pos: "tot < n \<Longrightarrow> 0 < chunk n tot off" "tot < n \<Longrightarrow> chunk n tot off \<le> n - tot"
proof -
  have "off mod 1024 < 1024" by (simp add: word_less_nat_alt unat_mod)
  then have "0 < 1024 - off mod 1024" by (simp add: word_less_nat_alt unat_sub word_le_nat_alt)
  then show "tot < n \<Longrightarrow> 0 < chunk n tot off" "tot < n \<Longrightarrow> chunk n tot off \<le> n - tot"
    by (auto simp: chunk_def BSIZE_def min_def word_less_nat_alt unat_sub word_le_nat_alt)
qed

lemma fchunk_less:
  assumes "tot < n"
  shows "unat (n - (tot + chunk n tot off)) < unat (n - tot)"
proof -
  have e: "n - (tot + chunk n tot off) = (n - tot) - chunk n tot off" by simp
  have "unat ((n - tot) - chunk n tot off) = unat (n - tot) - unat (chunk n tot off)"
    by (rule unat_sub [OF fchunk_pos(2) [OF assms]])
  moreover have "0 < unat (chunk n tot off)" using fchunk_pos(1) [OF assms, of off] by (simp only: word_less_nat_alt unat_0)
  moreover have "unat (chunk n tot off) \<le> unat (n - tot)" using fchunk_pos(2) [OF assms, of off] by (simp only: word_le_nat_alt)
  ultimately show ?thesis unfolding e by linarith
qed

function readi_loop :: "nat \<Rightarrow> dest \<Rightarrow> u32 \<Rightarrow> u32 \<Rightarrow> u32 \<Rightarrow> u8 list \<Rightarrow> 'a fs_scheme \<Rightarrow> (u32 \<times> u8 list \<times> 'a fs_scheme) res" where
  "readi_loop ip dst n tot off acc s =
     (if tot < n
      then bind_res (bmap ip (off div of_nat BSIZE) s) (\<lambda>(addr, s).
             bind_res (bread (idev (inodes s ip)) addr s) (\<lambda>(bp, s).
               let m = chunk n tot off; bs = slice (unat off mod BSIZE) (unat m) (bdata (bufs s bp)) in
               bind_res (either_copyout (dst_at dst (unat tot)) bs s) (\<lambda>(r, s).
                 if r = -1 then bind_res (brelse bp s) (\<lambda>s. Ok (-1, acc, s))
                 else bind_res (brelse bp s) (readi_loop ip dst n (tot + m) (off + m) (acc @ bs)))))
      else Ok (tot, acc, s))"
  by pat_completeness auto
termination
  by (relation "measure (\<lambda>(_, _, n, tot, _). unat (n - tot))") (auto simp: fchunk_less)

declare readi_loop.simps [simp del]

definition readi :: "nat \<Rightarrow> dest \<Rightarrow> u32 \<Rightarrow> u32 \<Rightarrow> 'a fs_scheme \<Rightarrow> (int \<times> u8 list \<times> 'a fs_scheme) res" where
  "readi ip dst off n s =
     (let sz = isize (inodes s ip) in
      if off > sz \<or> off + n < off then Ok (0, [], s)
      else let n = (if off + n > sz then sz - off else n) in
        bind_res (readi_loop ip dst n 0 off [] s) (\<lambda>(tot, acc, s). Ok (sint tot, acc, s)))"

function writei_loop :: "nat \<Rightarrow> source \<Rightarrow> u32 \<Rightarrow> u32 \<Rightarrow> u32 \<Rightarrow> 'a fs_scheme \<Rightarrow> (u32 \<times> u32 \<times> 'a fs_scheme) res" where
  "writei_loop ip src n tot off s =
     (if tot < n
      then bind_res (bmap ip (off div of_nat BSIZE) s) (\<lambda>(addr, s).
             bind_res (bread (idev (inodes s ip)) addr s) (\<lambda>(bp, s).
               let m = chunk n tot off in
               bind_res (either_copyin (src_at src (unat tot)) (ucast m) s) (\<lambda>(r, bs, s).
                 let s = put_data bp (splice (unat off mod BSIZE) bs (bdata (bufs s bp))) s in
                 if r = -1 then bind_res (brelse bp s) (\<lambda>s. Ok (tot, off, s))
                 else bind_res (log_write bp s) (\<lambda>s.
                        bind_res (brelse bp s) (writei_loop ip src n (tot + m) (off + m))))))
      else Ok (tot, off, s))"
  by pat_completeness auto
termination
  by (relation "measure (\<lambda>(_, _, n, tot, _). unat (n - tot))") (auto simp: fchunk_less)

declare writei_loop.simps [simp del]

definition writei :: "nat \<Rightarrow> source \<Rightarrow> u32 \<Rightarrow> u32 \<Rightarrow> 'a fs_scheme \<Rightarrow> (int \<times> 'a fs_scheme) res" where
  "writei ip src off n s =
     (if off > isize (inodes s ip) \<or> off + n < off then Ok (-1, s)
      else if unat (off + n) > MAXFILE * BSIZE then Ok (-1, s)
      else bind_res (writei_loop ip src n 0 off s) (\<lambda>(tot, off, s).
        let s = (if off > isize (inodes s ip) then set_inode ip (\<lambda>x. x\<lparr>isize := off\<rparr>) s else s) in
        bind_res (iupdate ip s) (\<lambda>s. Ok (sint tot, s))))"

section \<open>Directories\<close>

definition namecmp :: "u8 list \<Rightarrow> u8 list \<Rightarrow> int" where
  "namecmp s t = strncmp (at_buf s) (at_buf t) DIRSIZ"

definition de_inum :: "u8 list \<Rightarrow> u16" where
  "de_inum de = get16 0 de"

definition de_name :: "u8 list \<Rightarrow> u8 list" where
  "de_name de = slice 2 DIRSIZ de"

text \<open>
  The loops over the entries of a directory have fuel for one more round than the directory has entries. The offset of
  the entry is returned with the inode.
\<close>

definition dir_fuel :: "nat \<Rightarrow> 'a fs_scheme \<Rightarrow> nat" where
  "dir_fuel dp s = unat (isize (inodes s dp)) div sizeof_dirent + 2"

fun dirlookup_loop :: "nat \<Rightarrow> nat \<Rightarrow> u8 list \<Rightarrow> u32 \<Rightarrow> 'a fs_scheme \<Rightarrow> ((nat \<times> u32) option \<times> 'a fs_scheme) res" where
  "dirlookup_loop k dp name off s =
     (if off < isize (inodes s dp)
      then case k of 0 \<Rightarrow> OutOfFuel
        | Suc k \<Rightarrow>
          bind_res (readi dp Var_dst off (of_nat sizeof_dirent) s) (\<lambda>(r, de, s).
            if r \<noteq> int sizeof_dirent then Panic ''dirlookup read''
            else if de_inum de = 0 then dirlookup_loop k dp name (off + of_nat sizeof_dirent) s
            else if namecmp name (de_name de) = 0
            then bind_res (iget (idev (inodes s dp)) (ucast (de_inum de)) s) (\<lambda>(ip, s). Ok (Some (ip, off), s))
            else dirlookup_loop k dp name (off + of_nat sizeof_dirent) s)
      else Ok (None, s))"

declare dirlookup_loop.simps [simp del]

definition dirlookup :: "nat \<Rightarrow> u8 list \<Rightarrow> 'a fs_scheme \<Rightarrow> ((nat \<times> u32) option \<times> 'a fs_scheme) res" where
  "dirlookup dp name s =
     (if itype (inodes s dp) \<noteq> T_DIR then Panic ''dirlookup not DIR''
      else dirlookup_loop (dir_fuel dp s) dp name 0 s)"

fun dirlink_loop :: "nat \<Rightarrow> nat \<Rightarrow> u32 \<Rightarrow> u8 list \<Rightarrow> 'a fs_scheme \<Rightarrow> (u32 \<times> u8 list \<times> 'a fs_scheme) res" where
  "dirlink_loop k dp off de s =
     (if off < isize (inodes s dp)
      then case k of 0 \<Rightarrow> OutOfFuel
        | Suc k \<Rightarrow>
          bind_res (readi dp Var_dst off (of_nat sizeof_dirent) s) (\<lambda>(r, de, s).
            if r \<noteq> int sizeof_dirent then Panic ''dirlink read''
            else if de_inum de = 0 then Ok (off, de, s)
            else dirlink_loop k dp (off + of_nat sizeof_dirent) de s)
      else Ok (off, de, s))"

declare dirlink_loop.simps [simp del]

definition dirlink :: "nat \<Rightarrow> u8 list \<Rightarrow> u32 \<Rightarrow> 'a fs_scheme \<Rightarrow> (int \<times> 'a fs_scheme) res" where
  "dirlink dp name i s =
     bind_res (dirlookup dp name s) (\<lambda>(r, s).
       case r of
         Some (ip, _) \<Rightarrow> bind_res (iput ip s) (\<lambda>s. Ok (-1, s))
       | None \<Rightarrow>
         bind_res (dirlink_loop (dir_fuel dp s) dp 0 (replicate sizeof_dirent 0) s) (\<lambda>(off, de, s).
           let de = put16 0 (ucast i) (splice 2 (strncpy (de_name de) (at_buf name) DIRSIZ) de) in
           bind_res (writei dp (Var_src de) off (of_nat sizeof_dirent) s) (\<lambda>(r, s).
             if r \<noteq> int sizeof_dirent then Panic ''dirlink'' else Ok (0, s))))"

section \<open>Paths\<close>

definition slash :: u8 where "slash = 47"

fun skip_slashes :: "u8 list \<Rightarrow> u8 list" where
  "skip_slashes [] = []"
| "skip_slashes (c # cs) = (if c = slash then skip_slashes cs else c # cs)"

fun skip_name :: "u8 list \<Rightarrow> u8 list" where
  "skip_name [] = []"
| "skip_name (c # cs) = (if c \<noteq> slash \<and> c \<noteq> 0 then skip_name cs else c # cs)"

definition skipelem :: "u8 list \<Rightarrow> u8 list \<Rightarrow> (u8 list \<times> u8 list) option" where
  "skipelem path name =
     (let path = skip_slashes path in
      if at_buf path 0 = 0 then None
      else
        let s = path;
            path = skip_name path;
            len = length s - length path;
            name = (if len \<ge> DIRSIZ then splice 0 (take DIRSIZ s) name
                    else (splice 0 (take len s) name)[len := 0])
        in Some (skip_slashes path, name))"

lemma length_skip_slashes: "length (skip_slashes p) \<le> length p"
  by (induction p) auto

lemma length_skip_name: "length (skip_name p) \<le> length p"
  by (induction p) auto

lemma skipelem_shorter: "skipelem path name = Some (p, n) \<Longrightarrow> length p < length path"
proof -
  assume a: "skipelem path name = Some (p, n)"
  define q where "q = skip_slashes path"
  have p: "p = skip_slashes (skip_name q)" "at_buf q 0 \<noteq> 0"
    using a by (auto simp: skipelem_def Let_def q_def split: if_splits)
  then obtain c cs where c: "q = c # cs" "c \<noteq> 0" by (cases q) (auto simp: at_buf_def)
  moreover have "q = skip_slashes path \<Longrightarrow> c \<noteq> slash" using c by (induction path) (auto split: if_splits)
  ultimately have "length (skip_name q) < length q" using q_def length_skip_name [of cs] by simp
  then show ?thesis using length_skip_slashes [of path] length_skip_slashes [of "skip_name q"] unfolding p(1) q_def by linarith
qed

function namex_loop :: "u8 list \<Rightarrow> bool \<Rightarrow> u8 list \<Rightarrow> nat \<Rightarrow> 'a fs_scheme \<Rightarrow> (nat option \<times> u8 list \<times> 'a fs_scheme) res" where
  "namex_loop path par name ip s =
     (case skipelem path name of
        None \<Rightarrow>
          if par then bind_res (iput ip s) (\<lambda>s. Ok (None, name, s)) else Ok (Some ip, name, s)
      | Some (path, name) \<Rightarrow>
          bind_res (ilock (Some ip) s) (\<lambda>s.
            if itype (inodes s ip) \<noteq> T_DIR
            then bind_res (iunlockput ip s) (\<lambda>s. Ok (None, name, s))
            else if par \<and> at_buf path 0 = 0
            then bind_res (iunlock (Some ip) s) (\<lambda>s. Ok (Some ip, name, s))
            else bind_res (dirlookup ip name s) (\<lambda>(r, s).
              case r of
                None \<Rightarrow> bind_res (iunlockput ip s) (\<lambda>s. Ok (None, name, s))
              | Some (next, _) \<Rightarrow> bind_res (iunlockput ip s) (namex_loop path par name next))))"
  by pat_completeness auto
termination
  by (relation "measure (\<lambda>(path, _). length path)") (auto simp: skipelem_shorter)

declare namex_loop.simps [simp del]

definition namex :: "u8 list \<Rightarrow> bool \<Rightarrow> u8 list \<Rightarrow> 'a fs_scheme \<Rightarrow> (nat option \<times> u8 list \<times> 'a fs_scheme) res" where
  "namex path par name s =
     bind_res
       (if at_buf path 0 = slash then iget ROOTDEV ROOTINO s
        else bind_res (curproc s) (\<lambda>(p, s).
          case cwd (procs s p) of None \<Rightarrow> Panic ''kerneltrap'' | Some ip \<Rightarrow> idup ip s)) (\<lambda>(ip, s).
       namex_loop path par name ip s)"

definition namei :: "u8 list \<Rightarrow> 'a fs_scheme \<Rightarrow> (nat option \<times> 'a fs_scheme) res" where
  "namei path s = bind_res (namex path False (replicate DIRSIZ 0) s) (\<lambda>(ip, name, s). Ok (ip, s))"

definition nameiparent :: "u8 list \<Rightarrow> u8 list \<Rightarrow> 'a fs_scheme \<Rightarrow> (nat option \<times> u8 list \<times> 'a fs_scheme) res" where
  "nameiparent path name s = namex path True name s"

end
