(* ===== verification/Pipe.thy ===== *)
theory Pipe
  imports Fs
begin

text \<open>
  Pipes, \<^verbatim>\<open>kernel/pipe.c\<close>. A \<^verbatim>\<open>struct pipe\<close> lies in a page of its own, under whose address it is kept here
  as a record. A read or write that goes to sleep ends in the state in which it calls \<open>sleep\<close>, with the
  number of bytes moved so far (\<open>Block\<close>); \<open>pipewrite_loop\<close> and \<open>piperead_loop\<close> continue from there. \<open>pipealloc\<close>
  needs the file table and is in the theory of files.
\<close>

section \<open>State\<close>

definition PIPESIZE :: nat where "PIPESIZE = 512"

record pipe =
  pdata :: "u8 list"
  nread :: u32
  nwrite :: u32
  readopen :: bool
  writeopen :: bool

record pipefs = fs +
  pipes :: "u64 \<Rightarrow> pipe"

definition set_pipe :: "u64 \<Rightarrow> (pipe \<Rightarrow> pipe) \<Rightarrow> 'a pipefs_scheme \<Rightarrow> 'a pipefs_scheme" where
  "set_pipe pi f s = s\<lparr>pipes := (pipes s)(pi := f (pipes s pi))\<rparr>"

section \<open>Operations\<close>

definition pipeclose :: "u64 \<Rightarrow> bool \<Rightarrow> 'a pipefs_scheme \<Rightarrow> 'a pipefs_scheme res" where
  "pipeclose pi writable s =
     bind_res (acquire (L_pipe pi) s) (\<lambda>s.
       bind_res
         (if writable then wakeup (Ch_pipe_read pi) (set_pipe pi (\<lambda>q. q\<lparr>writeopen := False\<rparr>) s)
          else wakeup (Ch_pipe_write pi) (set_pipe pi (\<lambda>q. q\<lparr>readopen := False\<rparr>) s)) (\<lambda>s.
         if \<not> readopen (pipes s pi) \<and> \<not> writeopen (pipes s pi)
         then bind_res (release (L_pipe pi) s) (kfree pi)
         else release (L_pipe pi) s))"

definition pipe_put :: "u8 \<Rightarrow> pipe \<Rightarrow> pipe" where
  "pipe_put ch q = q\<lparr>pdata := (pdata q)[unat (nwrite q) mod PIPESIZE := ch], nwrite := nwrite q + 1\<rparr>"

definition pipe_get :: "pipe \<Rightarrow> u8 \<times> pipe" where
  "pipe_get q = (pdata q ! (unat (nread q) mod PIPESIZE), q\<lparr>nread := nread q + 1\<rparr>)"

text \<open>
  The loop of \<open>pipewrite\<close> by process \<open>pr\<close>, with \<open>k\<close> bytes to go and \<open>i\<close> moved. It ends with \<open>None\<close> where the
  code returns \<open>-1\<close> from inside the loop.
\<close>

fun pipewrite_loop :: "nat \<Rightarrow> nat \<Rightarrow> u64 \<Rightarrow> u64 \<Rightarrow> nat \<Rightarrow> 'a pipefs_scheme \<Rightarrow> (nat option, 'a pipefs_scheme) io res" where
  "pipewrite_loop 0 pr pi va i s = Ok (Done (Some i) s)"
| "pipewrite_loop (Suc k) pr pi va i s =
     (if \<not> readopen (pipes s pi) \<or> killed (procs s pr)
      then bind_res (release (L_pipe pi) s) (\<lambda>s. Ok (Done None s))
      else if nwrite (pipes s pi) = nread (pipes s pi) + of_nat PIPESIZE
      then bind_res (wakeup (Ch_pipe_read pi) s) (\<lambda>s. Ok (Block (Some i) s))
      else bind_res (copyin (pagetable (procs s pr)) (va + of_nat i) 1 s) (\<lambda>(r, bs).
        if r = -1 then Ok (Done (Some i) s)
        else pipewrite_loop k pr pi va (i + 1) (set_pipe pi (pipe_put (hd bs)) s)))"

definition pipewrite :: "u64 \<Rightarrow> u64 \<Rightarrow> int \<Rightarrow> 'a pipefs_scheme \<Rightarrow> (int, 'a pipefs_scheme) io res" where
  "pipewrite pi va n s =
     bind_res (curproc s) (\<lambda>(pr, s).
       bind_res (acquire (L_pipe pi) s) (\<lambda>s.
         bind_res (pipewrite_loop (nat n) pr pi va 0 s) (\<lambda>o'. case o' of
             Block i s \<Rightarrow> Ok (Block (int (the i)) s)
           | Done None s \<Rightarrow> Ok (Done (-1) s)
           | Done (Some i) s \<Rightarrow>
               bind_res (wakeup (Ch_pipe_read pi) s) (\<lambda>s.
                 bind_res (release (L_pipe pi) s) (\<lambda>s. Ok (Done (int i) s))))))"

fun piperead_loop :: "nat \<Rightarrow> nat \<Rightarrow> u64 \<Rightarrow> u64 \<Rightarrow> nat \<Rightarrow> 'a pipefs_scheme \<Rightarrow> (nat \<times> 'a pipefs_scheme) res" where
  "piperead_loop 0 pr pi va i s = Ok (i, s)"
| "piperead_loop (Suc k) pr pi va i s =
     (if nread (pipes s pi) = nwrite (pipes s pi) then Ok (i, s)
      else let (ch, q) = pipe_get (pipes s pi) in
        bind_res (copyout (pagetable (procs s pr)) (va + of_nat i) [ch] (set_pipe pi (\<lambda>_. q) s)) (\<lambda>(r, s).
          if r = -1 then Ok (i, s) else piperead_loop k pr pi va (i + 1) s))"

definition piperead :: "u64 \<Rightarrow> u64 \<Rightarrow> int \<Rightarrow> 'a pipefs_scheme \<Rightarrow> (int, 'a pipefs_scheme) io res" where
  "piperead pi va n s =
     bind_res (curproc s) (\<lambda>(pr, s).
       bind_res (acquire (L_pipe pi) s) (\<lambda>s.
         if nread (pipes s pi) = nwrite (pipes s pi) \<and> writeopen (pipes s pi)
         then if killed (procs s pr)
              then bind_res (release (L_pipe pi) s) (\<lambda>s. Ok (Done (-1) s))
              else Ok (Block 0 s)
         else bind_res (piperead_loop (nat n) pr pi va 0 s) (\<lambda>(i, s).
           bind_res (wakeup (Ch_pipe_write pi) s) (\<lambda>s.
             bind_res (release (L_pipe pi) s) (\<lambda>s. Ok (Done (int i) s))))))"

end
