(* ===== verification/File.thy ===== *)
theory File
  imports Pipe
begin

unbundle bit_operations_syntax

text \<open>
  Open files, \<^verbatim>\<open>kernel/file.c\<close>, with \<open>pipealloc\<close> of \<^verbatim>\<open>kernel/pipe.c\<close>, which takes two of them, and the entry of
  the console in the device table. A file is named by its index in \<open>ftable\<close>. The functions in \<open>devsw\<close> are
  named by constructors; \<open>devsw_read\<close> and \<open>devsw_write\<close> are the calls through the table.
\<close>

section \<open>State\<close>

definition NFILE :: nat where "NFILE = 100"
definition NDEV :: int where "NDEV = 10"
definition CONSOLE :: nat where "CONSOLE = 1"

datatype filetype = FD_NONE | FD_PIPE | FD_INODE | FD_DEVICE

record file_struct =
  ftype :: filetype
  fref :: int
  readable :: bool
  writable :: bool
  fpipe :: u64
  fip :: "nat option"
  foff :: u32
  fmajor :: u16

datatype dev_read = Consoleread
datatype dev_write = Consolewrite

record devsw =
  dread :: "dev_read option"
  dwrite :: "dev_write option"

record files = pipefs +
  ftable :: "nat \<Rightarrow> file_struct"
  devsw :: "nat \<Rightarrow> devsw"

definition set_file :: "nat \<Rightarrow> (file_struct \<Rightarrow> file_struct) \<Rightarrow> 'a files_scheme \<Rightarrow> 'a files_scheme" where
  "set_file f g s = s\<lparr>ftable := (ftable s)(f := g (ftable s f))\<rparr>"

section \<open>Operations\<close>

definition consoleinit :: "'a files_scheme \<Rightarrow> 'a files_scheme" where
  "consoleinit s = (console_uart_init s)\<lparr>devsw := (devsw s)(CONSOLE := \<lparr>dread = Some Consoleread, dwrite = Some Consolewrite\<rparr>)\<rparr>"

definition fileinit :: "'a files_scheme \<Rightarrow> 'a files_scheme" where
  "fileinit s = initlock L_ftable ''ftable'' s"

fun filealloc_scan :: "nat list \<Rightarrow> 'a files_scheme \<Rightarrow> nat option" where
  "filealloc_scan [] s = None"
| "filealloc_scan (f # fs) s = (if fref (ftable s f) = 0 then Some f else filealloc_scan fs s)"

definition filealloc :: "'a files_scheme \<Rightarrow> (nat option \<times> 'a files_scheme) res" where
  "filealloc s =
     bind_res (acquire L_ftable s) (\<lambda>s.
       case filealloc_scan [0..<NFILE] s of
         Some f \<Rightarrow> bind_res (release L_ftable (set_file f (\<lambda>x. x\<lparr>fref := 1\<rparr>) s)) (\<lambda>s. Ok (Some f, s))
       | None \<Rightarrow> bind_res (release L_ftable s) (\<lambda>s. Ok (None, s)))"

definition filedup :: "nat \<Rightarrow> 'a files_scheme \<Rightarrow> (nat \<times> 'a files_scheme) res" where
  "filedup f s =
     bind_res (acquire L_ftable s) (\<lambda>s.
       if fref (ftable s f) < 1 then Panic ''filedup''
       else bind_res (release L_ftable (set_file f (\<lambda>x. x\<lparr>fref := fref x + 1\<rparr>) s)) (\<lambda>s. Ok (f, s)))"

text \<open>A pointer to an inode that is followed without a test.\<close>

definition deref :: "nat option \<Rightarrow> (nat \<Rightarrow> 'b res) \<Rightarrow> 'b res" where
  "deref p g = (case p of None \<Rightarrow> Panic ''kerneltrap'' | Some a \<Rightarrow> g a)"

definition fileclose :: "nat \<Rightarrow> 'a files_scheme \<Rightarrow> 'a files_scheme res" where
  "fileclose f s =
     bind_res (acquire L_ftable s) (\<lambda>s.
       if fref (ftable s f) < 1 then Panic ''fileclose''
       else
         let s = set_file f (\<lambda>x. x\<lparr>fref := fref x - 1\<rparr>) s in
         if fref (ftable s f) > 0 then release L_ftable s
         else
           let ff = ftable s f in
           bind_res (release L_ftable (set_file f (\<lambda>x. x\<lparr>fref := 0, ftype := FD_NONE\<rparr>) s)) (\<lambda>s.
             if ftype ff = FD_PIPE then pipeclose (fpipe ff) (writable ff) s
             else if ftype ff = FD_INODE \<or> ftype ff = FD_DEVICE
             then bind_res (begin_op s) (\<lambda>s. deref (fip ff) (\<lambda>ip. bind_res (iput ip s) end_op))
             else Ok s))"

text \<open>The bytes of a \<^verbatim>\<open>struct stat\<close>; four bytes of padding lie before the size.\<close>

definition sizeof_stat :: nat where "sizeof_stat = 24"

definition stat_bytes :: "u8 list \<Rightarrow> stat \<Rightarrow> u8 list" where
  "stat_bytes pad st = le_encode 4 (unat (st_dev st)) @ le_encode 4 (unat (st_ino st)) @ le_encode 2 (unat (st_type st))
     @ le_encode 2 (unat (st_nlink st)) @ pad @ le_encode 8 (unat (st_size st))"

definition filestat :: "nat \<Rightarrow> u64 \<Rightarrow> 'a files_scheme \<Rightarrow> (int \<times> 'a files_scheme) res" where
  "filestat f va s =
     bind_res (curproc s) (\<lambda>(p, s).
       if ftype (ftable s f) = FD_INODE \<or> ftype (ftable s f) = FD_DEVICE
       then bind_res (ilock (fip (ftable s f)) s) (\<lambda>s.
              let st = stati (the (fip (ftable s f))) s in
              bind_res (iunlock (fip (ftable s f)) s) (\<lambda>s.
                bind_res (copyout (pagetable (procs s p)) va (stat_bytes (replicate 4 0) st) s) (\<lambda>(r, s).
                  if r < 0 then Ok (-1, s) else Ok (0, s))))
       else Ok (-1, s))"

fun devsw_read :: "dev_read \<Rightarrow> u64 \<Rightarrow> int \<Rightarrow> 'a files_scheme \<Rightarrow> (int, 'a files_scheme) io res" where
  "devsw_read Consoleread va n s =
     bind_res (consoleread (User_dst va) n s) (\<lambda>o'. case o' of
         Done (r, bs) s \<Rightarrow> Ok (Done r s) | Block (i, bs) s \<Rightarrow> Ok (Block i s))"

fun devsw_write :: "dev_write \<Rightarrow> u64 \<Rightarrow> int \<Rightarrow> 'a files_scheme \<Rightarrow> (int, 'a files_scheme) io res" where
  "devsw_write Consolewrite va n s = bind_res (consolewrite (User_src va) n s) (\<lambda>o'. case o' of
         Done i s \<Rightarrow> Ok (Done (int i) s) | Block i s \<Rightarrow> Ok (Block (int i) s))"

definition fileread :: "nat \<Rightarrow> u64 \<Rightarrow> int \<Rightarrow> 'a files_scheme \<Rightarrow> (int, 'a files_scheme) io res" where
  "fileread f va n s =
     (let x = ftable s f in
      if \<not> readable x then Ok (Done (-1) s)
      else case ftype x of
        FD_PIPE \<Rightarrow> piperead (fpipe x) va n s
      | FD_DEVICE \<Rightarrow>
          if sint (fmajor x) < 0 \<or> sint (fmajor x) \<ge> NDEV then Ok (Done (-1) s)
          else (case dread (devsw s (unat (fmajor x))) of
              None \<Rightarrow> Ok (Done (-1) s)
            | Some d \<Rightarrow> devsw_read d va n s)
      | FD_INODE \<Rightarrow>
          bind_res (ilock (fip x) s) (\<lambda>s.
            bind_res (readi (the (fip x)) (User_dst va) (foff (ftable s f)) (of_int n) s) (\<lambda>(r, _, s).
              let s = (if r > 0 then set_file f (\<lambda>x. x\<lparr>foff := foff x + of_int r\<rparr>) s else s) in
              bind_res (iunlock (fip x) s) (\<lambda>s. Ok (Done r s))))
      | FD_NONE \<Rightarrow> Panic ''fileread'')"

definition write_max :: int where
  "write_max = ((MAXOPBLOCKS - 1 - 1 - 2) div 2) * int BSIZE"

text \<open>One round of the loop in \<open>filewrite\<close> writes at least one byte, unless it is the last.\<close>

fun filewrite_loop :: "nat \<Rightarrow> nat \<Rightarrow> u64 \<Rightarrow> int \<Rightarrow> int \<Rightarrow> 'a files_scheme \<Rightarrow> (int \<times> 'a files_scheme) res" where
  "filewrite_loop k f va n i s =
     (if i < n
      then case k of 0 \<Rightarrow> OutOfFuel
        | Suc k \<Rightarrow>
          let n1 = (if n - i > write_max then write_max else n - i) in
          bind_res (begin_op s) (\<lambda>s.
            bind_res (ilock (fip (ftable s f)) s) (\<lambda>s.
              bind_res (writei (the (fip (ftable s f))) (User_src (va + of_int i)) (foff (ftable s f)) (of_int n1) s) (\<lambda>(r, s).
                let s = (if r > 0 then set_file f (\<lambda>x. x\<lparr>foff := foff x + of_int r\<rparr>) s else s) in
                bind_res (iunlock (fip (ftable s f)) s) (\<lambda>s.
                  bind_res (end_op s) (\<lambda>s.
                    if r \<noteq> n1 then Ok (i, s) else filewrite_loop k f va n (i + r) s)))))
      else Ok (i, s))"

declare filewrite_loop.simps [simp del]

definition filewrite :: "nat \<Rightarrow> u64 \<Rightarrow> int \<Rightarrow> 'a files_scheme \<Rightarrow> (int, 'a files_scheme) io res" where
  "filewrite f va n s =
     (let x = ftable s f in
      if \<not> writable x then Ok (Done (-1) s)
      else case ftype x of
        FD_PIPE \<Rightarrow> pipewrite (fpipe x) va n s
      | FD_DEVICE \<Rightarrow>
          if sint (fmajor x) < 0 \<or> sint (fmajor x) \<ge> NDEV then Ok (Done (-1) s)
          else (case dwrite (devsw s (unat (fmajor x))) of
              None \<Rightarrow> Ok (Done (-1) s)
            | Some d \<Rightarrow> devsw_write d va n s)
      | FD_INODE \<Rightarrow>
          bind_res (filewrite_loop (nat n) f va n 0 s) (\<lambda>(i, s). Ok (Done (if i = n then n else -1) s))
      | FD_NONE \<Rightarrow> Panic ''filewrite'')"

section \<open>Allocating a pipe\<close>

definition pipealloc_bad :: "nat option \<Rightarrow> nat option \<Rightarrow> 'a files_scheme \<Rightarrow> ((nat \<times> nat) option \<times> 'a files_scheme) res" where
  "pipealloc_bad f0 f1 s =
     bind_res (case f0 of None \<Rightarrow> Ok s | Some f \<Rightarrow> fileclose f s) (\<lambda>s.
       bind_res (case f1 of None \<Rightarrow> Ok s | Some f \<Rightarrow> fileclose f s) (\<lambda>s. Ok (None, s)))"

definition pipealloc :: "'a files_scheme \<Rightarrow> ((nat \<times> nat) option \<times> 'a files_scheme) res" where
  "pipealloc s =
     bind_res (filealloc s) (\<lambda>(f0, s).
       case f0 of None \<Rightarrow> pipealloc_bad None None s
       | Some a \<Rightarrow>
         bind_res (filealloc s) (\<lambda>(f1, s).
           case f1 of None \<Rightarrow> pipealloc_bad f0 None s
           | Some b \<Rightarrow>
             bind_res (kalloc s) (\<lambda>(pi, s).
               if pi = 0 then pipealloc_bad f0 f1 s
               else
                 let s = set_pipe pi (\<lambda>q. q\<lparr>readopen := True, writeopen := True, nwrite := 0, nread := 0\<rparr>) s;
                     s = initlock (L_pipe pi) ''pipe'' s;
                     s = set_file a (\<lambda>x. x\<lparr>ftype := FD_PIPE, readable := True, writable := False, fpipe := pi\<rparr>) s;
                     s = set_file b (\<lambda>x. x\<lparr>ftype := FD_PIPE, readable := False, writable := True, fpipe := pi\<rparr>) s
                 in Ok (Some (a, b), s))))"

end
