(* ===== verification/Syscall.thy ===== *)
theory Syscall
  imports File
begin

unbundle bit_operations_syntax

text \<open>
  Fetching the arguments of a system call from the trapframe and the memory of the calling process: \<^verbatim>\<open>kernel/syscall.c\<close>.
  A value that the code stores through a pointer is returned next to the result. The table of system calls and the dispatch
  are in a later theory.
\<close>

definition MAXPATH :: int where "MAXPATH = 128"
definition MAXARG :: nat where "MAXARG = 32"
definition NOFILE :: nat where "NOFILE = 16"

definition fetchaddr :: "u64 \<Rightarrow> 'a ptable_scheme \<Rightarrow> (int \<times> u64 \<times> 'a ptable_scheme) res" where
  "fetchaddr va s =
     bind_res (curproc s) (\<lambda>(p, s).
       if va \<ge> psz (procs s p) \<or> va + 8 > psz (procs s p) then Ok (-1, 0, s)
       else bind_res (copyin (pagetable (procs s p)) va 8 s) (\<lambda>(r, bs).
         if r \<noteq> 0 then Ok (-1, 0, s) else Ok (0, of_nat (le_decode bs), s)))"

definition fetchstr :: "u64 \<Rightarrow> int \<Rightarrow> 'a ptable_scheme \<Rightarrow> (int \<times> u8 list \<times> 'a ptable_scheme) res" where
  "fetchstr va mx s =
     bind_res (curproc s) (\<lambda>(p, s).
       bind_res (copyinstr (pagetable (procs s p)) va (of_int mx) s) (\<lambda>(err, buf).
         if err < 0 then Ok (err, buf, s)
         else case strlen (at_buf buf) of None \<Rightarrow> Spin | Some n \<Rightarrow> Ok (int n, buf, s)))"

definition argraw :: "nat \<Rightarrow> 'a ptable_scheme \<Rightarrow> (u64 \<times> 'a ptable_scheme) res" where
  "argraw n s =
     bind_res (curproc s) (\<lambda>(p, s).
       if n = 0 then Ok (tf_get p TF_a0 s, s)
       else if n = 1 then Ok (tf_get p TF_a1 s, s)
       else if n = 2 then Ok (tf_get p TF_a2 s, s)
       else if n = 3 then Ok (tf_get p TF_a3 s, s)
       else if n = 4 then Ok (tf_get p TF_a4 s, s)
       else if n = 5 then Ok (tf_get p TF_a5 s, s)
       else Panic ''argraw'')"

text \<open>\<open>argint\<close> and \<open>argaddr\<close> always return 0; what they store is the result here.\<close>

definition argint :: "nat \<Rightarrow> 'a ptable_scheme \<Rightarrow> (int \<times> 'a ptable_scheme) res" where
  "argint n s = bind_res (argraw n s) (\<lambda>(v, s). Ok (sint (ucast v :: u32), s))"

definition argaddr :: "nat \<Rightarrow> 'a ptable_scheme \<Rightarrow> (u64 \<times> 'a ptable_scheme) res" where
  "argaddr n s = argraw n s"

definition argstr :: "nat \<Rightarrow> int \<Rightarrow> 'a ptable_scheme \<Rightarrow> (int \<times> u8 list \<times> 'a ptable_scheme) res" where
  "argstr n mx s = bind_res (argaddr n s) (\<lambda>(va, s). fetchstr va mx s)"

end
