(* ===== verification/Process.thy ===== *)
theory Process
  imports Syscall
begin

unbundle bit_operations_syntax

text \<open>
  The life cycle of processes, the part of \<^verbatim>\<open>kernel/proc.c\<close> that needs files and inodes: the first process, \<open>fork\<close>, \<open>exit\<close>
  and \<open>wait\<close>. \<open>exit\<close> ends in the state in which it switches to the scheduler for the last time; \<open>wait\<close> either
  returns or ends in the state in which it goes to sleep.
\<close>

definition initcode :: "u8 list" where
  "initcode = [
  0x17, 0x05, 0x00, 0x00, 0x13, 0x05, 0x45, 0x02,
  0x97, 0x05, 0x00, 0x00, 0x93, 0x85, 0x35, 0x02,
  0x93, 0x08, 0x70, 0x00, 0x73, 0x00, 0x00, 0x00,
  0x93, 0x08, 0x20, 0x00, 0x73, 0x00, 0x00, 0x00,
  0xef, 0xf0, 0x9f, 0xff, 0x2f, 0x69, 0x6e, 0x69,
  0x74, 0x00, 0x00, 0x24, 0x00, 0x00, 0x00, 0x00,
  0x00, 0x00, 0x00, 0x00]"

text \<open>Without a free process the code goes on with a null pointer, and faults.\<close>

definition userinit :: "'a files_scheme \<Rightarrow> 'a files_scheme res" where
  "userinit s =
     bind_res (allocproc s) (\<lambda>(p, s).
       deref p (\<lambda>q.
         bind_res (uvminit (pagetable (procs s q)) initcode (s\<lparr>initproc := p\<rparr>)) (\<lambda>s.
           let s = set_proc q (\<lambda>x. x\<lparr>psz := PGSIZE\<rparr>) s;
               s = tf_set q TF_epc 0 s;
               s = tf_set q TF_sp PGSIZE s;
               s = set_proc q (\<lambda>x. x\<lparr>pname := safestrcpy (pname x) (at_buf (bytes ''initcode'')) 16\<rparr>) s
           in bind_res (namei (bytes ''/'') s) (\<lambda>(ip, s).
                release (L_proc q) (set_proc q (\<lambda>x. x\<lparr>cwd := ip, pstate := RUNNABLE\<rparr>) s)))))"

text \<open>The descriptors of the parent, from \<open>i\<close> on.\<close>

fun fork_files :: "nat \<Rightarrow> nat \<Rightarrow> nat list \<Rightarrow> 'a files_scheme \<Rightarrow> 'a files_scheme res" where
  "fork_files p np [] s = Ok s"
| "fork_files p np (i # is) s =
     (case ofile (procs s p) ! i of
        None \<Rightarrow> fork_files p np is s
      | Some f \<Rightarrow> bind_res (filedup f s) (\<lambda>(f, s).
          fork_files p np is (set_proc np (\<lambda>x. x\<lparr>ofile := (ofile x)[i := Some f]\<rparr>) s)))"

definition fork :: "'a files_scheme \<Rightarrow> (int \<times> 'a files_scheme) res" where
  "fork s =
     bind_res (curproc s) (\<lambda>(p, s).
       bind_res (allocproc s) (\<lambda>(np, s).
         case np of None \<Rightarrow> Ok (-1, s)
         | Some np \<Rightarrow>
           bind_res (uvmcopy (pagetable (procs s p)) (pagetable (procs s np)) (psz (procs s p)) s) (\<lambda>(r, s).
             if r < 0
             then bind_res (freeproc np s) (\<lambda>s. bind_res (release (L_proc np) s) (\<lambda>s. Ok (-1, s)))
             else
               let s = set_proc np (\<lambda>x. x\<lparr>psz := psz (procs s p)\<rparr>) s;
                   s = s\<lparr>mem := write_bytes (mem s) (trapframe (procs s np))
                                 (read_bytes (mem s) (trapframe (procs s p)) sizeof_trapframe)\<rparr>;
                   s = tf_set np TF_a0 0 s
               in bind_res (fork_files p np [0..<NOFILE] s) (\<lambda>s.
                 deref (cwd (procs s p)) (\<lambda>c.
                   bind_res (idup c s) (\<lambda>(c, s).
                     let s = set_proc np (\<lambda>x. x\<lparr>cwd := Some c\<rparr>) s;
                         s = set_proc np (\<lambda>x. x\<lparr>pname := safestrcpy (pname x) (at_buf (pname (procs s p))) 16\<rparr>) s;
                         i = pid (procs s np)
                     in bind_res (release (L_proc np) s) (\<lambda>s.
                          bind_res (acquire L_wait s) (\<lambda>s.
                            bind_res (release L_wait (set_proc np (\<lambda>x. x\<lparr>parent := Some p\<rparr>) s)) (\<lambda>s.
                              bind_res (acquire (L_proc np) s) (\<lambda>s.
                                bind_res (release (L_proc np) (set_proc np (\<lambda>x. x\<lparr>pstate := RUNNABLE\<rparr>) s)) (\<lambda>s.
                                  Ok (i, s))))))))))))"

text \<open>No process sleeps on a null channel.\<close>

definition wakeup_proc :: "nat option \<Rightarrow> 'a ptable_scheme \<Rightarrow> 'a ptable_scheme res" where
  "wakeup_proc p s = (case p of None \<Rightarrow> Ok s | Some p \<Rightarrow> wakeup (Ch_proc p) s)"

fun reparent_loop :: "nat \<Rightarrow> nat list \<Rightarrow> 'a ptable_scheme \<Rightarrow> 'a ptable_scheme res" where
  "reparent_loop p [] s = Ok s"
| "reparent_loop p (pp # pps) s =
     (if parent (procs s pp) = Some p
      then bind_res (wakeup_proc (initproc s) (set_proc pp (\<lambda>x. x\<lparr>parent := initproc s\<rparr>) s)) (reparent_loop p pps)
      else reparent_loop p pps s)"

definition reparent :: "nat \<Rightarrow> 'a ptable_scheme \<Rightarrow> 'a ptable_scheme res" where
  "reparent p s = reparent_loop p [0..<NPROC] s"

fun exit_files :: "nat \<Rightarrow> nat list \<Rightarrow> 'a files_scheme \<Rightarrow> 'a files_scheme res" where
  "exit_files p [] s = Ok s"
| "exit_files p (fd # fds) s =
     (case ofile (procs s p) ! fd of
        None \<Rightarrow> exit_files p fds s
      | Some f \<Rightarrow> bind_res (fileclose f s) (\<lambda>s.
          exit_files p fds (set_proc p (\<lambda>x. x\<lparr>ofile := (ofile x)[fd := None]\<rparr>) s)))"

definition exit :: "int \<Rightarrow> 'a files_scheme \<Rightarrow> 'a files_scheme res" where
  "exit status s =
     bind_res (curproc s) (\<lambda>(p, s).
       if initproc s = Some p then Panic ''init exiting''
       else bind_res (exit_files p [0..<NOFILE] s) (\<lambda>s.
         bind_res (begin_op s) (\<lambda>s.
           deref (cwd (procs s p)) (\<lambda>c.
             bind_res (iput c s) (\<lambda>s.
               bind_res (end_op s) (\<lambda>s.
                 bind_res (acquire L_wait (set_proc p (\<lambda>x. x\<lparr>cwd := None\<rparr>) s)) (\<lambda>s.
                   bind_res (reparent p s) (\<lambda>s.
                     bind_res (wakeup_proc (parent (procs s p)) s) (\<lambda>s.
                       bind_res (acquire (L_proc p) s) (\<lambda>s.
                         bind_res (release L_wait (set_proc p (\<lambda>x. x\<lparr>xstate := status, pstate := ZOMBIE\<rparr>) s)) (\<lambda>s.
                           bind_res (sched s) (\<lambda>(_, s). Ok s))))))))))))"

text \<open>
  One scan of \<open>wait\<close> over the process table: \<open>Inl r\<close> is a return from inside the scan, with both locks
  released; \<open>Inr h\<close> says whether there is a child.
\<close>

fun wait_scan :: "nat \<Rightarrow> u64 \<Rightarrow> nat list \<Rightarrow> bool \<Rightarrow> 'a ptable_scheme \<Rightarrow> ((int + bool) \<times> 'a ptable_scheme) res" where
  "wait_scan p va [] h s = Ok (Inr h, s)"
| "wait_scan p va (np # nps) h s =
     (if parent (procs s np) = Some p
      then bind_res (acquire (L_proc np) s) (\<lambda>s.
        if pstate (procs s np) = ZOMBIE
        then
          let i = pid (procs s np) in
          bind_res (if va \<noteq> 0 then copyout (pagetable (procs s p)) va (le_encode 4 (unat (of_int (xstate (procs s np)) :: u32))) s
                    else Ok (0, s)) (\<lambda>(r, s).
            if r < 0
            then bind_res (release (L_proc np) s) (\<lambda>s. bind_res (release L_wait s) (\<lambda>s. Ok (Inl (-1), s)))
            else bind_res (freeproc np s) (\<lambda>s.
              bind_res (release (L_proc np) s) (\<lambda>s. bind_res (release L_wait s) (\<lambda>s. Ok (Inl i, s)))))
        else bind_res (release (L_proc np) s) (wait_scan p va nps True))
      else wait_scan p va nps h s)"

definition wait :: "u64 \<Rightarrow> 'a ptable_scheme \<Rightarrow> (int, 'a ptable_scheme) io res" where
  "wait va s =
     bind_res (curproc s) (\<lambda>(p, s).
       bind_res (acquire L_wait s) (\<lambda>s.
         bind_res (wait_scan p va [0..<NPROC] False s) (\<lambda>(r, s). case r of
             Inl i \<Rightarrow> Ok (Done i s)
           | Inr h \<Rightarrow>
               if \<not> h \<or> killed (procs s p)
               then bind_res (release L_wait s) (\<lambda>s. Ok (Done (-1) s))
               else Ok (Block 0 s))))"

end
