(* ===== verification/Exec.thy ===== *)
theory Exec
  imports Process
begin

unbundle bit_operations_syntax

text \<open>
  Replacing the image of a process, \<^verbatim>\<open>kernel/exec.c\<close>, with the headers of an executable file from \<^verbatim>\<open>kernel/elf.h\<close>. The vector
  \<open>argv\<close> is the list of its pointers up to the null pointer. \<open>exec_bad\<close> is the code at the label \<open>bad\<close>.
\<close>

section \<open>ELF headers\<close>

definition get64 :: "nat \<Rightarrow> u8 list \<Rightarrow> u64" where
  "get64 i bs = of_nat (le_decode (slice i 8 bs))"

definition ELF_MAGIC :: u32 where "ELF_MAGIC = 0x464C457F"
definition ELF_PROG_LOAD :: u32 where "ELF_PROG_LOAD = 1"
definition sizeof_elfhdr :: nat where "sizeof_elfhdr = 64"
definition sizeof_proghdr :: nat where "sizeof_proghdr = 56"

record elfhdr =
  e_magic :: u32
  e_entry :: u64
  e_phoff :: u64
  e_phnum :: u16

definition elfhdr_of :: "u8 list \<Rightarrow> elfhdr" where
  "elfhdr_of bs = \<lparr>e_magic = get32 0 bs, e_entry = get64 24 bs, e_phoff = get64 32 bs, e_phnum = get16 56 bs\<rparr>"

record proghdr =
  p_type :: u32
  p_off :: u64
  p_vaddr :: u64
  p_filesz :: u64
  p_memsz :: u64

definition proghdr_of :: "u8 list \<Rightarrow> proghdr" where
  "proghdr_of bs = \<lparr>p_type = get32 0 bs, p_off = get64 8 bs, p_vaddr = get64 16 bs, p_filesz = get64 32 bs, p_memsz = get64 40 bs\<rparr>"

section \<open>Loading\<close>

text \<open>The fuel of the loop is the number of pages of the segment; only the wrap-around of \<open>i\<close> at 4 GB could exceed it.\<close>

fun loadseg_loop :: "nat \<Rightarrow> u64 \<Rightarrow> u64 \<Rightarrow> nat \<Rightarrow> u32 \<Rightarrow> u32 \<Rightarrow> u32 \<Rightarrow> 'a fs_scheme \<Rightarrow> (int \<times> 'a fs_scheme) res" where
  "loadseg_loop k pt va ip offset sz i s =
     (if i < sz
      then case k of 0 \<Rightarrow> OutOfFuel
        | Suc k \<Rightarrow>
          bind_res (walkaddr pt (va + ucast i) s) (\<lambda>pa.
            if pa = 0 then Panic ''loadseg: address should exist''
            else
              let n = (if sz - i < ucast PGSIZE then sz - i else ucast PGSIZE) in
              bind_res (readi ip (Page_dst pa) (offset + i) n s) (\<lambda>(r, _, s).
                if of_int r \<noteq> n then Ok (-1, s)
                else loadseg_loop k pt va ip offset sz (i + ucast PGSIZE) s))
      else Ok (0, s))"

declare loadseg_loop.simps [simp del]

definition loadseg :: "u64 \<Rightarrow> u64 \<Rightarrow> nat \<Rightarrow> u32 \<Rightarrow> u32 \<Rightarrow> 'a fs_scheme \<Rightarrow> (int \<times> 'a fs_scheme) res" where
  "loadseg pt va ip offset sz s = loadseg_loop (unat sz div 4096 + 1) pt va ip offset sz 0 s"

definition exec_bad :: "u64 \<Rightarrow> u64 \<Rightarrow> nat option \<Rightarrow> 'a files_scheme \<Rightarrow> (int \<times> 'a files_scheme) res" where
  "exec_bad pt sz ip s =
     bind_res (if pt \<noteq> 0 then proc_freepagetable pt sz s else Ok s) (\<lambda>s.
       bind_res (case ip of None \<Rightarrow> Ok s | Some ip \<Rightarrow> bind_res (iunlockput ip s) end_op) (\<lambda>s. Ok (-1, s)))"

text \<open>
  The loop over the program headers, with \<open>k\<close> headers to go, and the size so far; the result \<open>False\<close> stands for \<open>goto bad\<close>.
\<close>

fun exec_load :: "nat \<Rightarrow> u64 \<Rightarrow> nat \<Rightarrow> u32 \<Rightarrow> u64 \<Rightarrow> 'a files_scheme \<Rightarrow> (bool \<times> u64 \<times> 'a files_scheme) res" where
  "exec_load 0 pt ip off sz s = Ok (True, sz, s)"
| "exec_load (Suc k) pt ip off sz s =
     bind_res (readi ip Var_dst off (of_nat sizeof_proghdr) s) (\<lambda>(r, bs, s).
       let ph = proghdr_of bs in
       if r \<noteq> int sizeof_proghdr then Ok (False, sz, s)
       else if p_type ph \<noteq> ELF_PROG_LOAD then exec_load k pt ip (off + of_nat sizeof_proghdr) sz s
       else if p_memsz ph < p_filesz ph then Ok (False, sz, s)
       else if p_vaddr ph + p_memsz ph < p_vaddr ph then Ok (False, sz, s)
       else bind_res (uvmalloc pt sz (p_vaddr ph + p_memsz ph) s) (\<lambda>(sz1, s).
         if sz1 = 0 then Ok (False, sz, s)
         else if p_vaddr ph mod PGSIZE \<noteq> 0 then Ok (False, sz1, s)
         else bind_res (loadseg pt (p_vaddr ph) ip (ucast (p_off ph)) (ucast (p_filesz ph)) s) (\<lambda>(r, s).
           if r < 0 then Ok (False, sz1, s)
           else exec_load k pt ip (off + of_nat sizeof_proghdr) sz1 s)))"

section \<open>The stack of the new image\<close>

definition align_down16 :: "u64 \<Rightarrow> u64" where
  "align_down16 usp = usp - usp mod 16"

text \<open>Pushing the argument strings: \<open>None\<close> stands for \<open>goto bad\<close>; otherwise the stack pointer and the array \<open>ustack\<close>.\<close>

fun exec_args :: "u64 \<Rightarrow> u64 \<Rightarrow> u64 list \<Rightarrow> u64 \<Rightarrow> u64 list \<Rightarrow> 'a files_scheme \<Rightarrow> ((u64 \<times> u64 list) option \<times> 'a files_scheme) res" where
  "exec_args pt stackbase [] usp ustack s = Ok (Some (usp, ustack), s)"
| "exec_args pt stackbase (a # argv) usp ustack s =
     (if length ustack \<ge> MAXARG then Ok (None, s)
      else case strlen (at_mem (mem s) a) of None \<Rightarrow> Spin
        | Some n \<Rightarrow>
          let usp = align_down16 (usp - (of_nat n + 1)) in
          if usp < stackbase then Ok (None, s)
          else bind_res (copyout pt usp (read_bytes (mem s) a (n + 1)) s) (\<lambda>(r, s).
            if r < 0 then Ok (None, s)
            else exec_args pt stackbase argv usp (ustack @ [usp]) s))"

definition words_bytes :: "u64 list \<Rightarrow> u8 list" where
  "words_bytes ws = concat (map (\<lambda>w. le_encode 8 (unat w)) ws)"

definition push_argv :: "u64 \<Rightarrow> u64 \<Rightarrow> u64 list \<Rightarrow> u64 \<Rightarrow> 'a files_scheme \<Rightarrow> ((u64 \<times> u64) option \<times> 'a files_scheme) res" where
  "push_argv pt stackbase argv usp s =
     bind_res (exec_args pt stackbase argv usp [] s) (\<lambda>(r, s).
       case r of None \<Rightarrow> Ok (None, s)
       | Some (usp, ustack) \<Rightarrow>
         let argc = of_nat (length ustack) :: u64;
             usp = align_down16 (usp - (argc + 1) * 8)
         in if usp < stackbase then Ok (None, s)
            else bind_res (copyout pt usp (words_bytes (ustack @ [0])) s) (\<lambda>(r, s).
              if r < 0 then Ok (None, s) else Ok (Some (argc, usp), s)))"

text \<open>The loop that looks for the last component of the path.\<close>

fun last_elem :: "u8 list \<Rightarrow> u8 list \<Rightarrow> u8 list" where
  "last_elem l [] = l"
| "last_elem l (c # cs) = (if c = 0 then l else last_elem (if c = slash then cs else l) cs)"

section \<open>Replacing the image\<close>

text \<open>From the second \<open>myproc\<close> of \<open>exec\<close> on: the stack, the arguments, and the switch to the new image.\<close>

definition exec_commit :: "u64 \<Rightarrow> u64 \<Rightarrow> u64 \<Rightarrow> u8 list \<Rightarrow> u64 list \<Rightarrow> 'a files_scheme \<Rightarrow> (int \<times> 'a files_scheme) res" where
  "exec_commit entry pt sz path argv s =
     bind_res (curproc s) (\<lambda>(p, s).
       let oldsz = psz (procs s p); sz = PGROUNDUP sz in
       bind_res (uvmalloc pt sz (sz + 2 * PGSIZE) s) (\<lambda>(sz1, s).
         if sz1 = 0 then exec_bad pt sz None s
         else
           let sz = sz1 in
           bind_res (uvmclear pt (sz - 2 * PGSIZE) s) (\<lambda>s.
             bind_res (push_argv pt (sz - PGSIZE) argv sz s) (\<lambda>(r, s).
               case r of None \<Rightarrow> exec_bad pt sz None s
               | Some (argc, usp) \<Rightarrow>
                 let s = tf_set p TF_a1 usp s;
                     s = set_proc p (\<lambda>x. x\<lparr>pname := safestrcpy (pname x) (at_buf (last_elem path path)) 16\<rparr>) s;
                     oldpt = pagetable (procs s p);
                     s = set_proc p (\<lambda>x. x\<lparr>pagetable := pt, psz := sz\<rparr>) s;
                     s = tf_set p TF_epc entry s;
                     s = tf_set p TF_sp usp s
                 in bind_res (proc_freepagetable oldpt oldsz s) (\<lambda>s. Ok (sint (ucast argc :: u32), s))))))"

definition exec :: "u8 list \<Rightarrow> u64 list \<Rightarrow> 'a files_scheme \<Rightarrow> (int \<times> 'a files_scheme) res" where
  "exec path argv s =
     bind_res (curproc s) (\<lambda>(p, s).
       bind_res (begin_op s) (\<lambda>s.
         bind_res (namei path s) (\<lambda>(ip, s).
           case ip of None \<Rightarrow> bind_res (end_op s) (\<lambda>s. Ok (-1, s))
           | Some i \<Rightarrow>
             bind_res (ilock ip s) (\<lambda>s.
               bind_res (readi i Var_dst 0 (of_nat sizeof_elfhdr) s) (\<lambda>(r, bs, s).
                 let elf = elfhdr_of bs in
                 if r \<noteq> int sizeof_elfhdr then exec_bad 0 0 ip s
                 else if e_magic elf \<noteq> ELF_MAGIC then exec_bad 0 0 ip s
                 else bind_res (proc_pagetable p s) (\<lambda>(pt, s).
                   if pt = 0 then exec_bad 0 0 ip s
                   else bind_res (exec_load (unat (e_phnum elf)) pt i (ucast (e_phoff elf)) 0 s) (\<lambda>(ok, sz, s).
                     if \<not> ok then exec_bad pt sz ip s
                     else bind_res (iunlockput i s) (\<lambda>s.
                       bind_res (end_op s) (exec_commit (e_entry elf) pt sz path argv)))))))))"

end
