(* ===== verification/Sysfile.thy ===== *)
theory Sysfile
  imports Exec
begin

unbundle bit_operations_syntax

text \<open>
  The system calls on files, \<^verbatim>\<open>kernel/sysfile.c\<close>. The code after a label \<open>bad\<close> is a definition of its own. A local array
  that the code does not initialise is filled with zeros. \<open>ialloc\<close> panics instead of returning a null
  pointer, so that \<open>create\<close> has no such case.
\<close>

definition O_RDONLY :: u32 where "O_RDONLY = 0"
definition O_WRONLY :: u32 where "O_WRONLY = 1"
definition O_RDWR :: u32 where "O_RDWR = 2"
definition O_CREATE :: u32 where "O_CREATE = 0x200"
definition O_TRUNC :: u32 where "O_TRUNC = 0x400"

section \<open>Descriptors\<close>

definition argfd :: "nat \<Rightarrow> 'a files_scheme \<Rightarrow> ((nat \<times> nat) option \<times> 'a files_scheme) res" where
  "argfd n s =
     bind_res (argint n s) (\<lambda>(fd, s).
       if fd < 0 \<or> fd \<ge> int NOFILE then Ok (None, s)
       else bind_res (curproc s) (\<lambda>(p, s).
         case ofile (procs s p) ! nat fd of None \<Rightarrow> Ok (None, s) | Some f \<Rightarrow> Ok (Some (nat fd, f), s)))"

fun fdalloc_scan :: "nat option list \<Rightarrow> nat list \<Rightarrow> nat option" where
  "fdalloc_scan fs [] = None"
| "fdalloc_scan fs (fd # fds) = (if fs ! fd = None then Some fd else fdalloc_scan fs fds)"

definition set_ofile :: "nat \<Rightarrow> nat \<Rightarrow> nat option \<Rightarrow> 'a ptable_scheme \<Rightarrow> 'a ptable_scheme" where
  "set_ofile p fd f s = set_proc p (\<lambda>x. x\<lparr>ofile := (ofile x)[fd := f]\<rparr>) s"

definition fdalloc :: "nat \<Rightarrow> 'a files_scheme \<Rightarrow> (nat option \<times> 'a files_scheme) res" where
  "fdalloc f s =
     bind_res (curproc s) (\<lambda>(p, s).
       case fdalloc_scan (ofile (procs s p)) [0..<NOFILE] of
         None \<Rightarrow> Ok (None, s)
       | Some fd \<Rightarrow> Ok (Some fd, set_ofile p fd (Some f) s))"

definition sys_dup :: "'a files_scheme \<Rightarrow> (u64 \<times> 'a files_scheme) res" where
  "sys_dup s =
     bind_res (argfd 0 s) (\<lambda>(a, s).
       case a of None \<Rightarrow> Ok (-1, s)
       | Some (_, f) \<Rightarrow>
         bind_res (fdalloc f s) (\<lambda>(fd, s).
           case fd of None \<Rightarrow> Ok (-1, s)
           | Some fd \<Rightarrow> bind_res (filedup f s) (\<lambda>(_, s). Ok (of_nat fd, s))))"

definition io_u64 :: "(int, 's) io \<Rightarrow> (u64, 's) io" where
  "io_u64 r = (case r of Done v s \<Rightarrow> Done (of_int v) s | Block v s \<Rightarrow> Block (of_int v) s)"

definition sys_read :: "'a files_scheme \<Rightarrow> (u64, 'a files_scheme) io res" where
  "sys_read s =
     bind_res (argfd 0 s) (\<lambda>(a, s).
       case a of None \<Rightarrow> Ok (Done (-1) s)
       | Some (_, f) \<Rightarrow>
         bind_res (argint 2 s) (\<lambda>(n, s).
           bind_res (argaddr 1 s) (\<lambda>(p, s).
             bind_res (fileread f p n s) (\<lambda>r. Ok (io_u64 r)))))"

definition sys_write :: "'a files_scheme \<Rightarrow> (u64, 'a files_scheme) io res" where
  "sys_write s =
     bind_res (argfd 0 s) (\<lambda>(a, s).
       case a of None \<Rightarrow> Ok (Done (-1) s)
       | Some (_, f) \<Rightarrow>
         bind_res (argint 2 s) (\<lambda>(n, s).
           bind_res (argaddr 1 s) (\<lambda>(p, s).
             bind_res (filewrite f p n s) (\<lambda>r. Ok (io_u64 r)))))"

definition sys_close :: "'a files_scheme \<Rightarrow> (u64 \<times> 'a files_scheme) res" where
  "sys_close s =
     bind_res (argfd 0 s) (\<lambda>(a, s).
       case a of None \<Rightarrow> Ok (-1, s)
       | Some (fd, f) \<Rightarrow>
         bind_res (curproc s) (\<lambda>(p, s).
           bind_res (fileclose f (set_ofile p fd None s)) (\<lambda>s. Ok (0, s))))"

definition sys_fstat :: "'a files_scheme \<Rightarrow> (u64 \<times> 'a files_scheme) res" where
  "sys_fstat s =
     bind_res (argfd 0 s) (\<lambda>(a, s).
       case a of None \<Rightarrow> Ok (-1, s)
       | Some (_, f) \<Rightarrow>
         bind_res (argaddr 1 s) (\<lambda>(st, s).
           bind_res (filestat f st s) (\<lambda>(r, s). Ok (of_int r, s))))"

section \<open>Names\<close>

text \<open>Leaving a call inside a transaction.\<close>

definition leave_op :: "u64 \<Rightarrow> 'a fs_scheme \<Rightarrow> (u64 \<times> 'a fs_scheme) res" where
  "leave_op v s = bind_res (end_op s) (\<lambda>s. Ok (v, s))"

definition sys_link_bad :: "nat \<Rightarrow> 'a fs_scheme \<Rightarrow> (u64 \<times> 'a fs_scheme) res" where
  "sys_link_bad ip s =
     bind_res (ilock (Some ip) s) (\<lambda>s.
       bind_res (iupdate ip (set_inode ip (\<lambda>x. x\<lparr>nlink := nlink x - 1\<rparr>) s)) (\<lambda>s.
         bind_res (iunlockput ip s) (leave_op (-1))))"

definition sys_link :: "'a fs_scheme \<Rightarrow> (u64 \<times> 'a fs_scheme) res" where
  "sys_link s =
     bind_res (argstr 0 MAXPATH s) (\<lambda>(r, old, s).
       if r < 0 then Ok (-1, s)
       else bind_res (argstr 1 MAXPATH s) (\<lambda>(r, new, s).
         if r < 0 then Ok (-1, s)
         else bind_res (begin_op s) (\<lambda>s.
           bind_res (namei old s) (\<lambda>(ip, s).
             case ip of None \<Rightarrow> leave_op (-1) s
             | Some ip \<Rightarrow>
               bind_res (ilock (Some ip) s) (\<lambda>s.
                 if itype (inodes s ip) = T_DIR then bind_res (iunlockput ip s) (leave_op (-1))
                 else bind_res (iupdate ip (set_inode ip (\<lambda>x. x\<lparr>nlink := nlink x + 1\<rparr>) s)) (\<lambda>s.
                   bind_res (iunlock (Some ip) s) (\<lambda>s.
                     bind_res (nameiparent new (replicate DIRSIZ 0) s) (\<lambda>(dp, name, s).
                       case dp of None \<Rightarrow> sys_link_bad ip s
                       | Some dp \<Rightarrow>
                         bind_res (ilock (Some dp) s) (\<lambda>s.
                           bind_res (if idev (inodes s dp) \<noteq> idev (inodes s ip) then Ok (-1, s)
                                     else dirlink dp name (inum (inodes s ip)) s) (\<lambda>(r, s).
                             if r < 0 then bind_res (iunlockput dp s) (sys_link_bad ip)
                             else bind_res (iunlockput dp s) (\<lambda>s. bind_res (iput ip s) (leave_op 0))))))))))))"

fun isdirempty_loop :: "nat \<Rightarrow> nat \<Rightarrow> u32 \<Rightarrow> 'a fs_scheme \<Rightarrow> (bool \<times> 'a fs_scheme) res" where
  "isdirempty_loop k dp off s =
     (if off < isize (inodes s dp)
      then case k of 0 \<Rightarrow> OutOfFuel
        | Suc k \<Rightarrow>
          bind_res (readi dp Var_dst off (of_nat sizeof_dirent) s) (\<lambda>(r, de, s).
            if r \<noteq> int sizeof_dirent then Panic ''isdirempty: readi''
            else if de_inum de \<noteq> 0 then Ok (False, s)
            else isdirempty_loop k dp (off + of_nat sizeof_dirent) s)
      else Ok (True, s))"

declare isdirempty_loop.simps [simp del]

definition isdirempty :: "nat \<Rightarrow> 'a fs_scheme \<Rightarrow> (bool \<times> 'a fs_scheme) res" where
  "isdirempty dp s = isdirempty_loop (dir_fuel dp s) dp (of_nat (2 * sizeof_dirent)) s"

definition sys_unlink_bad :: "nat \<Rightarrow> 'a fs_scheme \<Rightarrow> (u64 \<times> 'a fs_scheme) res" where
  "sys_unlink_bad dp s = bind_res (iunlockput dp s) (leave_op (-1))"

text \<open>The entry at \<open>off\<close> of the locked directory \<open>dp\<close> names the locked inode \<open>ip\<close>.\<close>

definition unlink_entry :: "nat \<Rightarrow> nat \<Rightarrow> u32 \<Rightarrow> 'a fs_scheme \<Rightarrow> (u64 \<times> 'a fs_scheme) res" where
  "unlink_entry dp ip off s =
     bind_res (writei dp (Var_src (replicate sizeof_dirent 0)) off (of_nat sizeof_dirent) s) (\<lambda>(r, s).
       if r \<noteq> int sizeof_dirent then Panic ''unlink: writei''
       else bind_res (if itype (inodes s ip) = T_DIR
                      then iupdate dp (set_inode dp (\<lambda>x. x\<lparr>nlink := nlink x - 1\<rparr>) s)
                      else Ok s) (\<lambda>s.
         bind_res (iunlockput dp s) (\<lambda>s.
           bind_res (iupdate ip (set_inode ip (\<lambda>x. x\<lparr>nlink := nlink x - 1\<rparr>) s)) (\<lambda>s.
             bind_res (iunlockput ip s) (leave_op 0)))))"

definition sys_unlink :: "'a fs_scheme \<Rightarrow> (u64 \<times> 'a fs_scheme) res" where
  "sys_unlink s =
     bind_res (argstr 0 MAXPATH s) (\<lambda>(r, path, s).
       if r < 0 then Ok (-1, s)
       else bind_res (begin_op s) (\<lambda>s.
         bind_res (nameiparent path (replicate DIRSIZ 0) s) (\<lambda>(dp, name, s).
           case dp of None \<Rightarrow> leave_op (-1) s
           | Some dp \<Rightarrow>
             bind_res (ilock (Some dp) s) (\<lambda>s.
               if namecmp name (bytes ''.'') = 0 \<or> namecmp name (bytes ''..'') = 0 then sys_unlink_bad dp s
               else bind_res (dirlookup dp name s) (\<lambda>(r, s).
                 case r of None \<Rightarrow> sys_unlink_bad dp s
                 | Some (ip, off) \<Rightarrow>
                   bind_res (ilock (Some ip) s) (\<lambda>s.
                     if sint (nlink (inodes s ip)) < 1 then Panic ''unlink: nlink < 1''
                     else bind_res (if itype (inodes s ip) = T_DIR then isdirempty ip s else Ok (True, s)) (\<lambda>(e, s).
                       if \<not> e then bind_res (iunlockput ip s) (sys_unlink_bad dp)
                       else unlink_entry dp ip off s)))))))"

text \<open>The second half of \<open>create\<close>: a new inode \<open>ip\<close> under \<open>name\<close> in the locked directory \<open>dp\<close>.\<close>

definition create_new :: "nat \<Rightarrow> u8 list \<Rightarrow> u16 \<Rightarrow> u16 \<Rightarrow> u16 \<Rightarrow> 'a fs_scheme \<Rightarrow> (nat option \<times> 'a fs_scheme) res" where
  "create_new dp name type mj mn s =
     bind_res (ialloc (idev (inodes s dp)) type s) (\<lambda>(ip, s).
       bind_res (ilock (Some ip) s) (\<lambda>s.
         bind_res (iupdate ip (set_inode ip (\<lambda>x. x\<lparr>imajor := mj, iminor := mn, nlink := 1\<rparr>) s)) (\<lambda>s.
           bind_res
             (if type = T_DIR
              then bind_res (iupdate dp (set_inode dp (\<lambda>x. x\<lparr>nlink := nlink x + 1\<rparr>) s)) (\<lambda>s.
                     bind_res (dirlink ip (bytes ''.'') (inum (inodes s ip)) s) (\<lambda>(r, s).
                       if r < 0 then Panic ''create dots''
                       else bind_res (dirlink ip (bytes ''..'') (inum (inodes s dp)) s) (\<lambda>(r, s).
                         if r < 0 then Panic ''create dots'' else Ok s)))
              else Ok s) (\<lambda>s.
             bind_res (dirlink dp name (inum (inodes s ip)) s) (\<lambda>(r, s).
               if r < 0 then Panic ''create: dirlink''
               else bind_res (iunlockput dp s) (\<lambda>s. Ok (Some ip, s)))))))"

definition create :: "u8 list \<Rightarrow> u16 \<Rightarrow> u16 \<Rightarrow> u16 \<Rightarrow> 'a fs_scheme \<Rightarrow> (nat option \<times> 'a fs_scheme) res" where
  "create path type mj mn s =
     bind_res (nameiparent path (replicate DIRSIZ 0) s) (\<lambda>(dp, name, s).
       case dp of None \<Rightarrow> Ok (None, s)
       | Some dp \<Rightarrow>
         bind_res (ilock (Some dp) s) (\<lambda>s.
           bind_res (dirlookup dp name s) (\<lambda>(r, s).
             case r of
               Some (ip, _) \<Rightarrow>
                 bind_res (iunlockput dp s) (\<lambda>s.
                   bind_res (ilock (Some ip) s) (\<lambda>s.
                     if type = T_FILE \<and> (itype (inodes s ip) = T_FILE \<or> itype (inodes s ip) = T_DEVICE) then Ok (Some ip, s)
                     else bind_res (iunlockput ip s) (\<lambda>s. Ok (None, s))))
             | None \<Rightarrow> create_new dp name type mj mn s)))"

section \<open>Opening\<close>

text \<open>The inode that \<open>sys_open\<close> opens, locked.\<close>

definition open_inode :: "u8 list \<Rightarrow> u32 \<Rightarrow> 'a fs_scheme \<Rightarrow> (nat option \<times> 'a fs_scheme) res" where
  "open_inode path omode s =
     (if omode AND O_CREATE \<noteq> 0 then create path T_FILE 0 0 s
      else bind_res (namei path s) (\<lambda>(ip, s).
        case ip of None \<Rightarrow> Ok (None, s)
        | Some i \<Rightarrow>
          bind_res (ilock ip s) (\<lambda>s.
            if itype (inodes s i) = T_DIR \<and> omode \<noteq> O_RDONLY
            then bind_res (iunlockput i s) (\<lambda>s. Ok (None, s))
            else Ok (ip, s))))"

definition open_file :: "nat \<Rightarrow> nat \<Rightarrow> u32 \<Rightarrow> 'a files_scheme \<Rightarrow> 'a files_scheme" where
  "open_file f ip omode s =
     set_file f (\<lambda>x. x\<lparr>fip := Some ip, readable := (omode AND O_WRONLY = 0),
         writable := (omode AND O_WRONLY \<noteq> 0 \<or> omode AND O_RDWR \<noteq> 0)\<rparr>)
       (if itype (inodes s ip) = T_DEVICE
        then set_file f (\<lambda>x. x\<lparr>ftype := FD_DEVICE, fmajor := imajor (inodes s ip)\<rparr>) s
        else set_file f (\<lambda>x. x\<lparr>ftype := FD_INODE, foff := 0\<rparr>) s)"

definition open_bad :: "nat \<Rightarrow> 'a fs_scheme \<Rightarrow> (u64 \<times> 'a fs_scheme) res" where
  "open_bad ip s = bind_res (iunlockput ip s) (leave_op (-1))"

definition sys_open :: "'a files_scheme \<Rightarrow> (u64 \<times> 'a files_scheme) res" where
  "sys_open s =
     bind_res (argstr 0 MAXPATH s) (\<lambda>(n, path, s).
       if n < 0 then Ok (-1, s)
       else bind_res (argint 1 s) (\<lambda>(m, s).
         let omode = of_int m in
         bind_res (begin_op s) (\<lambda>s.
           bind_res (open_inode path omode s) (\<lambda>(ip, s).
             case ip of None \<Rightarrow> leave_op (-1) s
             | Some ip \<Rightarrow>
               if itype (inodes s ip) = T_DEVICE \<and> (sint (imajor (inodes s ip)) < 0 \<or> sint (imajor (inodes s ip)) \<ge> NDEV)
               then open_bad ip s
               else bind_res (filealloc s) (\<lambda>(f, s).
                 case f of None \<Rightarrow> open_bad ip s
                 | Some f \<Rightarrow>
                   bind_res (fdalloc f s) (\<lambda>(fd, s).
                     case fd of None \<Rightarrow> bind_res (fileclose f s) (open_bad ip)
                     | Some fd \<Rightarrow>
                       bind_res (let s = open_file f ip omode s in
                                 if omode AND O_TRUNC \<noteq> 0 \<and> itype (inodes s ip) = T_FILE then itrunc ip s else Ok s) (\<lambda>s.
                         bind_res (iunlock (Some ip) s) (leave_op (of_nat fd)))))))))"

definition sys_mkdir :: "'a fs_scheme \<Rightarrow> (u64 \<times> 'a fs_scheme) res" where
  "sys_mkdir s =
     bind_res (begin_op s) (\<lambda>s.
       bind_res (argstr 0 MAXPATH s) (\<lambda>(r, path, s).
         if r < 0 then leave_op (-1) s
         else bind_res (create path T_DIR 0 0 s) (\<lambda>(ip, s).
           case ip of None \<Rightarrow> leave_op (-1) s
           | Some ip \<Rightarrow> bind_res (iunlockput ip s) (leave_op 0))))"

definition sys_mknod :: "'a fs_scheme \<Rightarrow> (u64 \<times> 'a fs_scheme) res" where
  "sys_mknod s =
     bind_res (begin_op s) (\<lambda>s.
       bind_res (argstr 0 MAXPATH s) (\<lambda>(r, path, s).
         if r < 0 then leave_op (-1) s
         else bind_res (argint 1 s) (\<lambda>(mj, s).
           bind_res (argint 2 s) (\<lambda>(mn, s).
             bind_res (create path T_DEVICE (of_int mj) (of_int mn) s) (\<lambda>(ip, s).
               case ip of None \<Rightarrow> leave_op (-1) s
               | Some ip \<Rightarrow> bind_res (iunlockput ip s) (leave_op 0))))))"

definition sys_chdir :: "'a fs_scheme \<Rightarrow> (u64 \<times> 'a fs_scheme) res" where
  "sys_chdir s =
     bind_res (curproc s) (\<lambda>(p, s).
       bind_res (begin_op s) (\<lambda>s.
         bind_res (argstr 0 MAXPATH s) (\<lambda>(r, path, s).
           if r < 0 then leave_op (-1) s
           else bind_res (namei path s) (\<lambda>(ip, s).
             case ip of None \<Rightarrow> leave_op (-1) s
             | Some i \<Rightarrow>
               bind_res (ilock ip s) (\<lambda>s.
                 if itype (inodes s i) \<noteq> T_DIR then bind_res (iunlockput i s) (leave_op (-1))
                 else bind_res (iunlock ip s) (\<lambda>s.
                   deref (cwd (procs s p)) (\<lambda>c.
                     bind_res (iput c s) (\<lambda>s.
                       bind_res (end_op s) (\<lambda>s. Ok (0, set_proc p (\<lambda>x. x\<lparr>cwd := ip\<rparr>) s))))))))))"

section \<open>Programs and pipes\<close>

text \<open>The argument vector, collected in \<open>argv\<close>; the result \<open>False\<close> stands for \<open>goto bad\<close>.\<close>

fun exec_fetch :: "u64 \<Rightarrow> nat list \<Rightarrow> u64 list \<Rightarrow> 'a files_scheme \<Rightarrow> (bool \<times> u64 list \<times> 'a files_scheme) res" where
  "exec_fetch uargv [] argv s = Ok (False, argv, s)"
| "exec_fetch uargv (i # is) argv s =
     bind_res (fetchaddr (uargv + 8 * of_nat i) s) (\<lambda>(r, uarg, s).
       if r < 0 then Ok (False, argv, s)
       else if uarg = 0 then Ok (True, argv, s)
       else bind_res (kalloc s) (\<lambda>(a, s).
         if a = 0 then Ok (False, argv, s)
         else bind_res (fetchstr uarg (uint PGSIZE) s) (\<lambda>(r, buf, s).
           let s = s\<lparr>mem := write_bytes (mem s) a buf\<rparr> in
           if r < 0 then Ok (False, argv @ [a], s) else exec_fetch uargv is (argv @ [a]) s)))"

fun kfree_all :: "u64 list \<Rightarrow> 'a kmem_scheme \<Rightarrow> 'a kmem_scheme res" where
  "kfree_all [] s = Ok s"
| "kfree_all (a # as) s = bind_res (kfree a s) (kfree_all as)"

definition sys_exec :: "'a files_scheme \<Rightarrow> (u64 \<times> 'a files_scheme) res" where
  "sys_exec s =
     bind_res (argstr 0 MAXPATH s) (\<lambda>(r, path, s).
       if r < 0 then Ok (-1, s)
       else bind_res (argaddr 1 s) (\<lambda>(uargv, s).
         bind_res (exec_fetch uargv [0..<MAXARG] [] s) (\<lambda>(ok, argv, s).
           if ok
           then bind_res (exec path argv s) (\<lambda>(ret, s).
                  bind_res (kfree_all argv s) (\<lambda>s. Ok (of_int ret, s)))
           else bind_res (kfree_all argv s) (\<lambda>s. Ok (-1, s)))))"

definition close_both :: "nat \<Rightarrow> nat \<Rightarrow> 'a files_scheme \<Rightarrow> (u64 \<times> 'a files_scheme) res" where
  "close_both rfile wfile s =
     bind_res (fileclose rfile s) (\<lambda>s. bind_res (fileclose wfile s) (\<lambda>s. Ok (-1, s)))"

definition int_bytes :: "nat \<Rightarrow> u8 list" where
  "int_bytes n = le_encode 4 n"

definition sys_pipe :: "'a files_scheme \<Rightarrow> (u64 \<times> 'a files_scheme) res" where
  "sys_pipe s =
     bind_res (curproc s) (\<lambda>(p, s).
       bind_res (argaddr 0 s) (\<lambda>(fdarray, s).
         bind_res (pipealloc s) (\<lambda>(r, s).
           case r of None \<Rightarrow> Ok (-1, s)
           | Some (rfile, wfile) \<Rightarrow>
             bind_res (fdalloc rfile s) (\<lambda>(fd0, s).
               case fd0 of None \<Rightarrow> close_both rfile wfile s
               | Some fd0 \<Rightarrow>
                 bind_res (fdalloc wfile s) (\<lambda>(fd1, s).
                   case fd1 of None \<Rightarrow> close_both rfile wfile (set_ofile p fd0 None s)
                   | Some fd1 \<Rightarrow>
                     bind_res
                       (bind_res (copyout (pagetable (procs s p)) fdarray (int_bytes fd0) s) (\<lambda>(r, s).
                          if r < 0 then Ok (r, s)
                          else copyout (pagetable (procs s p)) (fdarray + 4) (int_bytes fd1) s)) (\<lambda>(r, s).
                       if r < 0 then close_both rfile wfile (set_ofile p fd1 None (set_ofile p fd0 None s))
                       else Ok (0, s)))))))"

end
