(* ===== verification/Sysproc.thy ===== *)
theory Sysproc
  imports Sysfile
begin

unbundle bit_operations_syntax

text \<open>
  The system calls on processes, \<^verbatim>\<open>kernel/sysproc.c\<close>, and the dispatch of system calls, \<^verbatim>\<open>kernel/syscall.c\<close>. A call returns, goes to
  sleep or ends the process. A call that sleeps inside a lower layer (on a sleep lock, in \<open>begin_op\<close>) has the outcome
  \<open>Sleep\<close> of that layer.
\<close>

section \<open>System calls on processes\<close>

definition sys_exit :: "'a files_scheme \<Rightarrow> 'a files_scheme res" where
  "sys_exit s = bind_res (argint 0 s) (\<lambda>(n, s). exit n s)"

definition sys_getpid :: "'a ptable_scheme \<Rightarrow> (u64 \<times> 'a ptable_scheme) res" where
  "sys_getpid s = bind_res (curproc s) (\<lambda>(p, s). Ok (of_int (pid (procs s p)), s))"

definition sys_fork :: "'a files_scheme \<Rightarrow> (u64 \<times> 'a files_scheme) res" where
  "sys_fork s = bind_res (fork s) (\<lambda>(r, s). Ok (of_int r, s))"

definition sys_wait :: "'a ptable_scheme \<Rightarrow> (u64, 'a ptable_scheme) io res" where
  "sys_wait s = bind_res (argaddr 0 s) (\<lambda>(p, s). bind_res (wait p s) (\<lambda>r. Ok (io_u64 r)))"

definition sys_sbrk :: "'a ptable_scheme \<Rightarrow> (u64 \<times> 'a ptable_scheme) res" where
  "sys_sbrk s =
     bind_res (argint 0 s) (\<lambda>(n, s).
       bind_res (curproc s) (\<lambda>(p, s).
         let a = sint (ucast (psz (procs s p)) :: u32) in
         bind_res (growproc n s) (\<lambda>(r, s). if r < 0 then Ok (-1, s) else Ok (of_int a, s))))"

text \<open>The loop of \<open>sys_sleep\<close>, with the lock held: \<^verbatim>\<open>ticks - ticks0 < n\<close> compares unsigned numbers.\<close>

definition sys_sleep_loop :: "u32 \<Rightarrow> int \<Rightarrow> 'a ptable_scheme \<Rightarrow> (u64, 'a ptable_scheme) io res" where
  "sys_sleep_loop ticks0 n s =
     (if ticks s - ticks0 < of_int n
      then bind_res (curproc s) (\<lambda>(p, s).
             if killed (procs s p) then bind_res (release L_tickslock s) (\<lambda>s. Ok (Done (-1) s))
             else Ok (Block (ucast ticks0) s))
      else bind_res (release L_tickslock s) (\<lambda>s. Ok (Done 0 s)))"

definition sys_sleep :: "'a ptable_scheme \<Rightarrow> (u64, 'a ptable_scheme) io res" where
  "sys_sleep s =
     bind_res (argint 0 s) (\<lambda>(n, s).
       bind_res (acquire L_tickslock s) (\<lambda>s. sys_sleep_loop (ticks s) n s))"

definition sys_kill :: "'a ptable_scheme \<Rightarrow> (u64 \<times> 'a ptable_scheme) res" where
  "sys_kill s = bind_res (argint 0 s) (\<lambda>(i, s). bind_res (kill i s) (\<lambda>(r, s). Ok (of_int r, s)))"

definition sys_uptime :: "'a ptable_scheme \<Rightarrow> (u64 \<times> 'a ptable_scheme) res" where
  "sys_uptime s =
     bind_res (acquire L_tickslock s) (\<lambda>s.
       let xticks = ticks s in bind_res (release L_tickslock s) (\<lambda>s. Ok (ucast xticks, s)))"

section \<open>Dispatch\<close>

datatype 's call = Returns u64 's | Blocks 's | Exits 's

definition returns :: "(u64 \<times> 's) res \<Rightarrow> 's call res" where
  "returns r = bind_res r (\<lambda>(v, s). Ok (Returns v s))"

definition may_block :: "(u64, 's) io res \<Rightarrow> 's call res" where
  "may_block r = bind_res r (\<lambda>o'. case o' of Done v s \<Rightarrow> Ok (Returns v s) | Block v s \<Rightarrow> Ok (Blocks s))"

definition syscalls :: "('a files_scheme \<Rightarrow> 'a files_scheme call res) option list" where
  "syscalls = [
     None,
     Some (\<lambda>s. returns (sys_fork s)),
     Some (\<lambda>s. bind_res (sys_exit s) (\<lambda>s. Ok (Exits s))),
     Some (\<lambda>s. may_block (sys_wait s)),
     Some (\<lambda>s. returns (sys_pipe s)),
     Some (\<lambda>s. may_block (sys_read s)),
     Some (\<lambda>s. returns (sys_kill s)),
     Some (\<lambda>s. returns (sys_exec s)),
     Some (\<lambda>s. returns (sys_fstat s)),
     Some (\<lambda>s. returns (sys_chdir s)),
     Some (\<lambda>s. returns (sys_dup s)),
     Some (\<lambda>s. returns (sys_getpid s)),
     Some (\<lambda>s. returns (sys_sbrk s)),
     Some (\<lambda>s. may_block (sys_sleep s)),
     Some (\<lambda>s. returns (sys_uptime s)),
     Some (\<lambda>s. returns (sys_open s)),
     Some (\<lambda>s. may_block (sys_write s)),
     Some (\<lambda>s. returns (sys_mknod s)),
     Some (\<lambda>s. returns (sys_unlink s)),
     Some (\<lambda>s. returns (sys_link s)),
     Some (\<lambda>s. returns (sys_mkdir s)),
     Some (\<lambda>s. returns (sys_close s))]"

definition syscall_entry :: "int \<Rightarrow> ('a files_scheme \<Rightarrow> 'a files_scheme call res) option" where
  "syscall_entry num = (if num > 0 \<and> num < int (length (syscalls :: ('a files_scheme \<Rightarrow> 'a files_scheme call res) option list))
     then syscalls ! nat num else None)"

definition unknown_syscall :: "u8 list" where
  "unknown_syscall = bytes ''%d %s: unknown sys call %d'' @ [10]"

definition syscall :: "'a files_scheme \<Rightarrow> 'a files_scheme call res" where
  "syscall s =
     bind_res (curproc s) (\<lambda>(p, s).
       let num = sint (ucast (tf_get p TF_a7 s) :: u32) in
       case syscall_entry num of
         Some f \<Rightarrow> bind_res (f s) (\<lambda>r. case r of
             Returns v s \<Rightarrow> Ok (Returns v (tf_set p TF_a0 v s))
           | Blocks s \<Rightarrow> Ok (Blocks s)
           | Exits s \<Rightarrow> Ok (Exits s))
       | None \<Rightarrow>
           bind_res (printf (Some unknown_syscall) [A_int (of_int (pid (procs s p))), A_str (Some (pname (procs s p))), A_int (of_int num)] s)
             (\<lambda>s. Ok (Returns (-1) (tf_set p TF_a0 (-1) s))))"

end
