(* ===== verification/Trap.thy ===== *)
theory Trap
  imports Sysproc
begin

unbundle bit_operations_syntax

text \<open>
  Traps, \<^verbatim>\<open>kernel/trap.c\<close>, the interrupt controller, \<^verbatim>\<open>kernel/plic.c\<close>, the first return of a process to user space, \<open>forkret\<close> of
  \<^verbatim>\<open>kernel/proc.c\<close>, and the start of the kernel in supervisor mode, \<^verbatim>\<open>kernel/main.c\<close>.

  Every hart has its own supervisor registers (\<^verbatim>\<open>kernel/riscv.h\<close>). The bit SIE of \<^verbatim>\<open>sstatus\<close> is the field \<open>sie\<close> of the
  hart; the record below has the other bits. The registers of the interrupt controller are words at device
  addresses. The addresses of code that the handlers install are fields of the state. Switching to the scheduler
  (\<open>yield\<close>, \<open>exit\<close>, a call that sleeps) ends a handler; \<open>kerneltrap_back\<close> is the rest of \<open>kerneltrap\<close> after a yield.
\<close>

section \<open>Supervisor registers\<close>

record csr =
  sstatus_bits :: u64
  sip_reg :: u64
  stvec :: u64
  sepc :: u64
  scause :: u64
  stval :: u64

record traps = files +
  csrs :: "nat \<Rightarrow> csr"
  plic :: "u64 \<Rightarrow> u32"
  kernelvec :: u64
  uservec :: u64
  userret :: u64
  usertrap_addr :: u64
  forkret_first :: bool
  started :: bool

definition my_csr :: "'a traps_scheme \<Rightarrow> csr" where
  "my_csr s = csrs s (cpuid s)"

definition set_csr :: "(csr \<Rightarrow> csr) \<Rightarrow> 'a traps_scheme \<Rightarrow> 'a traps_scheme" where
  "set_csr f s = s\<lparr>csrs := (csrs s)(cpuid s := f (csrs s (cpuid s)))\<rparr>"

definition SSTATUS_SPP :: u64 where "SSTATUS_SPP = push_bit 8 1"
definition SSTATUS_SPIE :: u64 where "SSTATUS_SPIE = push_bit 5 1"
definition SSTATUS_SIE :: u64 where "SSTATUS_SIE = push_bit 1 1"

definition r_sstatus :: "'a traps_scheme \<Rightarrow> u64" where
  "r_sstatus s = sstatus_bits (my_csr s) AND NOT SSTATUS_SIE OR (if intr_get s then SSTATUS_SIE else 0)"

definition w_sstatus :: "u64 \<Rightarrow> 'a traps_scheme \<Rightarrow> 'a traps_scheme" where
  "w_sstatus x s =
     (if x AND SSTATUS_SIE \<noteq> 0 then intr_on else intr_off) (set_csr (\<lambda>c. c\<lparr>sstatus_bits := x AND NOT SSTATUS_SIE\<rparr>) s)"

definition r_sip :: "'a traps_scheme \<Rightarrow> u64" where "r_sip s = sip_reg (my_csr s)"
definition w_sip :: "u64 \<Rightarrow> 'a traps_scheme \<Rightarrow> 'a traps_scheme" where "w_sip x = set_csr (\<lambda>c. c\<lparr>sip_reg := x\<rparr>)"
definition r_sepc :: "'a traps_scheme \<Rightarrow> u64" where "r_sepc s = sepc (my_csr s)"
definition w_sepc :: "u64 \<Rightarrow> 'a traps_scheme \<Rightarrow> 'a traps_scheme" where "w_sepc x = set_csr (\<lambda>c. c\<lparr>sepc := x\<rparr>)"
definition w_stvec :: "u64 \<Rightarrow> 'a traps_scheme \<Rightarrow> 'a traps_scheme" where "w_stvec x = set_csr (\<lambda>c. c\<lparr>stvec := x\<rparr>)"
definition r_scause :: "'a traps_scheme \<Rightarrow> u64" where "r_scause s = scause (my_csr s)"
definition r_stval :: "'a traps_scheme \<Rightarrow> u64" where "r_stval s = stval (my_csr s)"
definition r_satp :: "'a traps_scheme \<Rightarrow> u64" where "r_satp s = satp s (cpuid s)"

section \<open>The interrupt controller\<close>

definition UART0_IRQ :: nat where "UART0_IRQ = 10"
definition VIRTIO0_IRQ :: nat where "VIRTIO0_IRQ = 1"
definition PLIC_SENABLE :: "nat \<Rightarrow> u64" where "PLIC_SENABLE hart = PLIC + 0x2080 + of_nat hart * 0x100"
definition PLIC_SPRIORITY :: "nat \<Rightarrow> u64" where "PLIC_SPRIORITY hart = PLIC + 0x201000 + of_nat hart * 0x2000"
definition PLIC_SCLAIM :: "nat \<Rightarrow> u64" where "PLIC_SCLAIM hart = PLIC + 0x201004 + of_nat hart * 0x2000"

definition plic_write :: "u64 \<Rightarrow> u32 \<Rightarrow> 'a traps_scheme \<Rightarrow> 'a traps_scheme" where
  "plic_write a v s = s\<lparr>plic := (plic s)(a := v)\<rparr>"

definition plicinit :: "'a traps_scheme \<Rightarrow> 'a traps_scheme" where
  "plicinit s = plic_write (PLIC + of_nat VIRTIO0_IRQ * 4) 1 (plic_write (PLIC + of_nat UART0_IRQ * 4) 1 s)"

definition plicinithart :: "'a traps_scheme \<Rightarrow> 'a traps_scheme" where
  "plicinithart s = (let hart = cpuid s in
     plic_write (PLIC_SPRIORITY hart) 0
       (plic_write (PLIC_SENABLE hart) (push_bit UART0_IRQ 1 OR push_bit VIRTIO0_IRQ 1) s))"

definition plic_claim :: "'a traps_scheme \<Rightarrow> u32" where
  "plic_claim s = plic s (PLIC_SCLAIM (cpuid s))"

definition plic_complete :: "u32 \<Rightarrow> 'a traps_scheme \<Rightarrow> 'a traps_scheme" where
  "plic_complete irq s = plic_write (PLIC_SCLAIM (cpuid s)) irq s"

section \<open>Interrupts\<close>

definition trapinit :: "'a traps_scheme \<Rightarrow> 'a traps_scheme" where
  "trapinit s = initlock L_tickslock ''time'' s"

definition trapinithart :: "'a traps_scheme \<Rightarrow> 'a traps_scheme" where
  "trapinithart s = w_stvec (kernelvec s) s"

definition clockintr :: "'a ptable_scheme \<Rightarrow> 'a ptable_scheme res" where
  "clockintr s =
     bind_res (acquire L_tickslock s) (\<lambda>s.
       bind_res (wakeup Ch_ticks (s\<lparr>ticks := ticks s + 1\<rparr>)) (release L_tickslock))"

definition unexpected_irq :: "u8 list" where
  "unexpected_irq = bytes ''unexpected interrupt irq=%d'' @ [10]"

definition devintr :: "'a traps_scheme \<Rightarrow> (nat \<times> 'a traps_scheme) res" where
  "devintr s =
     (let c = r_scause s in
      if c AND 0x8000000000000000 \<noteq> 0 \<and> c AND 0xff = 9
      then
        let irq = plic_claim s in
        bind_res
          (if irq = of_nat UART0_IRQ then uartintr s
           else if irq = of_nat VIRTIO0_IRQ then virtio_disk_intr s
           else if irq \<noteq> 0 then printf (Some unexpected_irq) [A_int irq] s
           else Ok s) (\<lambda>s.
          Ok (1, if irq \<noteq> 0 then plic_complete irq s else s))
      else if c = 0x8000000000000001
      then bind_res (if cpuid s = 0 then clockintr s else Ok s) (\<lambda>s. Ok (2, w_sip (r_sip s AND NOT 2) s))
      else Ok (0, s))"

section \<open>Traps from user space\<close>

text \<open>
  The jump to \<open>userret\<close> in the trampoline, with its address and its two arguments, or a switch to the scheduler.
\<close>

datatype 's trap_end = User u64 u64 u64 's | Sched 's | Gone 's

definition usertrapret :: "'a traps_scheme \<Rightarrow> 'a traps_scheme trap_end res" where
  "usertrapret s =
     bind_res (curproc s) (\<lambda>(p, s).
       let s = intr_off s;
           s = w_stvec (TRAMPOLINE + (uservec s - trampoline s)) s;
           s = tf_set p TF_kernel_satp (r_satp s) s;
           s = tf_set p TF_kernel_sp (kstack (procs s p) + PGSIZE) s;
           s = tf_set p TF_kernel_trap (usertrap_addr s) s;
           s = tf_set p TF_kernel_hartid (of_nat (tp s)) s;
           s = w_sstatus (r_sstatus s AND NOT SSTATUS_SPP OR SSTATUS_SPIE) s;
           s = w_sepc (tf_get p TF_epc s) s
       in Ok (User (TRAMPOLINE + (userret s - trampoline s)) TRAPFRAME (MAKE_SATP (pagetable (procs s p))) s))"

definition set_killed :: "nat \<Rightarrow> 'a ptable_scheme \<Rightarrow> 'a ptable_scheme" where
  "set_killed p s = set_proc p (\<lambda>q. q\<lparr>killed := True\<rparr>) s"

text \<open>The code of \<open>usertrap\<close> from the label \<open>end\<close> on.\<close>

definition usertrap_end :: "nat \<Rightarrow> nat \<Rightarrow> 'a traps_scheme \<Rightarrow> 'a traps_scheme trap_end res" where
  "usertrap_end p which_dev s =
     (if killed (procs s p) then bind_res (exit (-1) s) (\<lambda>s. Ok (Gone s))
      else if which_dev = 2 then bind_res (yield s) (\<lambda>(_, s). Ok (Sched s))
      else usertrapret s)"

definition unexpected_scause :: "u8 list" where
  "unexpected_scause = bytes ''usertrap(): unexpected scause %p pid=%d'' @ [10]"

definition unexpected_sepc :: "u8 list" where
  "unexpected_sepc = bytes ''            sepc=%p stval=%p'' @ [10]"

definition usertrap :: "'a traps_scheme \<Rightarrow> 'a traps_scheme trap_end res" where
  "usertrap s =
     (if r_sstatus s AND SSTATUS_SPP \<noteq> 0 then Panic ''usertrap: not from user mode''
      else bind_res (curproc (w_stvec (kernelvec s) s)) (\<lambda>(p, s).
        let s = tf_set p TF_epc (r_sepc s) s in
        if r_scause s = 8
        then if killed (procs s p) then bind_res (exit (-1) s) (\<lambda>s. Ok (Gone s))
             else
               let s = intr_on (tf_set p TF_epc (tf_get p TF_epc s + 4) s) in
               bind_res (syscall s) (\<lambda>r. case r of
                   Returns _ s \<Rightarrow> usertrap_end p 0 s
                 | Blocks s \<Rightarrow> Ok (Sched s)
                 | Exits s \<Rightarrow> Ok (Gone s))
        else if r_scause s = 15
        then bind_res (write_fault (pagetable (procs s p)) (psz (procs s p)) (r_stval s) s) (\<lambda>(bad, s).
               usertrap_end p 0 (if bad then set_killed p s else s))
        else bind_res (devintr s) (\<lambda>(which_dev, s).
          if which_dev \<noteq> 0 then usertrap_end p which_dev s
          else bind_res (printf (Some unexpected_scause) [A_ptr (r_scause s), A_int (of_int (pid (procs s p)))] s) (\<lambda>s.
            bind_res (printf (Some unexpected_sepc) [A_ptr (r_sepc s), A_ptr (r_stval s)] s) (\<lambda>s.
              usertrap_end p 0 (set_killed p s))))))"

definition forkret :: "'a traps_scheme \<Rightarrow> 'a traps_scheme trap_end res" where
  "forkret s =
     bind_res (curproc s) (\<lambda>(p, s).
       bind_res (release (L_proc p) s) (\<lambda>s.
         bind_res (if forkret_first s then fsinit ROOTDEV (s\<lparr>forkret_first := False\<rparr>) else Ok s) usertrapret))"

section \<open>Traps from the kernel\<close>

definition kerneltrap_back :: "u64 \<Rightarrow> u64 \<Rightarrow> 'a traps_scheme \<Rightarrow> 'a traps_scheme" where
  "kerneltrap_back pc st s = w_sstatus st (w_sepc pc s)"

definition kernel_scause :: "u8 list" where
  "kernel_scause = bytes ''scause %p'' @ [10]"

definition kernel_sepc :: "u8 list" where
  "kernel_sepc = bytes ''sepc=%p stval=%p'' @ [10]"

text \<open>The result \<open>Block (sepc, sstatus)\<close> is the switch to the scheduler inside \<open>yield\<close>, with the saved registers.\<close>

definition kerneltrap :: "'a traps_scheme \<Rightarrow> (u64 \<times> u64, 'a traps_scheme) io res" where
  "kerneltrap s =
     (let pc = r_sepc s; st = r_sstatus s; c = r_scause s in
      if st AND SSTATUS_SPP = 0 then Panic ''kerneltrap: not from supervisor mode''
      else if intr_get s then Panic ''kerneltrap: interrupts enabled''
      else bind_res (devintr s) (\<lambda>(which_dev, s).
        if which_dev = 0
        then bind_res (printf (Some kernel_scause) [A_ptr c] s) (\<lambda>s.
               bind_res (printf (Some kernel_sepc) [A_ptr (r_sepc s), A_ptr (r_stval s)] s) (\<lambda>s. Panic ''kerneltrap''))
        else bind_res (if which_dev = 2
                       then bind_res (myproc s) (\<lambda>(p, s). Ok (case p of None \<Rightarrow> False | Some p \<Rightarrow> pstate (procs s p) = RUNNING, s))
                       else Ok (False, s)) (\<lambda>(run, s).
          if run then bind_res (yield s) (\<lambda>(_, s). Ok (Block (pc, st) s))
          else Ok (Done (pc, st) (kerneltrap_back pc st s)))))"

section \<open>Starting the kernel\<close>

text \<open>One pass of \<open>scheduler\<close> over the process table, up to the first switch to a process.\<close>

fun scheduler_scan :: "nat list \<Rightarrow> 'a ptable_scheme \<Rightarrow> (nat option \<times> 'a ptable_scheme) res" where
  "scheduler_scan [] s = Ok (None, s)"
| "scheduler_scan (p # ps) s =
     bind_res (scheduler_pick p s) (\<lambda>(run, s). if run then Ok (Some p, s) else scheduler_scan ps s)"

definition scheduler :: "'a ptable_scheme \<Rightarrow> (nat option \<times> 'a ptable_scheme) res" where
  "scheduler s = scheduler_scan [0..<NPROC] (intr_on (set_cpu (\<lambda>c. c\<lparr>cproc := None\<rparr>) s))"

definition booting :: "u8 list" where
  "booting = bytes ''xv6 kernel is booting'' @ [10]"

definition hart_starting :: "u8 list" where
  "hart_starting = bytes ''hart %d starting'' @ [10]"

definition main :: "'a traps_scheme \<Rightarrow> (nat option \<times> 'a traps_scheme) res" where
  "main s =
     (if cpuid s = 0
      then
        let s = printfinit (consoleinit s) in
        bind_res (printf (Some [10]) [] s) (\<lambda>s.
          bind_res (printf (Some booting) [] s) (\<lambda>s.
            bind_res (printf (Some [10]) [] s) (\<lambda>s.
              bind_res (kinit s) (\<lambda>s.
                bind_res (kvminit s) (\<lambda>s.
                  let s = kvminithart s; s = procinit s; s = trapinit s; s = trapinithart s;
                      s = plicinit s; s = plicinithart s; s = binit s; s = iinit s; s = fileinit s
                  in bind_res (virtio_disk_init s) (\<lambda>s.
                       bind_res (userinit s) (\<lambda>s. scheduler (s\<lparr>started := True\<rparr>))))))))
      else if \<not> started s then Spin
      else bind_res (printf (Some hart_starting) [A_int (of_nat (cpuid s))] s) (\<lambda>s.
        scheduler (plicinithart (trapinithart (kvminithart s)))))"

end
