(* ===== verification/Start.thy ===== *)
theory Start
  imports Riscv
begin

unbundle bit_operations_syntax

text \<open>
  The start of a hart in machine mode, \<^verbatim>\<open>kernel/start.c\<close>: the registers that \<open>start\<close> leaves for its jump to \<open>main\<close> in
  supervisor mode, and the timer. The state is that of one hart, with the registers of the CLINT and the array
  \<open>timer_scratch\<close>; the addresses of \<open>main\<close>, \<open>timervec\<close> and of the array are fields.
\<close>

definition CLINT :: u64 where "CLINT = 0x2000000"
definition CLINT_MTIMECMP :: "u64 \<Rightarrow> u64" where "CLINT_MTIMECMP hartid = CLINT + 0x4000 + 8 * hartid"
definition CLINT_MTIME :: u64 where "CLINT_MTIME = CLINT + 0xBFF8"

definition MSTATUS_MPP_MASK :: u64 where "MSTATUS_MPP_MASK = push_bit 11 3"
definition MSTATUS_MPP_S :: u64 where "MSTATUS_MPP_S = push_bit 11 1"
definition MSTATUS_MIE :: u64 where "MSTATUS_MIE = push_bit 3 1"
definition SIE_SEIE :: u64 where "SIE_SEIE = push_bit 9 1"
definition SIE_STIE :: u64 where "SIE_STIE = push_bit 5 1"
definition SIE_SSIE :: u64 where "SIE_SSIE = push_bit 1 1"
definition MIE_MTIE :: u64 where "MIE_MTIE = push_bit 7 1"

record mhart =
  mhartid :: u64
  mstatus :: u64
  mepc :: u64
  msatp :: u64
  medeleg :: u64
  mideleg :: u64
  msie :: u64
  mie :: u64
  pmpaddr0 :: u64
  pmpcfg0 :: u64
  mscratch :: u64
  mtvec :: u64
  tp_reg :: u64
  clint :: "u64 \<Rightarrow> u64"
  timer_scratch :: "nat \<Rightarrow> nat \<Rightarrow> u64"
  main_addr :: u64
  timervec :: u64
  timer_scratch_addr :: u64

text \<open>The hart number is held in an \<^verbatim>\<open>int\<close>; it is small and not negative.\<close>

definition timerinit :: "mhart \<Rightarrow> mhart" where
  "timerinit h =
     (let id = mhartid h; interval = 1000000;
          h = h\<lparr>clint := (clint h)(CLINT_MTIMECMP id := clint h CLINT_MTIME + interval)\<rparr>;
          h = h\<lparr>timer_scratch := (timer_scratch h)(unat id := (timer_scratch h (unat id))(3 := CLINT_MTIMECMP id, 4 := interval))\<rparr>;
          h = h\<lparr>mscratch := timer_scratch_addr h + 40 * id\<rparr>;
          h = h\<lparr>mtvec := timervec h\<rparr>;
          h = h\<lparr>mstatus := mstatus h OR MSTATUS_MIE\<rparr>
      in h\<lparr>mie := mie h OR MIE_MTIE\<rparr>)"

definition start :: "mhart \<Rightarrow> mhart" where
  "start h =
     (let x = mstatus h AND NOT MSTATUS_MPP_MASK OR MSTATUS_MPP_S;
          h = h\<lparr>mstatus := x\<rparr>;
          h = h\<lparr>mepc := main_addr h\<rparr>;
          h = h\<lparr>msatp := 0\<rparr>;
          h = h\<lparr>medeleg := 0xffff\<rparr>;
          h = h\<lparr>mideleg := 0xffff\<rparr>;
          h = h\<lparr>msie := msie h OR SIE_SEIE OR SIE_STIE OR SIE_SSIE\<rparr>;
          h = h\<lparr>pmpaddr0 := 0x3fffffffffffff\<rparr>;
          h = h\<lparr>pmpcfg0 := 0xf\<rparr>;
          h = timerinit h
      in h\<lparr>tp_reg := mhartid h\<rparr>)"

end
