(* ===== verification/Spec2Isabelle.thy ===== *)
theory Spec2Isabelle
  imports Cow_Props Log_Props Trap Start
begin

text \<open>
  PLACEHOLDER
\<close>

section \<open>The page allocator\<close>

text \<open>
  (C10) \<open>kinit\<close> makes a pool of exactly the whole pages between the end of the reference-counter
  array, which it places right behind the kernel image, and \<open>PHYSTOP\<close>; every one of them is
  free, once, and the allocator's locks are free.
\<close>

theorem kinit_pool:
  assumes "cpu_ok s" "kend_ok s" "freelist s = 0" "unat (kend s) + unat (ref_space (kend s)) \<le> unat PHYSTOP"
  shows "\<exists>t xs. kinit s = Ok t \<and> kmem_ready t \<and> lock_free L_ref t \<and> kmem_inv t xs \<and> distinct xs \<and>
    set xs = {q. aligned q \<and> kend s + ref_space (kend s) \<le> q \<and> q < PHYSTOP} \<and>
    (\<forall>q \<in> set xs. get_kmem_ref q t = 0)"
  using kinit_inv [OF assms] by (auto simp: kmem_inv_def)

theorem kinit_pool_witness: "\<exists>t xs. kinit boot = Ok t \<and> kmem_inv t xs \<and> distinct xs \<and> length xs = 32702"
proof -
  obtain t xs where t: "kinit boot = Ok t" "kmem_inv t xs" "distinct xs"
      "set xs = {q. aligned q \<and> kend boot + ref_space (kend boot) \<le> q \<and> q < PHYSTOP}"
    using kinit_pool [OF boot_ready(1-3,5)] by blast
  moreover have "kend boot + ref_space (kend boot) = 0x80042000"
    by (simp add: boot_def ref_space_def riscv_consts Let_def)
  ultimately have "card (set xs) = 32702" using many_pages by (simp only:)
  then show ?thesis using t distinct_card [OF t(3)] by auto
qed

text \<open>
  (C11) The allocator never hands out a page that is in use, two allocations give different
  pages, and a page comes back to the pool exactly when its last reference is dropped; a page
  with more references only loses one.
\<close>

theorem kalloc_kfree_pool:
  assumes "kmem_ready s" "kmem_inv s (x # y # xs)" "kpage s p" "get_kmem_ref p s \<noteq> 0"
  shows "\<exists>t u v. kalloc s = Ok (x, t) \<and> kalloc t = Ok (y, u) \<and> distinct [p, x, y] \<and>
    get_kmem_ref x u = 1 \<and> get_kmem_ref y u = 1 \<and> get_kmem_ref p u = get_kmem_ref p s \<and>
    kfree p u = Ok v \<and> get_kmem_ref p v = get_kmem_ref p s - 1 \<and>
    kmem_inv v (if get_kmem_ref p s = 1 then p # xs else xs)"
proof -
  have s: "kmem_pool_inv s (x # y # xs)" using assms by simp
  obtain t where t: "kalloc s = Ok (x, t)" "kmem_pool_inv t (y # xs)" "get_kmem_ref x t = 1" "kpage t = kpage s"
      "\<And>q. kpage s q \<Longrightarrow> q \<noteq> x \<Longrightarrow> get_kmem_ref q t = get_kmem_ref q s"
    using kp.alloc_page [OF s] by blast
  obtain u where u: "kalloc t = Ok (y, u)" "kmem_pool_inv u xs" "get_kmem_ref y u = 1" "kpage u = kpage t"
      "\<And>q. kpage t q \<Longrightarrow> q \<noteq> y \<Longrightarrow> get_kmem_ref q u = get_kmem_ref q t"
    using kp.alloc_page [OF t(2)] by blast
  have d: "p \<noteq> x" "p \<noteq> y" "x \<noteq> y" "kpage s x"
    using kp.pool_page [OF s, of x] kp.pool_page [OF s, of y] kp.pool_distinct [OF s] assms(4) by auto
  have r: "get_kmem_ref p u = get_kmem_ref p s" "get_kmem_ref x u = 1"
    using u(5) [of p] u(5) [of x] t(3-5) d assms(3) by simp_all
  obtain v where v: "kfree p u = Ok v" "get_kmem_ref p v = get_kmem_ref p s - 1"
      "kmem_inv v (if get_kmem_ref p s = 1 then p # xs else xs)"
    using kp.free_page [OF u(2), of p] r(1) assms(3,4) t(4) u(4) by auto
  show ?thesis using t(1) u(1,3) v d r by (intro exI [of _ t] exI [of _ u] exI [of _ v]) simp
qed

theorem kalloc_kfree_pool_witness:
  "\<exists>(s :: kmem) p t u v. get_kmem_ref p s = 1 \<and> kalloc s = Ok (fst t, snd t) \<and> kalloc (snd t) = Ok (fst u, snd u) \<and>
     distinct [p, fst t, fst u] \<and> kfree p (snd u) = Ok v \<and> get_kmem_ref p v = 0"
proof -
  obtain s xs p q where s: "cow_inv s xs {p, q}" "62 \<le> length xs"
    "\<And>k. ents (mem (s :: kmem)) (p, k) = 0" using two_spaces by blast
  obtain x y zs where xs: "xs = x # y # zs" using s(2) by (cases xs; cases "tl xs") auto
  have "p \<in> tables (mem s) {p, q}" by (auto simp: tables_def)
  then have p: "kpage s p" "get_kmem_ref p s = 1" using tables_owned [OF cow_invD(1) [OF s(1)]] by auto
  have h: "kmem_ready s" "kmem_inv s (x # y # zs)" "get_kmem_ref p s \<noteq> 0"
    using vm_invD(1,2) [OF cow_invD(1) [OF s(1)]] xs p(2) by simp_all
  obtain t u v where "kalloc s = Ok (x, t)" "kalloc t = Ok (y, u)" "distinct [p, x, y]" "kfree p u = Ok v"
      "get_kmem_ref p v = get_kmem_ref p s - 1"
    using kalloc_kfree_pool [OF h(1,2) p(1) h(3)] by blast
  then show ?thesis using p(2)
    by (intro exI [of _ s] exI [of _ p] exI [of _ "(x, t)"] exI [of _ "(y, u)"] exI [of _ v]) simp
qed

end
